(* ===== verification/Prelude.thy ===== *)
theory Prelude
  imports Main "HOL-Library.Word"
begin

unbundle bit_operations_syntax

text \<open>
  Shared vocabulary of the development: the machine-integer types of the Rust sources, the
  state-passing parser monad that models functions of type \<open>&mut Reader -> Result<T, E>\<close>,
  big-endian byte encodings (\<open>to_be_bytes\<close>, \<open>from_be_bytes\<close>), and the contract that every
  bounds-checked reader of the repository satisfies, stated as the locale \<open>byte_reader\<close>.
\<close>

named_theorems wire_simps \<open>unfolding rules for the codecs\<close>
named_theorems parse_intros \<open>introduction rules for the relation \<open>parses\<close>\<close>

section \<open>Machine integers\<close>

type_synonym u8 = "8 word"
type_synonym u16 = "16 word"
type_synonym u32 = "32 word"
type_synonym u64 = "64 word"
type_synonym bytes = "u8 list"

text \<open>An array \<open>[u8; n]\<close> is a byte list; its length is a hypothesis of the lemmas that need it.\<close>

abbreviation arr :: "nat \<Rightarrow> bytes \<Rightarrow> bool" where
  "arr n bs \<equiv> length bs = n"

section \<open>Results and the parser monad\<close>

text \<open>\<open>std::cmp::Ordering\<close> and \<open>Ord::cmp\<close>.\<close>

datatype Ordering = Less | Equal | Greater

definition cmp :: "'a::linorder \<Rightarrow> 'a \<Rightarrow> Ordering" where
  "cmp a b = (if a < b then Less else if a = b then Equal else Greater)"

text \<open>\<open>Result<T, E>\<close> is the sum \<open>'e + 'a\<close>; \<open>res_bind\<close> is the operator \<open>?\<close>.\<close>

definition res_bind :: "'e + 'a \<Rightarrow> ('a \<Rightarrow> 'e + 'b) \<Rightarrow> 'e + 'b" where
  "res_bind m f = (case m of Inl e \<Rightarrow> Inl e | Inr x \<Rightarrow> f x)"

lemma res_bind_simps [simp]:
  "res_bind (Inl e) f = Inl e"
  "res_bind (Inr x) f = f x"
  by (simp_all add: res_bind_def)

lemma res_bind_Inr_iff: "res_bind m f = Inr y \<longleftrightarrow> (\<exists>x. m = Inr x \<and> f x = Inr y)"
  by (cases m) simp_all

text \<open>\<open>Option::ok_or\<close>.\<close>

definition ok_or :: "'a option \<Rightarrow> 'e \<Rightarrow> 'e + 'a" where
  "ok_or m e = (case m of None \<Rightarrow> Inl e | Some x \<Rightarrow> Inr x)"

lemma ok_or_simps [simp]:
  "ok_or None e = Inl e"
  "ok_or (Some x) e = Inr x"
  by (simp_all add: ok_or_def)

text \<open>A function that can also panic (an index out of range, an \<open>unwrap\<close>) fails with \<open>Panic\<close>.\<close>

datatype 'e failure = Err 'e | Panic

text \<open>A method that takes \<open>&mut self\<close> and may fail threads the reader state explicitly.\<close>

type_synonym ('r, 'e, 'a) parser = "'r \<Rightarrow> 'e + ('a \<times> 'r)"

definition bindp :: "('r, 'e, 'a) parser \<Rightarrow> ('a \<Rightarrow> ('r, 'e, 'b) parser) \<Rightarrow> ('r, 'e, 'b) parser" where
  "bindp p f r = (case p r of Inl e \<Rightarrow> Inl e | Inr (x, r') \<Rightarrow> f x r')"

definition retp :: "'a \<Rightarrow> ('r, 'e, 'a) parser" where
  "retp x r = Inr (x, r)"

definition failp :: "('r \<Rightarrow> 'e) \<Rightarrow> ('r, 'e, 'a) parser" where
  "failp e r = Inl (e r)"

text \<open>\<open>liftp\<close> runs a fallible computation that does not touch the reader.\<close>

definition liftp :: "'e + 'a \<Rightarrow> ('r, 'e, 'a) parser" where
  "liftp m r = (case m of Inl e \<Rightarrow> Inl e | Inr x \<Rightarrow> Inr (x, r))"

lemma retp_simp [simp]: "retp x r = Inr (x, r)"
  by (simp add: retp_def)

lemma failp_simp [simp]: "failp e r = Inl (e r)"
  by (simp add: failp_def)

lemma liftp_simps [simp]: "liftp (Inl e) r = Inl e" "liftp (Inr x) r = Inr (x, r)"
  by (simp_all add: liftp_def)

lemma bindp_step:
  "p r = Inl e \<Longrightarrow> bindp p f r = Inl e"
  "p r = Inr (x, r') \<Longrightarrow> bindp p f r = f x r'"
  by (simp_all add: bindp_def)

lemma bindp_Inr_iff: "bindp p f r = Inr y \<longleftrightarrow> (\<exists>x r'. p r = Inr (x, r') \<and> f x r' = Inr y)"
  by (auto simp: bindp_def split: sum.splits)

text \<open>
  The loop \<open>while r.remaining() > 0 { out.push(p(r)?) }\<close>, where \<open>sz\<close> counts the remaining bytes. A
  pass that consumed nothing would repeat without end and fill the memory; that case is \<open>Panic\<close>.
\<close>

function while_left ::
  "('r \<Rightarrow> nat) \<Rightarrow> ('r, 'e failure, 'a) parser \<Rightarrow> ('r, 'e failure, 'a list) parser" where
  "while_left sz p r =
     (if sz r = 0 then Inr ([], r)
      else
        case p r of
          Inl e \<Rightarrow> Inl e
        | Inr (x, r') \<Rightarrow>
            if sz r' < sz r
            then (case while_left sz p r' of Inl e \<Rightarrow> Inl e | Inr (xs, r'') \<Rightarrow> Inr (x # xs, r''))
            else Inl Panic)"
  by pat_completeness auto

termination
  by (relation "measure (\<lambda>(sz, _, r). sz r)") auto

declare while_left.simps [simp del]

text \<open>A counted loop \<open>for _ in 0..n { out.push(p(r)?) }\<close>.\<close>

primrec repeat_p :: "nat \<Rightarrow> ('r, 'e, 'a) parser \<Rightarrow> ('r, 'e, 'a list) parser" where
  "repeat_p 0 p = retp []"
| "repeat_p (Suc n) p = bindp p (\<lambda>x. bindp (repeat_p n p) (\<lambda>xs. retp (x # xs)))"

text \<open>
  Parsers that never panic and never give bytes back (\<open>safe_p\<close>), and those that also consume at
  least one byte (\<open>eats\<close>): with such a body the loop above ends and does not panic.
\<close>

definition safe_p :: "('r \<Rightarrow> nat) \<Rightarrow> ('r, 'e failure, 'a) parser \<Rightarrow> bool" where
  "safe_p sz p \<longleftrightarrow> (\<forall>r. p r \<noteq> Inl Panic \<and> (\<forall>x r'. p r = Inr (x, r') \<longrightarrow> sz r' \<le> sz r))"

definition eats :: "('r \<Rightarrow> nat) \<Rightarrow> ('r, 'e failure, 'a) parser \<Rightarrow> bool" where
  "eats sz p \<longleftrightarrow> (\<forall>r. p r \<noteq> Inl Panic \<and> (\<forall>x r'. p r = Inr (x, r') \<longrightarrow> sz r' < sz r))"

named_theorems safe_intros \<open>rules for parsers that do not panic\<close>

lemma eats_safe: "eats sz p \<Longrightarrow> safe_p sz p"
  unfolding eats_def safe_p_def by (meson less_imp_le)

lemma safe_ret [safe_intros]: "safe_p sz (retp x)"
  by (simp add: safe_p_def)

lemma safe_fail [safe_intros]: "(\<And>r. e r \<noteq> Panic) \<Longrightarrow> safe_p sz (failp e)"
  by (simp add: safe_p_def)

lemma safe_lift [safe_intros]: "m \<noteq> Inl Panic \<Longrightarrow> safe_p sz (liftp m)"
  by (auto simp: safe_p_def liftp_def split: sum.splits)

lemma safe_bind [safe_intros]: "safe_p sz p \<Longrightarrow> (\<And>x. safe_p sz (f x)) \<Longrightarrow> safe_p sz (bindp p f)"
  unfolding safe_p_def bindp_def by (fastforce split: sum.splits dest: le_trans)

lemma eats_bind: "eats sz p \<Longrightarrow> (\<And>x. safe_p sz (f x)) \<Longrightarrow> eats sz (bindp p f)"
  unfolding safe_p_def eats_def bindp_def by (fastforce split: sum.splits dest: le_less_trans)

lemma safe_if [safe_intros]:
  "(b \<Longrightarrow> safe_p sz p) \<Longrightarrow> (\<not> b \<Longrightarrow> safe_p sz q) \<Longrightarrow> safe_p sz (if b then p else q)"
  by simp

lemma safe_repeat [safe_intros]: "safe_p sz p \<Longrightarrow> safe_p sz (repeat_p n p)"
  by (induction n) (auto intro!: safe_intros)

lemma safe_while_measure:
  assumes "eats sz p" and "safe_p sz' p"
  shows "safe_p sz' (while_left sz p)"
  unfolding safe_p_def
proof
  fix r
  show "while_left sz p r \<noteq> Inl Panic \<and> (\<forall>x r'. while_left sz p r = Inr (x, r') \<longrightarrow> sz' r' \<le> sz' r)"
  proof (induction "sz r" arbitrary: r rule: less_induct)
    case less
    show ?case
    proof (cases "sz r = 0 \<or> (\<exists>e. p r = Inl e)")
      case True
      then show ?thesis using assms by (auto simp: while_left.simps [of sz p r] eats_def)
    next
      case False
      then obtain x r' where p: "p r = Inr (x, r')" by (cases "p r") auto
      then have lt: "sz r' < sz r" and le: "sz' r' \<le> sz' r" using assms by (simp_all add: eats_def safe_p_def)
      show ?thesis
        using less [OF lt] False p lt le by (fastforce simp: while_left.simps [of sz p r] split: sum.splits)
    qed
  qed
qed

lemma safe_while [safe_intros]: "eats sz p \<Longrightarrow> safe_p sz (while_left sz p)"
  by (simp add: safe_while_measure eats_safe)

text \<open>
  Parsers that run on fuel: with at most \<open>n\<close> units of input left the parser does not fail with \<open>stop\<close>, the failure that stands for
  fuel that is used up (\<open>ends_on\<close>), and a successful run consumes at least \<open>k\<close> units (\<open>consumes\<close>).
\<close>

definition ends_on :: "('r \<Rightarrow> nat) \<Rightarrow> 'e \<Rightarrow> nat \<Rightarrow> ('r, 'e, 'a) parser \<Rightarrow> bool" where
  "ends_on sz stop n p \<longleftrightarrow> (\<forall>r. sz r \<le> n \<longrightarrow> p r \<noteq> Inl stop)"

definition consumes :: "('r \<Rightarrow> nat) \<Rightarrow> nat \<Rightarrow> ('r, 'e, 'a) parser \<Rightarrow> bool" where
  "consumes sz k p \<longleftrightarrow> (\<forall>r x r'. p r = Inr (x, r') \<longrightarrow> sz r' + k \<le> sz r)"

lemma consumes_bind: "consumes sz k p \<Longrightarrow> (\<And>x. consumes sz 0 (f x)) \<Longrightarrow> consumes sz k (bindp p f)"
  by (fastforce simp: consumes_def bindp_Inr_iff)

lemma consumes_weaken: "consumes sz k p \<Longrightarrow> consumes sz 0 p"
  by (auto simp: consumes_def dest: add_leD1)

lemma total_bind:
  assumes "ends_on sz stop n p" and "consumes sz 0 p" and "\<And>x. ends_on sz stop n (f x)"
  shows "ends_on sz stop n (bindp p f)"
  using assms by (fastforce simp: ends_on_def consumes_def bindp_def split: sum.split)

lemma total_bind_consume:
  assumes "ends_on sz stop n p" and "consumes sz 1 p" and "\<And>m x. n = Suc m \<Longrightarrow> ends_on sz stop m (f x)"
  shows "ends_on sz stop n (bindp p f)"
  unfolding ends_on_def
proof (intro allI impI)
  fix r
  assume n: "sz r \<le> n"
  show "bindp p f r \<noteq> Inl stop"
  proof (cases "p r")
    case (Inl e)
    with assms(1) n show ?thesis by (auto simp: ends_on_def bindp_def)
  next
    case (Inr q)
    then obtain x r' where r': "p r = Inr (x, r')" by (cases q) simp
    with assms(2) n have "sz r' + 1 \<le> n" by (fastforce simp: consumes_def)
    then obtain m where "n = Suc m" "sz r' \<le> m" by (cases n) auto
    with assms(3) r' show ?thesis by (auto simp: ends_on_def bindp_def)
  qed
qed

lemma total_mono: "ends_on sz stop n p \<Longrightarrow> m \<le> n \<Longrightarrow> ends_on sz stop m p"
  by (auto simp: ends_on_def)

lemma total_basic:
  "consumes sz 0 (retp x)" "ends_on sz stop n (retp x)" "consumes sz k (failp e)"
  "(\<And>r. e r \<noteq> stop) \<Longrightarrow> ends_on sz stop n (failp e)"
  "consumes sz 0 (liftp m)" "m \<noteq> Inl stop \<Longrightarrow> ends_on sz stop n (liftp m)"
  by (auto simp: consumes_def ends_on_def liftp_def split: sum.splits)

section \<open>Big-endian encodings\<close>

text \<open>\<open>to_be n v\<close> is the \<open>n\<close>-byte big-endian representation of \<open>v\<close> modulo \<open>256 ^ n\<close>.\<close>

primrec to_be :: "nat \<Rightarrow> nat \<Rightarrow> bytes" where
  "to_be 0 v = []"
| "to_be (Suc n) v = word_of_nat (v div 256 ^ n) # to_be n v"

definition be_val :: "bytes \<Rightarrow> nat" where
  "be_val bs = foldl (\<lambda>a b. a * 256 + unat b) 0 bs"

text \<open>\<open>u16::to_be_bytes\<close> and its relatives, and the matching \<open>from_be_bytes\<close>.\<close>

definition be16 :: "u16 \<Rightarrow> bytes" where
  "be16 v = to_be 2 (unat v)"

definition be32 :: "u32 \<Rightarrow> bytes" where
  "be32 v = to_be 4 (unat v)"

definition be64 :: "u64 \<Rightarrow> bytes" where
  "be64 v = to_be 8 (unat v)"

definition from_be :: "bytes \<Rightarrow> 'a::len word" where
  "from_be bs = word_of_nat (be_val bs)"

lemma length_to_be [simp]: "length (to_be n v) = n"
  by (induction n) simp_all

lemma drop_to_be: "drop k (to_be n v) = to_be (n - k) v"
proof (induction n arbitrary: k)
  case 0
  then show ?case by simp
next
  case (Suc n)
  then show ?case by (cases k) simp_all
qed

lemma length_be [simp]: "length (be16 a) = 2" "length (be32 b) = 4" "length (be64 c) = 8"
  by (simp_all add: be16_def be32_def be64_def)

lemma be_val_acc: "foldl (\<lambda>a b. a * 256 + unat b) x bs = x * 256 ^ length bs + be_val (bs :: bytes)"
proof (induction bs arbitrary: x)
  case Nil
  then show ?case by (simp add: be_val_def)
next
  case (Cons b bs)
  have "foldl (\<lambda>a b. a * 256 + unat b) x (b # bs) = (x * 256 + unat b) * 256 ^ length bs + be_val bs"
    using Cons.IH [of "x * 256 + unat b"] by simp
  moreover have "be_val (b # bs) = unat b * 256 ^ length bs + be_val bs"
    using Cons.IH [of "unat b"] by (simp add: be_val_def)
  ultimately show ?case by (simp add: algebra_simps)
qed

lemma be_val_Nil [simp]: "be_val [] = 0"
  by (simp add: be_val_def)

lemma be_val_Cons [simp]: "be_val (b # bs) = unat b * 256 ^ length bs + be_val bs"
  using be_val_acc [of "unat b" bs] by (simp add: be_val_def)

lemma be_val_append: "be_val (xs @ ys) = be_val xs * 256 ^ length ys + be_val ys"
  by (induction xs) (simp_all add: power_add algebra_simps)

lemma unat_less_power: "unat (w :: 'a::len word) < 2 ^ LENGTH('a)"
  by (rule unsigned_less)

lemma word_of_nat_unat: "word_of_nat (unat (w :: 'a::len word)) = w"
  by simp

lemma unat_take_bit_mod: "unat (take_bit n (w :: 'a::len word)) = unat w mod 2 ^ n"
  by (metis unsigned_take_bit_eq take_bit_eq_mod)

lemma high_bits_clear: "unat (w :: 'a::len word) < 2 ^ n \<Longrightarrow> n \<le> k \<Longrightarrow> \<not> bit w k"
proof -
  assume w: "unat w < 2 ^ n" and k: "n \<le> k"
  have "unat (take_bit n w) = unat w"
    using w by (simp add: unsigned_take_bit_eq take_bit_nat_eq_self)
  then have "take_bit n w = w" by (rule unsigned_word_eqI)
  then show "\<not> bit w k" using k by (metis bit_take_bit_iff not_le)
qed

lemma take_bit_small: "unat (w :: 'a::len word) < 2 ^ n \<Longrightarrow> take_bit n w = w"
  by (metis mod_less unat_take_bit_mod unsigned_word_eqI)

lemma unat_of_nat_small: "n < 2 ^ LENGTH('a) \<Longrightarrow> unat (word_of_nat n :: 'a::len word) = n"
  by (simp add: unat_of_nat)

lemma u8_less_256: "unat (b :: u8) < 256"
  using unat_less_power [of b] by simp

lemma unat_bounds:
  "unat (a :: u16) < 65536" "unat (b :: u32) < 4294967296" "unat (c :: u64) < 18446744073709551616"
  using unat_less_power [of a] unat_less_power [of b] unat_less_power [of c] by simp_all

lemma be_val_less: "be_val bs < 256 ^ length bs"
proof (induction bs)
  case Nil
  then show ?case by simp
next
  case (Cons b bs)
  have "unat b * 256 ^ length bs \<le> 255 * 256 ^ length bs"
    using u8_less_256 [of b] by (intro mult_right_mono) simp_all
  from add_le_less_mono [OF this Cons.IH] show ?case by simp
qed

lemma be_val_to_be: "be_val (to_be n v) = v mod 256 ^ n"
proof (induction n)
  case 0
  then show ?case by simp
next
  case (Suc n)
  have "v mod 256 ^ Suc n = 256 ^ n * (v div 256 ^ n mod 256) + v mod 256 ^ n"
    using mod_mult2_eq [of v "256 ^ n" 256] by (simp add: mult.commute)
  then show ?case
    using Suc by (simp add: unat_of_nat mult.commute)
qed

lemma to_be_be_val: "to_be (length bs) (k * 256 ^ length bs + be_val bs) = bs"
proof (induction bs arbitrary: k)
  case Nil
  then show ?case by simp
next
  case (Cons b bs)
  let ?n = "length bs"
  have split: "k * 256 ^ Suc ?n + be_val (b # bs) = (k * 256 + unat b) * 256 ^ ?n + be_val bs"
    by (simp add: algebra_simps)
  have "(k * 256 ^ Suc ?n + be_val (b # bs)) div 256 ^ ?n = k * 256 + unat b"
    unfolding split using be_val_less [of bs] by simp
  moreover have "word_of_nat (k * 256 + unat b) = b"
  proof -
    have "(256 :: u8) = 0" by simp
    then show ?thesis by (simp only: of_nat_add of_nat_mult of_nat_numeral) simp
  qed
  moreover have "to_be ?n (k * 256 ^ Suc ?n + be_val (b # bs)) = bs"
    unfolding split by (rule Cons.IH)
  ultimately show ?case by simp
qed

lemma to_be_from_bytes [simp]: "length bs = n \<Longrightarrow> to_be n (be_val bs) = bs"
  using to_be_be_val [of bs 0] by auto

lemma from_be_be [simp]:
  "from_be (be16 a) = a" "from_be (be32 b) = b" "from_be (be64 c) = c"
  using unat_bounds(1) [of a] unat_bounds(2) [of b] unat_bounds(3) [of c]
  by (simp_all add: from_be_def be16_def be32_def be64_def be_val_to_be)

lemma be_from_be:
  "length xs = 2 \<Longrightarrow> be16 (from_be xs) = xs"
  "length ys = 4 \<Longrightarrow> be32 (from_be ys) = ys"
  "length zs = 8 \<Longrightarrow> be64 (from_be zs) = zs"
  using be_val_less [of xs] be_val_less [of ys] be_val_less [of zs]
  by (simp_all add: from_be_def be16_def be32_def be64_def unat_of_nat)

text \<open>The shift-and-or loops of the sources compute the same value as \<open>from_be_bytes\<close>.\<close>

definition shift_or :: "bytes \<Rightarrow> 'a::len word" where
  "shift_or bs = foldl (\<lambda>v x. push_bit 8 v OR ucast x) 0 bs"

lemma push_or_eq: "push_bit 8 (v :: 'a::len word) OR ucast (x :: u8) = v * 256 + ucast x"
proof -
  have "push_bit 8 v + ucast x = push_bit 8 v OR ucast x"
    by (rule disjunctive_add) (auto simp: bit_simps dest: bit_imp_le_length)
  then show ?thesis by (simp add: push_bit_eq_mult)
qed

lemma shift_or_acc:
  "foldl (\<lambda>v x. push_bit 8 v OR ucast x) (word_of_nat a) bs
     = (word_of_nat (a * 256 ^ length bs + be_val bs) :: 'a::len word)"
proof (induction bs arbitrary: a)
  case Nil
  then show ?case by simp
next
  case (Cons b bs)
  have "push_bit 8 (word_of_nat a :: 'a word) OR ucast b = word_of_nat (a * 256 + unat b)"
    by (simp add: push_or_eq)
  then show ?case
    using Cons.IH [of "a * 256 + unat b"] by (simp add: algebra_simps)
qed

lemma shift_or_from_be: "shift_or bs = from_be bs"
  using shift_or_acc [of 0 bs] by (simp add: shift_or_def from_be_def)

section \<open>The contract of a bounds-checked reader\<close>

text \<open>
  Every codec of the repository reads through a cursor over a byte slice. A provider gives the
  unread bytes \<open>rest\<close>, the cursor movement \<open>adv\<close> and the read of \<open>n\<close> bytes \<open>rd\<close>, which either
  returns exactly the next \<open>n\<close> bytes and advances past them, or fails with the provider's error
  when fewer are left. A client proves about its parsers that they \<open>parse\<close> a byte string: run on
  any reader whose unread bytes start with the string they return the value and consume
  exactly the string.
\<close>

locale byte_reader =
  fixes rest :: "'r \<Rightarrow> bytes"
    and adv :: "nat \<Rightarrow> 'r \<Rightarrow> 'r"
    and rd :: "nat \<Rightarrow> ('r, 'e, bytes) parser"
    and eof :: "nat \<Rightarrow> 'r \<Rightarrow> 'e"
  assumes rest_adv: "rest (adv n r) = drop n (rest r)"
    and adv_adv: "adv m (adv n r) = adv (n + m) r"
    and adv_0: "adv 0 r = r"
    and rd_ok: "n \<le> length (rest r) \<Longrightarrow> rd n r = Inr (take n (rest r), adv n r)"
    and rd_eof: "length (rest r) < n \<Longrightarrow> rd n r = Inl (eof n r)"
begin

definition parses :: "('r, 'e, 'a) parser \<Rightarrow> bytes \<Rightarrow> 'a \<Rightarrow> bool" where
  "parses p bs x \<longleftrightarrow> (\<forall>r ys. rest r = bs @ ys \<longrightarrow> p r = Inr (x, adv (length bs) r))"

lemma parsesI: "(\<And>r ys. rest r = bs @ ys \<Longrightarrow> p r = Inr (x, adv (length bs) r)) \<Longrightarrow> parses p bs x"
  by (simp add: parses_def)

lemma parsesD: "parses p bs x \<Longrightarrow> rest r = bs @ ys \<Longrightarrow> p r = Inr (x, adv (length bs) r)"
  by (simp add: parses_def)

lemma parses_rd: "length bs = n \<Longrightarrow> parses (rd n) bs bs"
  by (rule parsesI) (simp add: rd_ok)

lemma parses_ret: "parses (retp x) [] x"
  by (rule parsesI) (simp add: adv_0)

lemma parses_bind:
  assumes "parses p bs x" and "parses (f x) cs y"
  shows "parses (bindp p f) (bs @ cs) y"
proof (rule parsesI)
  fix r ys
  assume r: "rest r = (bs @ cs) @ ys"
  then have p: "p r = Inr (x, adv (length bs) r)"
    using parsesD [OF assms(1), of r "cs @ ys"] by simp
  have "rest (adv (length bs) r) = cs @ ys"
    using r by (simp add: rest_adv)
  from parsesD [OF assms(2) this] p show "bindp p f r = Inr (y, adv (length (bs @ cs)) r)"
    by (simp add: bindp_step adv_adv)
qed

lemma parses_bind_ret: "parses p bs x \<Longrightarrow> y = f x \<Longrightarrow> parses (bindp p (\<lambda>x. retp (f x))) bs y"
  using parses_bind [of p bs x "\<lambda>x. retp (f x)" "[]" "f x"] parses_ret [of "f x"] by simp

lemma parses_lift: "m = Inr x \<Longrightarrow> parses (liftp m) [] x"
  by (rule parsesI) (simp add: adv_0)

lemma parses_unique: "parses p bs x \<Longrightarrow> parses p bs y \<Longrightarrow> rest r = bs @ ys \<Longrightarrow> x = y"
  using parsesD [of p bs x r ys] parsesD [of p bs y r ys] by simp

text \<open>A read either fails or leaves no more bytes than before; it never invents input.\<close>

lemma rd_cases:
  obtains "n \<le> length (rest r)" "rd n r = Inr (take n (rest r), adv n r)"
  | "length (rest r) < n" "rd n r = Inl (eof n r)"
  using rd_ok rd_eof by (metis not_le)

lemma rd_Inr_iff: "rd n r = Inr (bs, r') \<longleftrightarrow> n \<le> length (rest r) \<and> bs = take n (rest r) \<and> r' = adv n r"
  by (cases rule: rd_cases [of n r]) auto

text \<open>Parsers that use the input up to its end.\<close>

definition parses_all :: "('r, 'e, 'a) parser \<Rightarrow> bytes \<Rightarrow> 'a \<Rightarrow> bool" where
  "parses_all p bs x \<longleftrightarrow> (\<forall>r. rest r = bs \<longrightarrow> p r = Inr (x, adv (length bs) r))"

lemma parses_allI: "(\<And>r. rest r = bs \<Longrightarrow> p r = Inr (x, adv (length bs) r)) \<Longrightarrow> parses_all p bs x"
  by (simp add: parses_all_def)

lemma parses_allD: "parses_all p bs x \<Longrightarrow> rest r = bs \<Longrightarrow> p r = Inr (x, adv (length bs) r)"
  by (simp add: parses_all_def)

lemma parses_imp_all: "parses p bs x \<Longrightarrow> parses_all p bs x"
  unfolding parses_def parses_all_def by (metis append_Nil2)

lemma parses_all_bind:
  assumes "parses p bs x" and "parses_all (f x) cs y"
  shows "parses_all (bindp p f) (bs @ cs) y"
proof (rule parses_allI)
  fix r
  assume r: "rest r = bs @ cs"
  have "rest (adv (length bs) r) = cs" using r by (simp add: rest_adv)
  from parses_allD [OF assms(2) this] parsesD [OF assms(1) r]
  show "bindp p f r = Inr (y, adv (length (bs @ cs)) r)" by (simp add: bindp_step adv_adv)
qed

lemma parses_all_bind_ret: "parses_all p bs x \<Longrightarrow> y = f x \<Longrightarrow> parses_all (bindp p (\<lambda>x. retp (f x))) bs y"
  by (auto simp: parses_all_def bindp_def)

lemma parses_repeat:
  "list_all2 (\<lambda>bs x. parses p bs x) bss xs \<Longrightarrow> n = length xs \<Longrightarrow> parses (repeat_p n p) (concat bss) xs"
proof (induction bss xs arbitrary: n rule: list_all2_induct)
  case Nil
  then show ?case using parses_ret [of "[]"] by (simp del: retp_simp)
next
  case (Cons bs bss x xs)
  then show ?case by (auto simp del: retp_simp intro!: parses_bind parses_bind_ret)
qed

end

text \<open>A reader that knows how many bytes are left.\<close>

locale sized_reader = byte_reader rest adv rd "\<lambda>n r. Err (eof n r)"
  for rest :: "'r \<Rightarrow> bytes" and adv :: "nat \<Rightarrow> 'r \<Rightarrow> 'r" and rd :: "nat \<Rightarrow> ('r, 'e failure, bytes) parser"
    and eof :: "nat \<Rightarrow> 'r \<Rightarrow> 'e" +
  fixes sz :: "'r \<Rightarrow> nat"
  assumes sz_rest: "sz r = length (rest r)"
begin

lemma safe_rd: "safe_p sz (rd n)"
  unfolding safe_p_def
proof
  fix r
  show "rd n r \<noteq> Inl Panic \<and> (\<forall>x r'. rd n r = Inr (x, r') \<longrightarrow> sz r' \<le> sz r)"
    by (cases rule: rd_cases [of n r]) (auto simp: sz_rest rest_adv)
qed

lemma eats_rd: "0 < n \<Longrightarrow> eats sz (rd n)"
  using safe_rd [of n] unfolding eats_def safe_p_def
  by (auto simp: sz_rest rd_Inr_iff rest_adv)

lemma parses_while:
  assumes "list_all2 (\<lambda>bs x. parses p bs x \<and> bs \<noteq> []) bss xs"
  shows "parses_all (while_left sz p) (concat bss) xs"
  using assms
proof (induction bss xs rule: list_all2_induct)
  case Nil
  then show ?case by (auto simp: parses_all_def while_left.simps sz_rest adv_0)
next
  case (Cons bs bss x xs)
  show ?case
  proof (rule parses_allI)
    fix r
    assume r: "rest r = concat (bs # bss)"
    then have p: "p r = Inr (x, adv (length bs) r)" and r': "rest (adv (length bs) r) = concat bss"
      using Cons(1) by (auto simp: rest_adv intro: parsesD)
    have "sz r \<noteq> 0" "sz (adv (length bs) r) < sz r"
      using Cons(1) r r' by (auto simp: sz_rest)
    then show "while_left sz p r = Inr (x # xs, adv (length (concat (bs # bss))) r)"
      using p parses_allD [OF Cons.IH r'] by (simp add: while_left.simps [of sz p r] adv_adv)
  qed
qed

text \<open>The loop \<open>while r.remaining() >= n\<close> over records of \<open>n\<close> bytes.\<close>

lemma parses_while_at_least:
  assumes "list_all2 (\<lambda>bs x. parses p bs x \<and> length bs = n) bss xs" and "0 < n"
  shows "parses_all (while_left (\<lambda>r. sz r div n) p) (concat bss) xs"
  using assms(1)
proof (induction bss xs rule: list_all2_induct)
  case Nil
  then show ?case by (auto simp: parses_all_def while_left.simps sz_rest adv_0)
next
  case (Cons bs bss x xs)
  let ?s = "\<lambda>r. sz r div n"
  show ?case
  proof (rule parses_allI)
    fix r
    assume r: "rest r = concat (bs # bss)"
    then have p: "p r = Inr (x, adv (length bs) r)" and r': "rest (adv (length bs) r) = concat bss"
      using Cons(1) by (auto simp: rest_adv intro: parsesD)
    have "?s r = Suc (?s (adv (length bs) r))"
      using Cons(1) r r' assms(2) by (simp add: sz_rest div_add_self1 del: length_concat)
    then show "while_left ?s p r = Inr (x # xs, adv (length (concat (bs # bss))) r)"
      using p parses_allD [OF Cons.IH r'] by (simp add: while_left.simps [of ?s p r] adv_adv)
  qed
qed

end

end
