(* ===== verification/Dtls_Wire.thy ===== *)
theory Dtls_Wire
  imports Prelude
begin

unbundle bit_operations_syntax

text \<open>
  The wire helpers of \<^verbatim>\<open>tpt-dtls/src/wire.rs\<close>: the byte accumulator \<open>Writer\<close> and the
  bounds-checked cursor \<open>Reader\<close>. The reader is the first provider of the \<open>byte_reader\<close>
  contract; every \<open>put\<close> operation is shown to be inverted by the \<open>read\<close> of the same name.
\<close>

text \<open>The constructors of \<open>DtlsError\<close> that the modelled functions produce, and those of the handshake
  messages that carry plain numbers.\<close>

datatype DtlsError =
    UnexpectedEof
  | LengthExceedsBuffer nat nat
  | RecordLengthMismatch nat nat
  | UnsupportedVersion u16
  | UnsupportedContentType u8
  | UnsupportedCipherSuite u16
  | UnknownHandshakeType u8
  | FragmentOutOfRange u32 u32 u32
  | NoReassemblyBuffer u16
  | DecryptFailed
  | Replay u64
  | SequenceOverflow u16
  | CookieMismatch
  | HandshakeIncomplete string

section \<open>Writer\<close>

type_synonym Writer = bytes

definition Writer_new :: Writer where
  "Writer_new = []"

definition put_bytes :: "bytes \<Rightarrow> Writer \<Rightarrow> Writer" where
  "put_bytes b w = w @ b"

definition put_u8 :: "u8 \<Rightarrow> Writer \<Rightarrow> Writer" where
  "put_u8 v w = w @ [v]"

definition put_u16 :: "u16 \<Rightarrow> Writer \<Rightarrow> Writer" where
  "put_u16 v w = w @ be16 v"

definition put_u24 :: "u32 \<Rightarrow> Writer \<Rightarrow> Writer" where
  "put_u24 v w = w @ [ucast (drop_bit 16 v), ucast (drop_bit 8 v), ucast v]"

definition put_u48 :: "u64 \<Rightarrow> Writer \<Rightarrow> Writer" where
  "put_u48 v w = w @ drop 2 (be64 v)"

definition put_vec_u8 :: "bytes \<Rightarrow> Writer \<Rightarrow> Writer" where
  "put_vec_u8 v w = put_bytes v (put_u8 (word_of_nat (length v)) w)"

definition put_vec_u16 :: "bytes \<Rightarrow> Writer \<Rightarrow> Writer" where
  "put_vec_u16 v w = put_bytes v (put_u16 (word_of_nat (length v)) w)"

definition put_vec_u24 :: "bytes \<Rightarrow> Writer \<Rightarrow> Writer" where
  "put_vec_u24 v w = put_bytes v (put_u24 (word_of_nat (length v)) w)"

lemmas put_defs [wire_simps] = Writer_new_def put_bytes_def put_u8_def put_u16_def put_u24_def
  put_u48_def put_vec_u8_def put_vec_u16_def put_vec_u24_def

section \<open>Reader\<close>

record Reader =
  rbuf :: bytes
  rpos :: nat

definition Reader_new :: "bytes \<Rightarrow> Reader" where
  "Reader_new b = \<lparr>rbuf = b, rpos = 0\<rparr>"

definition remaining :: "Reader \<Rightarrow> nat" where
  "remaining r = length (rbuf r) - rpos r"

definition eof :: "Reader \<Rightarrow> bool" where
  "eof r = (remaining r = 0)"

definition read_bytes :: "nat \<Rightarrow> (Reader, DtlsError, bytes) parser" where
  "read_bytes n r =
     (if remaining r < n then Inl UnexpectedEof
      else Inr (take n (drop (rpos r) (rbuf r)), r\<lparr>rpos := rpos r + n\<rparr>))"

definition read_u8 :: "(Reader, DtlsError, u8) parser" where
  "read_u8 = bindp (read_bytes 1) (\<lambda>b. retp (b ! 0))"

definition read_u16 :: "(Reader, DtlsError, u16) parser" where
  "read_u16 = bindp (read_bytes 2) (\<lambda>b. retp (from_be b))"

definition read_u24 :: "(Reader, DtlsError, u32) parser" where
  "read_u24 = bindp (read_bytes 3) (\<lambda>b. retp
     (push_bit 16 (ucast (b ! 0)) OR push_bit 8 (ucast (b ! 1)) OR ucast (b ! 2)))"

definition read_u48 :: "(Reader, DtlsError, u64) parser" where
  "read_u48 = bindp (read_bytes 6) (\<lambda>b. retp (from_be (replicate 2 0 @ b)))"

definition read_vec_u8 :: "(Reader, DtlsError, bytes) parser" where
  "read_vec_u8 = bindp read_u8 (\<lambda>n. read_bytes (unat n))"

definition read_vec_u16 :: "(Reader, DtlsError, bytes) parser" where
  "read_vec_u16 = bindp read_u16 (\<lambda>n. read_bytes (unat n))"

definition read_vec_u24 :: "(Reader, DtlsError, bytes) parser" where
  "read_vec_u24 = bindp read_u24 (\<lambda>n. read_bytes (unat n))"

definition expect_eof :: "Reader \<Rightarrow> DtlsError + unit" where
  "expect_eof r = (if eof r then Inr () else Inl UnexpectedEof)"

text \<open>The reader keeps the contract: \<open>rest\<close> are the bytes behind the cursor.\<close>

definition reader_rest :: "Reader \<Rightarrow> bytes" where
  "reader_rest r = drop (rpos r) (rbuf r)"

definition reader_adv :: "nat \<Rightarrow> Reader \<Rightarrow> Reader" where
  "reader_adv n r = r\<lparr>rpos := rpos r + n\<rparr>"

lemma reader_rest_new [simp]: "reader_rest (Reader_new b) = b"
  by (simp add: reader_rest_def Reader_new_def)

lemma length_reader_rest: "length (reader_rest r) = remaining r"
  by (simp add: reader_rest_def remaining_def)

interpretation dtls: byte_reader reader_rest reader_adv read_bytes "\<lambda>_ _. UnexpectedEof"
  by unfold_locales
    (auto simp: reader_rest_def reader_adv_def read_bytes_def remaining_def add.commute)

lemma dtls_parses_u8 [parse_intros]: "dtls.parses read_u8 [v] v"
  unfolding read_u8_def by (rule dtls.parses_bind_ret [OF dtls.parses_rd]) simp_all

lemma dtls_parses_u16 [parse_intros]: "dtls.parses read_u16 (be16 v) v"
  unfolding read_u16_def by (rule dtls.parses_bind_ret [OF dtls.parses_rd]) simp_all

text \<open>The 24-bit prefix: three bytes hold any value below \<open>2 ^ 24\<close>.\<close>

lemma u24_bytes:
  fixes v :: u32
  assumes "unat v < 2 ^ 24"
  shows "push_bit 16 (ucast (ucast (drop_bit 16 v) :: u8)) OR push_bit 8 (ucast (ucast (drop_bit 8 v) :: u8))
           OR ucast (ucast v :: u8) = v"
proof (rule bit_word_eqI)
  fix n
  assume "n < LENGTH(32)"
  consider "n < 8" | "8 \<le> n" "n < 16" | "16 \<le> n" "n < 24" | "24 \<le> n" by linarith
  then show "bit ((push_bit 16 (ucast (ucast (drop_bit 16 v) :: u8)) :: u32) OR
      push_bit 8 (ucast (ucast (drop_bit 8 v) :: u8)) OR ucast (ucast v :: u8)) n = bit v n"
    using \<open>n < LENGTH(32)\<close> high_bits_clear [OF assms, of n] by cases (auto simp: bit_simps)
qed

lemma dtls_parses_u24:
  assumes "unat v < 2 ^ 24"
  shows "dtls.parses read_u24 [ucast (drop_bit 16 v), ucast (drop_bit 8 v), ucast v] v"
  unfolding read_u24_def
  by (rule dtls.parses_bind_ret [OF dtls.parses_rd]) (simp_all add: u24_bytes [OF assms])

text \<open>The 48-bit sequence number loses everything above bit 47.\<close>

lemma from_be_drop2: "from_be (replicate 2 0 @ drop 2 (be64 v)) = (take_bit 48 v :: u64)"
proof -
  have "take_bit 48 v = word_of_nat (unat v mod 2 ^ 48)"
    by (metis word_of_nat_unat unat_take_bit_mod)
  moreover have "be_val (replicate 2 0) = 0" by (simp add: numeral_2_eq_2)
  ultimately show ?thesis
    by (simp add: from_be_def be64_def drop_to_be be_val_append be_val_to_be)
qed

lemma dtls_parses_u48: "dtls.parses read_u48 (drop 2 (be64 v)) (take_bit 48 v)"
  unfolding read_u48_def
  by (rule dtls.parses_bind_ret [OF dtls.parses_rd]) (simp_all only: from_be_drop2 length_drop length_be)

text \<open>Length-prefixed vectors are inverted when the prefix can hold the length.\<close>

lemma dtls_parses_vec_u8: "length v < 2 ^ 8 \<Longrightarrow> dtls.parses read_vec_u8 (put_vec_u8 v Writer_new) v"
  unfolding read_vec_u8_def wire_simps append_Nil
  by (rule dtls.parses_bind [OF dtls_parses_u8]) (simp add: dtls.parses_rd unat_of_nat)

lemma dtls_parses_vec_u16: "length v < 2 ^ 16 \<Longrightarrow> dtls.parses read_vec_u16 (put_vec_u16 v Writer_new) v"
  unfolding read_vec_u16_def wire_simps append_Nil
  by (rule dtls.parses_bind [OF dtls_parses_u16]) (simp add: dtls.parses_rd unat_of_nat)

lemma dtls_parses_vec_u24: "length v < 2 ^ 24 \<Longrightarrow> dtls.parses read_vec_u24 (put_vec_u24 v Writer_new) v"
  unfolding read_vec_u24_def wire_simps append_Nil
  by (rule dtls.parses_bind [OF dtls_parses_u24]) (simp_all add: dtls.parses_rd unat_of_nat)

end
