(* ===== verification/Dtls_Record.thy ===== *)
theory Dtls_Record
  imports Dtls_Wire
begin

unbundle bit_operations_syntax

text \<open>
  The DTLS 1.3 record layer of \<^verbatim>\<open>tpt-dtls/src/record.rs\<close>: the 13-byte record header, the split of
  a datagram into header, body and connection id, and the construction and opening of cleartext and
  protected records, with the cipher suites and AEAD wrappers of \<^verbatim>\<open>crypto.rs\<close>. The \<open>encrypt\<close> and
  \<open>decrypt\<close> functions of the third-party cipher crates are parameters of the operations that use
  them; what the code relies on is the predicate \<open>aead_correct\<close>.
\<close>

abbreviation CONTENT_CHANGE_CIPHER_SPEC :: u8 where "CONTENT_CHANGE_CIPHER_SPEC \<equiv> 20"
abbreviation CONTENT_ALERT :: u8 where "CONTENT_ALERT \<equiv> 21"
abbreviation CONTENT_HANDSHAKE :: u8 where "CONTENT_HANDSHAKE \<equiv> 22"
abbreviation CONTENT_APPLICATION_DATA :: u8 where "CONTENT_APPLICATION_DATA \<equiv> 23"
abbreviation CONTENT_ACK :: u8 where "CONTENT_ACK \<equiv> 26"

abbreviation DTLS_LEGACY_VERSION :: u16 where
  "DTLS_LEGACY_VERSION \<equiv> 0xfefd"

datatype ConnectionId = ConnectionId (cid_bytes: bytes)

abbreviation MAX_LEN :: nat where
  "MAX_LEN \<equiv> 255"

definition ConnectionId_new :: "bytes \<Rightarrow> DtlsError + ConnectionId" where
  "ConnectionId_new bs =
     (if length bs > MAX_LEN then Inl (HandshakeIncomplete ''cid too long'') else Inr (ConnectionId bs))"

record RecordHeader =
  content_type :: u8
  version :: u16
  epoch :: u16
  sequence :: u64
  hlength :: u16

definition SIZE :: nat where
  "SIZE = 13"

definition RecordHeader_encode :: "RecordHeader \<Rightarrow> Writer \<Rightarrow> Writer" where
  "RecordHeader_encode h w =
     put_u16 (hlength h) (put_u48 (sequence h) (put_u16 (epoch h)
       (put_u16 (version h) (put_u8 (content_type h) w))))"

definition header_fields :: "(Reader, DtlsError, RecordHeader) parser" where
  "header_fields =
     bindp read_u8 (\<lambda>ct. bindp read_u16 (\<lambda>v. bindp read_u16 (\<lambda>ep. bindp read_u48 (\<lambda>sq.
     bindp read_u16 (\<lambda>len.
       retp \<lparr>content_type = ct, version = v, epoch = ep, sequence = sq, hlength = len\<rparr>)))))"

definition RecordHeader_decode :: "bytes \<Rightarrow> DtlsError + (RecordHeader \<times> bytes)" where
  "RecordHeader_decode buf =
     (if length buf < SIZE then Inl (RecordLengthMismatch SIZE (length buf))
      else res_bind (header_fields (Reader_new (take SIZE buf))) (\<lambda>(h, _). Inr (h, drop SIZE buf)))"

definition split_datagram ::
    "bytes \<Rightarrow> nat \<Rightarrow> DtlsError + (RecordHeader \<times> bytes \<times> ConnectionId option)" where
  "split_datagram datagram recv_cid_len =
     res_bind (RecordHeader_decode datagram) (\<lambda>(header, rest).
       let body_len = unat (hlength header) in
       if length rest < body_len then Inl (RecordLengthMismatch body_len (length rest))
       else
         let body = take body_len rest; trailing = drop body_len rest in
         res_bind
           (if recv_cid_len > 0 \<and> length trailing \<ge> recv_cid_len
            then res_bind (ConnectionId_new (take recv_cid_len trailing)) (\<lambda>c. Inr (Some c))
            else if recv_cid_len > 0
            then res_bind (ConnectionId_new trailing) (\<lambda>c. Inr (Some c))
            else Inr None)
           (\<lambda>cid. Inr (header, body, cid)))"

definition build_cleartext :: "u8 \<Rightarrow> u16 \<Rightarrow> u64 \<Rightarrow> bytes \<Rightarrow> bytes" where
  "build_cleartext ct ep sq content =
     put_bytes content (RecordHeader_encode
       \<lparr>content_type = ct, version = DTLS_LEGACY_VERSION, epoch = ep, sequence = sq,
        hlength = word_of_nat (length content)\<rparr> Writer_new)"

datatype CipherSuite = TlsAes128GcmSha256 | TlsAes256GcmSha384 | TlsChacha20Poly1305Sha256

fun code :: "CipherSuite \<Rightarrow> u16" where
  "code TlsAes128GcmSha256 = 0x1301"
| "code TlsAes256GcmSha384 = 0x1302"
| "code TlsChacha20Poly1305Sha256 = 0x1303"

definition from_code :: "u16 \<Rightarrow> CipherSuite option" where
  "from_code c =
     (if c = 0x1301 then Some TlsAes128GcmSha256
      else if c = 0x1302 then Some TlsAes256GcmSha384
      else if c = 0x1303 then Some TlsChacha20Poly1305Sha256
      else None)"

fun key_len :: "CipherSuite \<Rightarrow> nat" where
  "key_len TlsAes128GcmSha256 = 16"
| "key_len TlsAes256GcmSha384 = 32"
| "key_len TlsChacha20Poly1305Sha256 = 32"

definition iv_len :: "CipherSuite \<Rightarrow> nat" where
  "iv_len suite = 12"

definition tag_len :: "CipherSuite \<Rightarrow> nat" where
  "tag_len suite = 16"

text \<open>The cipher crates: suite, key, nonce, additional data and input; \<open>None\<close> is their opaque error.
  Building a cipher from a key of the wrong length is the error \<open>InvalidLength\<close>.\<close>

type_synonym aead_fn = "CipherSuite \<Rightarrow> bytes \<Rightarrow> bytes \<Rightarrow> bytes \<Rightarrow> bytes \<Rightarrow> bytes option"

abbreviation crypto_err :: "string \<Rightarrow> DtlsError" where
  "crypto_err e \<equiv> HandshakeIncomplete e"

definition aead_seal :: "aead_fn \<Rightarrow> CipherSuite \<Rightarrow> bytes \<Rightarrow> bytes \<Rightarrow> bytes \<Rightarrow> bytes \<Rightarrow> DtlsError + bytes" where
  "aead_seal encrypt suite key nonce aad plaintext =
     (if length key \<noteq> key_len suite then Inl (crypto_err ''Invalid Length'')
      else ok_or (encrypt suite key nonce aad plaintext) DecryptFailed)"

definition aead_open :: "aead_fn \<Rightarrow> CipherSuite \<Rightarrow> bytes \<Rightarrow> bytes \<Rightarrow> bytes \<Rightarrow> bytes \<Rightarrow> DtlsError + bytes" where
  "aead_open decrypt suite key nonce aad ciphertext =
     (if length key \<noteq> key_len suite then Inl (crypto_err ''Invalid Length'')
      else ok_or (decrypt suite key nonce aad ciphertext) DecryptFailed)"

text \<open>The documented behaviour of the AEAD crates on inputs below the record size: encryption
  succeeds, adds a 16-byte tag, and decryption under the same key, nonce and data inverts it.\<close>

definition aead_correct :: "aead_fn \<Rightarrow> aead_fn \<Rightarrow> CipherSuite \<Rightarrow> bool" where
  "aead_correct encrypt decrypt suite \<longleftrightarrow>
     (\<forall>key nonce aad p. length key = key_len suite \<longrightarrow> length nonce = 12 \<longrightarrow> length p < 2 ^ 16 \<longrightarrow>
        (\<exists>c. encrypt suite key nonce aad p = Some c \<and> length c = length p + 16 \<and>
             decrypt suite key nonce aad c = Some p))"

definition build_aad :: "u8 \<Rightarrow> u16 \<Rightarrow> u64 \<Rightarrow> u16 \<Rightarrow> bytes" where
  "build_aad outer_type ep sq len =
     put_u16 len (put_u48 sq (put_u16 ep (put_u16 DTLS_LEGACY_VERSION (put_u8 outer_type Writer_new))))"

definition nonce_for :: "bytes \<Rightarrow> u64 \<Rightarrow> bytes" where
  "nonce_for iv sq = take 4 iv @ map2 (XOR) (take 8 (drop 4 iv)) (be64 sq)"

definition build_protected ::
    "aead_fn \<Rightarrow> CipherSuite \<Rightarrow> bytes \<Rightarrow> bytes \<Rightarrow> u16 \<Rightarrow> u64 \<Rightarrow> u8 \<Rightarrow> u8 \<Rightarrow> bytes \<Rightarrow>
      ConnectionId option \<Rightarrow> DtlsError + bytes" where
  "build_protected encrypt suite key iv ep sq outer_type inner_type content cid =
     (if sq > 0xFFFFFFFFFFFFFF then Inl (SequenceOverflow ep)
      else
        let plaintext = content @ [inner_type];
            nonce = nonce_for iv sq;
            len = word_of_nat (length plaintext + tag_len suite);
            aad = build_aad outer_type ep sq len
        in res_bind (aead_seal encrypt suite key nonce aad plaintext) (\<lambda>ct.
          let w = put_bytes ct (RecordHeader_encode
                    \<lparr>content_type = outer_type, version = DTLS_LEGACY_VERSION, epoch = ep,
                     sequence = sq, hlength = len\<rparr> Writer_new)
          in Inr (case cid of None \<Rightarrow> w | Some c \<Rightarrow> put_bytes (cid_bytes c) w)))"

definition open_protected ::
    "aead_fn \<Rightarrow> CipherSuite \<Rightarrow> bytes \<Rightarrow> bytes \<Rightarrow> RecordHeader \<Rightarrow> bytes \<Rightarrow> ConnectionId option \<Rightarrow>
      DtlsError + (u8 \<times> bytes)" where
  "open_protected decrypt suite key iv header aead_output cid =
     (let nonce = nonce_for iv (sequence header);
          aad = build_aad (content_type header) (epoch header) (sequence header)
                  (word_of_nat (length aead_output))
      in res_bind (aead_open decrypt suite key nonce aad aead_output) (\<lambda>plaintext.
        if plaintext = [] then Inl DecryptFailed
        else Inr (last plaintext, butlast plaintext)))"

section \<open>The header round trip\<close>

lemma header_bytes:
  "RecordHeader_encode h w = w @ content_type h # be16 (version h) @ be16 (epoch h)
     @ drop 2 (be64 (sequence h)) @ be16 (hlength h)"
  by (simp add: RecordHeader_encode_def wire_simps)

lemma length_header [simp]: "length (RecordHeader_encode h w) = length w + SIZE"
  by (simp add: header_bytes SIZE_def)

lemma dtls_parses_header:
  "dtls.parses header_fields (RecordHeader_encode h Writer_new) (h\<lparr>sequence := take_bit 48 (sequence h)\<rparr>)"
proof -
  have "dtls.parses header_fields ([content_type h] @ be16 (version h) @ be16 (epoch h)
     @ drop 2 (be64 (sequence h)) @ be16 (hlength h)) (h\<lparr>sequence := take_bit 48 (sequence h)\<rparr>)"
    unfolding header_fields_def
    by (rule dtls.parses_bind_ret dtls.parses_bind dtls_parses_u48 parse_intros)+ simp
  then show ?thesis by (simp add: header_bytes Writer_new_def)
qed

lemma decode_header_append:
  "RecordHeader_decode (RecordHeader_encode h Writer_new @ rest) =
     Inr (h\<lparr>sequence := take_bit 48 (sequence h)\<rparr>, rest)"
proof -
  have "length (RecordHeader_encode h Writer_new) = SIZE" by (simp add: Writer_new_def)
  moreover have "header_fields (Reader_new (RecordHeader_encode h Writer_new)) =
      Inr (h\<lparr>sequence := take_bit 48 (sequence h)\<rparr>, reader_adv SIZE (Reader_new (RecordHeader_encode h Writer_new)))"
    using dtls.parsesD [OF dtls_parses_header, of _ h "[]"] calculation by simp
  ultimately show ?thesis by (simp add: RecordHeader_decode_def)
qed

section \<open>Whole records\<close>

text \<open>The number of connection-id bytes a receiver expects from a sender that appends \<open>cid\<close>.\<close>

fun cid_len :: "ConnectionId option \<Rightarrow> nat" where
  "cid_len None = 0"
| "cid_len (Some c) = length (cid_bytes c)"

fun cid_wf :: "ConnectionId option \<Rightarrow> bool" where
  "cid_wf None = True"
| "cid_wf (Some c) = (0 < length (cid_bytes c) \<and> length (cid_bytes c) \<le> MAX_LEN)"

lemma split_datagram_record:
  assumes "unat (hlength h) = length body" and "cid_wf cid"
  shows "split_datagram (RecordHeader_encode h Writer_new @ body
      @ (case cid of None \<Rightarrow> [] | Some c \<Rightarrow> cid_bytes c)) (cid_len cid) =
    Inr (h\<lparr>sequence := take_bit 48 (sequence h)\<rparr>, body, cid)"
  using assms
  by (cases cid) (simp_all add: split_datagram_def decode_header_append ConnectionId_new_def Let_def)

lemma length_nonce [simp]: "length iv = 12 \<Longrightarrow> length (nonce_for iv sq) = 12"
  by (simp add: nonce_for_def)

lemma map2_xor_inj:
  fixes xs :: "'a::len word list"
  shows "length ys = length xs \<Longrightarrow> length zs = length xs \<Longrightarrow> map2 (XOR) xs ys = map2 (XOR) xs zs \<Longrightarrow> ys = zs"
proof (induction xs arbitrary: ys zs)
  case (Cons x xs)
  then obtain y ys' z zs' where "ys = y # ys'" "zs = z # zs'" by (metis length_Suc_conv)
  moreover have "y = z" if "x XOR y = x XOR z"
    using that by (metis xor.left_commute xor_self_eq xor.right_neutral)
  ultimately show ?case using Cons by auto
qed simp

lemma nonce_for_inj: "length iv = 12 \<Longrightarrow> nonce_for iv a = nonce_for iv b \<Longrightarrow> a = b"
  using map2_xor_inj [of "be64 a" "take 8 (drop 4 iv)" "be64 b"]
  by (auto simp: nonce_for_def dest: arg_cong [of _ _ "from_be :: bytes \<Rightarrow> u64"])

lemma build_protected_sealed:
  assumes "aead_correct encrypt decrypt suite" and "length key = key_len suite" and "length iv = 12"
    and "sq \<le> 0xFFFFFFFFFFFFFF" and "length content + 17 < 2 ^ 16"
  obtains c where "length c = length content + 17"
    and "decrypt suite key (nonce_for iv sq) (build_aad outer ep sq (word_of_nat (length c))) c
         = Some (content @ [inner])"
    and "build_protected encrypt suite key iv ep sq outer inner content cid =
         Inr (RecordHeader_encode \<lparr>content_type = outer, version = DTLS_LEGACY_VERSION, epoch = ep,
                sequence = sq, hlength = word_of_nat (length c)\<rparr> Writer_new @ c
              @ (case cid of None \<Rightarrow> [] | Some c \<Rightarrow> cid_bytes c))"
proof -
  let ?p = "content @ [inner]" and ?n = "nonce_for iv sq"
  let ?aad = "build_aad outer ep sq (word_of_nat (length ?p + 16))"
  obtain c where c: "encrypt suite key ?n ?aad ?p = Some c" "length c = length ?p + 16"
      "decrypt suite key ?n ?aad c = Some ?p"
    using assms(1) [unfolded aead_correct_def, rule_format, OF assms(2) length_nonce [OF assms(3)], of ?p sq ?aad]
      assms(5) by auto
  show ?thesis
  proof (rule that [of c])
    show "length c = length content + 17" using c(2) by simp
    show "decrypt suite key ?n (build_aad outer ep sq (word_of_nat (length c))) c = Some ?p"
      using c(3) unfolding c(2) .
    have "\<not> sq > 0xFFFFFFFFFFFFFF" using assms(4) by simp
    then show "build_protected encrypt suite key iv ep sq outer inner content cid =
         Inr (RecordHeader_encode \<lparr>content_type = outer, version = DTLS_LEGACY_VERSION, epoch = ep,
                sequence = sq, hlength = word_of_nat (length c)\<rparr> Writer_new @ c
              @ (case cid of None \<Rightarrow> [] | Some c \<Rightarrow> cid_bytes c))"
      unfolding c(2) using c(1) assms(2)
      by (simp add: build_protected_def aead_seal_def tag_len_def put_bytes_def Let_def split: option.split)
  qed
qed

text \<open>An instance of the cipher contract: append a constant tag, and check it.\<close>

definition tag_encrypt :: aead_fn where
  "tag_encrypt suite key nonce aad p = Some (p @ replicate 16 0)"

definition tag_decrypt :: aead_fn where
  "tag_decrypt suite key nonce aad c =
     (if 16 \<le> length c \<and> drop (length c - 16) c = replicate 16 0 then Some (take (length c - 16) c) else None)"

lemma aead_correct_tag: "aead_correct tag_encrypt tag_decrypt suite"
  by (simp add: aead_correct_def tag_encrypt_def tag_decrypt_def)

section \<open>Properties\<close>

text \<open>C11: A protected record can be opened by its receiver: for sequence numbers of 48 bits, the
  datagram built by \<open>build_protected\<close> is split into the same connection id and a body that
  \<open>open_protected\<close> turns back into the inner type and the content.\<close>

theorem protected_record_round_trip:
  assumes "aead_correct encrypt decrypt suite" and "length key = key_len suite" and "length iv = 12"
    and "unat sq < 2 ^ 48" and "length content + 17 < 2 ^ 16" and "cid_wf cid"
  shows "\<exists>d h body. build_protected encrypt suite key iv ep sq outer inner content cid = Inr d \<and>
    split_datagram d (cid_len cid) = Inr (h, body, cid) \<and> epoch h = ep \<and> sequence h = sq \<and>
    open_protected decrypt suite key iv h body cid = Inr (inner, content)"
proof -
  have "sq \<le> 0xFFFFFFFFFFFFFF"
    using assms(4) by (simp add: word_le_nat_alt)
  then obtain c where c: "length c = length content + 17"
      "decrypt suite key (nonce_for iv sq) (build_aad outer ep sq (word_of_nat (length c))) c = Some (content @ [inner])"
      "build_protected encrypt suite key iv ep sq outer inner content cid =
         Inr (RecordHeader_encode \<lparr>content_type = outer, version = DTLS_LEGACY_VERSION, epoch = ep,
                sequence = sq, hlength = word_of_nat (length c)\<rparr> Writer_new @ c
              @ (case cid of None \<Rightarrow> [] | Some c \<Rightarrow> cid_bytes c))"
    by (rule build_protected_sealed [OF assms(1-3) _ assms(5)])
  let ?h = "\<lparr>content_type = outer, version = DTLS_LEGACY_VERSION, epoch = ep, sequence = sq,
              hlength = word_of_nat (length c)\<rparr>"
  have "length c < 2 ^ 16" using c(1) assms(5) by simp
  then have "unat (hlength ?h) = length c" by (simp add: unat_of_nat)
  note split = split_datagram_record [OF this assms(6)]
  have "open_protected decrypt suite key iv ?h c cid = Inr (inner, content)"
    using c(2) assms(2) by (simp add: open_protected_def aead_open_def)
  with c(3) split show ?thesis by (simp add: take_bit_small [OF assms(4)])
qed

theorem protected_record_round_trip_witness:
  "\<exists>d h body. build_protected tag_encrypt TlsAes128GcmSha256 (replicate 16 1) (replicate 12 7) 2 5
      CONTENT_APPLICATION_DATA CONTENT_ALERT [1, 2] (Some (ConnectionId [9])) = Inr d \<and>
    split_datagram d 1 = Inr (h, body, Some (ConnectionId [9])) \<and> epoch h = 2 \<and> sequence h = 5 \<and>
    open_protected tag_decrypt TlsAes128GcmSha256 (replicate 16 1) (replicate 12 7) h body
      (Some (ConnectionId [9])) = Inr (CONTENT_ALERT, [1, 2])"
  using protected_record_round_trip [OF aead_correct_tag, of "replicate 16 1" TlsAes128GcmSha256
      "replicate 12 7" 5 "[1, 2]" "Some (ConnectionId [9])" 2 CONTENT_APPLICATION_DATA CONTENT_ALERT]
  by simp

text \<open>C24: Under one IV, two different sequence numbers never share an AEAD nonce.\<close>

theorem nonce_unique:
  assumes "length iv = 12"
  shows "nonce_for iv a = nonce_for iv b \<longleftrightarrow> a = b"
  using nonce_for_inj [OF assms] by auto

theorem nonce_unique_witness: "nonce_for (replicate 12 7) 1 \<noteq> nonce_for (replicate 12 7) 2"
  using nonce_unique [of "replicate 12 7" 1 2] by simp

text \<open>Sequence numbers from \<open>2 ^ 48\<close> to \<open>2 ^ 56 - 1\<close> pass the overflow guard of
  \<open>build_protected\<close>, but the header keeps only 48 bits: the receiver derives a different nonce than
  the one the record was sealed with.\<close>

theorem protected_record_sequence_gap:
  assumes "aead_correct encrypt decrypt suite" and "length key = key_len suite" and "length iv = 12"
    and "2 ^ 48 \<le> unat sq" and "sq \<le> 0xFFFFFFFFFFFFFF" and "length content + 17 < 2 ^ 16" and "cid_wf cid"
  shows "\<exists>d h body. build_protected encrypt suite key iv ep sq outer inner content cid = Inr d \<and>
    split_datagram d (cid_len cid) = Inr (h, body, cid) \<and> nonce_for iv (sequence h) \<noteq> nonce_for iv sq"
proof -
  obtain c where c: "length c = length content + 17"
      "build_protected encrypt suite key iv ep sq outer inner content cid =
         Inr (RecordHeader_encode \<lparr>content_type = outer, version = DTLS_LEGACY_VERSION, epoch = ep,
                sequence = sq, hlength = word_of_nat (length c)\<rparr> Writer_new @ c
              @ (case cid of None \<Rightarrow> [] | Some c \<Rightarrow> cid_bytes c))"
    by (rule build_protected_sealed [OF assms(1-3,5,6)])
  let ?h = "\<lparr>content_type = outer, version = DTLS_LEGACY_VERSION, epoch = ep, sequence = sq,
              hlength = word_of_nat (length c)\<rparr>"
  have "length c < 2 ^ 16" using c(1) assms(6) by simp
  then have "unat (hlength ?h) = length c" by (simp add: unat_of_nat)
  note split = split_datagram_record [OF this assms(7)]
  have "unat (take_bit 48 sq) < 2 ^ 48" by (simp only: unat_take_bit_mod) simp
  with assms(4) have "take_bit 48 sq \<noteq> sq" by auto
  with nonce_for_inj [OF assms(3)] have "nonce_for iv (take_bit 48 sq) \<noteq> nonce_for iv sq" by blast
  with c(2) split show ?thesis by simp
qed

theorem protected_record_sequence_gap_witness:
  "\<exists>d h body. build_protected tag_encrypt TlsAes128GcmSha256 (replicate 16 1) (replicate 12 7) 2 (2 ^ 48 + 3)
      CONTENT_APPLICATION_DATA CONTENT_ALERT [1, 2] None = Inr d \<and>
    split_datagram d 0 = Inr (h, body, None) \<and>
    nonce_for (replicate 12 7) (sequence h) \<noteq> nonce_for (replicate 12 7) (2 ^ 48 + 3)"
  using protected_record_sequence_gap [OF aead_correct_tag, of "replicate 16 1" TlsAes128GcmSha256
      "replicate 12 7" "2 ^ 48 + 3" "[1, 2]" None 2 CONTENT_APPLICATION_DATA CONTENT_ALERT]
  by simp

end
