(* ===== verification/Anti_Replay.thy ===== *)
theory Anti_Replay
  imports Prelude
begin

text \<open>
  The contract of an anti-replay check, provided by the record window of \<^verbatim>\<open>tpt-dtls\<close>: a stateful
  test that is asked about one number at a time. A client that feeds any sequence of numbers to a filter with these laws never
  accepts a number twice.
\<close>

fun run_filter :: "('s \<Rightarrow> 'w \<Rightarrow> bool \<times> 'w) \<Rightarrow> 's list \<Rightarrow> 'w \<Rightarrow> 's list \<times> 'w" where
  "run_filter chk [] w = ([], w)"
| "run_filter chk (s # ss) w =
     (let (ok, w1) = chk s w; (acc, w2) = run_filter chk ss w1
      in ((if ok then s # acc else acc), w2))"

lemma run_filter_append:
  "run_filter chk (ss @ ts) w =
     (let (a, w1) = run_filter chk ss w; (b, w2) = run_filter chk ts w1 in (a @ b, w2))"
  by (induction ss arbitrary: w) (simp_all add: Let_def split_beta)

lemma run_filter_snoc:
  "run_filter chk (ss @ [s]) w =
     (let (a, w1) = run_filter chk ss w; (ok, w2) = chk s w1
      in (a @ (if ok then [s] else []), w2))"
  by (simp add: run_filter_append Let_def split_beta)

locale replay_filter =
  fixes chk :: "'s \<Rightarrow> 'w \<Rightarrow> bool \<times> 'w"
    and inv :: "'w \<Rightarrow> bool"
    and blocked :: "'w \<Rightarrow> 's set"
  assumes inv_chk: "inv w \<Longrightarrow> inv (snd (chk s w))"
    and blocked_mono: "inv w \<Longrightarrow> blocked w \<subseteq> blocked (snd (chk s w))"
    and accept_fresh: "inv w \<Longrightarrow> fst (chk s w) \<Longrightarrow> s \<notin> blocked w"
    and accept_blocks: "inv w \<Longrightarrow> fst (chk s w) \<Longrightarrow> s \<in> blocked (snd (chk s w))"
begin

lemma run_inv: "inv w \<Longrightarrow> inv (snd (run_filter chk ss w))"
  by (induction ss arbitrary: w) (auto simp: split_beta Let_def dest: inv_chk)

lemma run_blocked: "inv w \<Longrightarrow> blocked w \<subseteq> blocked (snd (run_filter chk ss w))"
proof (induction ss arbitrary: w)
  case (Cons s ss)
  then show ?case
    using blocked_mono [of w s] Cons.IH [OF inv_chk [OF Cons.prems, of s]]
    by (auto simp: split_beta Let_def)
qed simp

lemma run_fresh: "inv w \<Longrightarrow> set (fst (run_filter chk ss w)) \<inter> blocked w = {}"
proof (induction ss arbitrary: w)
  case (Cons s ss)
  then show ?case
    using blocked_mono [of w s] accept_fresh [of w s] Cons.IH [OF inv_chk [OF Cons.prems, of s]]
    by (auto simp: split_beta Let_def)
qed simp

lemma run_distinct: "inv w \<Longrightarrow> distinct (fst (run_filter chk ss w))"
proof (induction ss arbitrary: w)
  case (Cons s ss)
  then show ?case
    using accept_blocks [of w s] run_fresh [OF inv_chk [OF Cons.prems, of s], of ss] inv_chk [of w s]
    by (auto simp: split_beta Let_def)
qed simp

end

end
