(* ===== verification/Dtls_Replay.thy ===== *)
theory Dtls_Replay
  imports Dtls_Wire Anti_Replay
begin

unbundle bit_operations_syntax

text \<open>
  The anti-replay window of \<^verbatim>\<open>tpt-dtls/src/replay.rs\<close>. The bitmap is a list of 64-bit words that
  is shifted in place; the abstract view is the set of accepted sequence numbers that are still
  inside the window. The contract a record layer relies on is the locale \<open>replay_filter\<close>.
  Sequence numbers and the window base are naturals: \<open>check\<close> refuses sequence numbers above
  \<open>2 ^ 56 - 1\<close>, so with a window below \<open>2 ^ 63\<close> no 64-bit operation of the source overflows
  (lemma \<open>check_no_overflow\<close>).
\<close>

section \<open>The model\<close>

record ReplayWindow =
  window :: nat
  base :: nat
  words :: "u64 list"

definition next_multiple_of :: "nat \<Rightarrow> nat \<Rightarrow> nat" where
  "next_multiple_of m n = (if n mod m = 0 then n else n + (m - n mod m))"

definition ReplayWindow_new :: "nat \<Rightarrow> ReplayWindow" where
  "ReplayWindow_new w0 =
     (let w = next_multiple_of 64 (max w0 64)
      in \<lparr>window = w, base = 0, words = replicate (w div 64) 0\<rparr>)"

abbreviation window_size :: "ReplayWindow \<Rightarrow> nat" where
  "window_size w \<equiv> window w"

text \<open>The loops of \<open>window_slide\<close> assign \<open>self.words[i]\<close> for increasing \<open>i\<close>.\<close>

definition window_slide :: "nat \<Rightarrow> u64 list \<Rightarrow> u64 list" where
  "window_slide n ws =
     (if n = 0 then ws
      else
        let word_shift = n div 64; bit_shift = n mod 64; len = length ws in
        if word_shift \<ge> len then map (\<lambda>_. 0) ws
        else
          let shifted =
            (if bit_shift = 0
             then foldl (\<lambda>ws i. ws[i := ws ! (i + word_shift)]) ws [0..<len - word_shift]
             else
               let ws1 = foldl (\<lambda>ws i. ws[i := drop_bit bit_shift (ws ! (i + word_shift))
                                 OR push_bit (64 - bit_shift) (ws ! (i + word_shift + 1))])
                           ws [0..<len - word_shift - 1]
               in ws1[len - word_shift - 1 := drop_bit bit_shift (ws1 ! (len - 1))])
          in take (len - word_shift) shifted @ map (\<lambda>_. 0) (drop (len - word_shift) shifted))"

definition check :: "nat \<Rightarrow> ReplayWindow \<Rightarrow> (DtlsError + bool) \<times> ReplayWindow" where
  "check seq w =
     (if seq > 0xFFFFFFFFFFFFFF then (Inl (SequenceOverflow 0), w)
      else if seq < base w then (Inr False, w)
      else
        let top = base w + window w;
            w1 = (if seq \<ge> top
                  then let new_base = seq + 1 - window w;
                           shift = min (new_base - base w) (window w)
                       in w\<lparr>words := window_slide shift (words w), base := new_base\<rparr>
                  else w);
            bt = seq - base w1;
            word = bt div 64;
            mask = push_bit (bt mod 64) 1
        in if words w1 ! word AND mask \<noteq> 0 then (Inr False, w1)
           else (Inr True, w1\<lparr>words := (words w1)[word := words w1 ! word OR mask]\<rparr>))"

section \<open>Bitmaps as sets\<close>

definition bitset :: "u64 list \<Rightarrow> nat set" where
  "bitset ws = {i. i div 64 < length ws \<and> bit (ws ! (i div 64)) (i mod 64)}"

lemma bitset_zero [simp]: "bitset (replicate n 0) = {}" "bitset (map (\<lambda>_. 0) xs) = {}"
  by (auto simp: bitset_def)

lemma bitset_insert:
  assumes "i div 64 < length ws"
  shows "bitset (ws[i div 64 := ws ! (i div 64) OR push_bit (i mod 64) 1]) = insert i (bitset ws)"
proof -
  have eq: "j = i" if "j div 64 = i div 64" "j mod 64 = i mod 64" for j :: nat
    using that by (metis div_mult_mod_eq)
  show ?thesis
    using assms by (auto simp: bitset_def nth_list_update bit_simps intro: eq split: if_splits)
qed

section \<open>The in-place shift\<close>

lemma inplace_loop:
  assumes "\<And>ws' i. i < m \<Longrightarrow> length ws' = length ws \<Longrightarrow> (\<And>j. i \<le> j \<Longrightarrow> j < length ws \<Longrightarrow> ws' ! j = ws ! j) \<Longrightarrow> g ws' i = g ws i"
    and "m \<le> length ws"
  shows "length (foldl (\<lambda>ws i. ws[i := g ws i]) ws [0..<m]) = length ws \<and>
    (\<forall>j < length ws. foldl (\<lambda>ws i. ws[i := g ws i]) ws [0..<m] ! j = (if j < m then g ws j else ws ! j))"
  using assms
proof (induction m)
  case 0
  then show ?case by simp
next
  case (Suc m)
  let ?f = "foldl (\<lambda>ws i. ws[i := g ws i]) ws [0..<m]"
  have "length ?f = length ws \<and> (\<forall>j < length ws. ?f ! j = (if j < m then g ws j else ws ! j))"
  proof (rule Suc.IH)
    show "m \<le> length ws" using Suc.prems(2) by simp
  next
    fix ws' i
    assume "i < m" "length ws' = length ws" "\<And>j. i \<le> j \<Longrightarrow> j < length ws \<Longrightarrow> ws' ! j = ws ! j"
    then show "g ws' i = g ws i" by (intro Suc.prems(1)) simp_all
  qed
  then have IH: "length ?f = length ws" "\<And>j. j < length ws \<Longrightarrow> ?f ! j = (if j < m then g ws j else ws ! j)"
    by blast+
  have "g ?f m = g ws m"
    by (rule Suc.prems(1)) (simp_all add: IH)
  then show ?case
    using IH Suc.prems(2) by (auto simp: nth_list_update less_Suc_eq)
qed

lemma length_window_slide [simp]: "length (window_slide n ws) = length ws"
proof -
  have len: "length (foldl (\<lambda>ws i. ws[i := g ws i]) xs is) = length xs" for g and xs :: "u64 list" and "is" :: "nat list"
    by (induction "is" arbitrary: xs) simp_all
  show ?thesis
    by (auto simp: window_slide_def Let_def len)
qed

text \<open>The reference description of the shift: word \<open>i\<close> of the result in terms of the old words.\<close>

definition slid_word :: "nat \<Rightarrow> u64 list \<Rightarrow> nat \<Rightarrow> u64" where
  "slid_word n ws i =
    (let q = n div 64; r = n mod 64 in
     if length ws \<le> i + q then 0
     else if r = 0 then ws ! (i + q)
     else if i + q + 1 < length ws then drop_bit r (ws ! (i + q)) OR push_bit (64 - r) (ws ! (i + q + 1))
     else drop_bit r (ws ! (i + q)))"

lemma window_slide_words:
  assumes "n mod 64 = 0" and "0 < n" and "n div 64 < length ws" and "i < length ws"
  shows "window_slide n ws ! i = slid_word n ws i"
proof -
  define q where "q = n div 64"
  let ?A = "foldl (\<lambda>ws i. ws[i := ws ! (i + q)]) ws [0..<length ws - q]"
  have A: "length ?A = length ws \<and> (\<forall>j < length ws. ?A ! j = (if j < length ws - q then ws ! (j + q) else ws ! j))"
    by (rule inplace_loop) auto
  have "window_slide n ws = take (length ws - q) ?A @ map (\<lambda>_. 0) (drop (length ws - q) ?A)"
    using assms by (simp add: window_slide_def Let_def q_def)
  then show ?thesis
    using A assms by (simp add: slid_word_def Let_def nth_append less_diff_conv q_def [symmetric])
qed

lemma window_slide_bits:
  assumes "n mod 64 \<noteq> 0" and "n div 64 < length ws" and "i < length ws"
  shows "window_slide n ws ! i = slid_word n ws i"
proof -
  define q r where "q = n div 64" and "r = n mod 64"
  define mix where "mix xs k = (drop_bit r (xs ! (k + q)) OR push_bit (64 - r) (xs ! (k + q + 1)) :: u64)"
    for xs :: "u64 list" and k
  define B where "B = foldl (\<lambda>ws i. ws[i := mix ws i]) ws [0..<length ws - q - 1]"
  have q: "q < length ws" and n: "n \<noteq> 0"
    using assms by (auto simp: q_def)
  have "length B = length ws \<and> (\<forall>j < length ws. B ! j = (if j < length ws - q - 1 then mix ws j else ws ! j))"
    unfolding B_def by (rule inplace_loop) (auto simp: mix_def)
  then have lenB: "length B = length ws"
    and nthB: "\<And>j. j < length ws \<Longrightarrow> B ! j = (if j < length ws - q - 1 then mix ws j else ws ! j)"
    by blast+
  have slide: "window_slide n ws =
      (let ws2 = B[length ws - q - 1 := drop_bit r (B ! (length ws - 1))]
       in take (length ws - q) ws2 @ map (\<lambda>_. 0) (drop (length ws - q) ws2))"
    using assms q n by (simp add: window_slide_def Let_def q_def r_def B_def mix_def)
  have "length ws - 1 < length ws" and "\<not> length ws - 1 < length ws - q - 1"
    using q by linarith+
  then have last: "B ! (length ws - 1) = ws ! (length ws - 1)"
    by (simp only: nthB if_False)
  note simps = slide slid_word_def Let_def nth_append lenB q_def [symmetric] r_def [symmetric]
  consider "length ws \<le> i + q" | "i + q + 1 < length ws" | "i + q + 1 = length ws" by linarith
  then show ?thesis
  proof cases
    case 1
    then have "\<not> i < length ws - q" by linarith
    then show ?thesis using 1 q assms(3) by (simp add: simps)
  next
    case 2
    then have "i < length ws - q - 1" and "i < length ws - q" and "i \<noteq> length ws - q - 1" by linarith+
    then show ?thesis using 2 nthB [of i] assms by (simp add: simps mix_def)
  next
    case 3
    then have "length ws - q - 1 = i" and "length ws - 1 = i + q" and "length ws - q = Suc i" by linarith+
    then show ?thesis using 3 assms last by (simp add: simps)
  qed
qed

lemma window_slide_nth:
  assumes "0 < n" and "i < length ws"
  shows "window_slide n ws ! i = slid_word n ws i"
proof (cases "length ws \<le> n div 64")
  case True
  then show ?thesis using assms by (simp add: window_slide_def slid_word_def Let_def)
next
  case False
  then show ?thesis
    using assms window_slide_words window_slide_bits by (cases "n mod 64 = 0") auto
qed

lemma bit_slid_word:
  assumes "b < 64"
  shows "bit (slid_word n ws i) b \<longleftrightarrow>
    (i + n div 64 + (b + n mod 64) div 64 < length ws \<and>
     bit (ws ! (i + n div 64 + (b + n mod 64) div 64)) ((b + n mod 64) mod 64))"
proof -
  define q r where "q = n div 64" and "r = n mod 64"
  have "r < 64" by (simp add: r_def)
  show ?thesis
  proof (cases "b + r < 64")
    case True
    then have "\<not> 64 - r \<le> b" by linarith
    with True show ?thesis
      using assms by (auto simp: slid_word_def Let_def q_def [symmetric] r_def [symmetric] bit_simps add.commute)
  next
    case False
    then have *: "(b + r) div 64 = 1" "(b + r) mod 64 = b - (64 - r)" "r \<noteq> 0" "64 - r \<le> b"
      using assms \<open>r < 64\<close> by (auto simp: mod_if div_if)
    have "\<not> bit w (r + b)" for w :: u64
      using False by (auto dest: bit_imp_le_length)
    with * show ?thesis
      using assms by (auto simp: slid_word_def Let_def q_def [symmetric] r_def [symmetric] bit_simps)
  qed
qed

lemma bitset_window_slide: "i \<in> bitset (window_slide n ws) \<longleftrightarrow> i + n \<in> bitset ws"
proof (cases "n = 0")
  case True
  then show ?thesis by (simp add: window_slide_def)
next
  case False
  have d: "(i + n) div 64 = i div 64 + n div 64 + (i mod 64 + n mod 64) div 64"
    by (rule div_add1_eq)
  have m: "(i + n) mod 64 = (i mod 64 + n mod 64) mod 64"
    by (simp add: mod_add_eq)
  show ?thesis
  proof (cases "i div 64 < length ws")
    case True
    with False show ?thesis
      unfolding bitset_def mem_Collect_eq d m
      by (simp add: window_slide_nth bit_slid_word)
  next
    case False
    then show ?thesis
      unfolding bitset_def mem_Collect_eq d m by simp
  qed
qed

section \<open>Invariant and abstract specification\<close>

definition rw_inv :: "ReplayWindow \<Rightarrow> bool" where
  "rw_inv w \<longleftrightarrow> 0 < length (words w) \<and> window w = 64 * length (words w) \<and> base w \<le> 2 ^ 56"

definition accepted :: "ReplayWindow \<Rightarrow> nat set" where
  "accepted w = {s. base w \<le> s \<and> s - base w \<in> bitset (words w)}"

text \<open>The specification: a floor below which everything is refused, and the set of numbers seen.\<close>

definition check_spec :: "nat \<Rightarrow> nat \<Rightarrow> nat \<times> nat set \<Rightarrow> (DtlsError + bool) \<times> (nat \<times> nat set)" where
  "check_spec W seq = (\<lambda>(b, S).
     if seq > 0xFFFFFFFFFFFFFF then (Inl (SequenceOverflow 0), (b, S))
     else if seq < b \<or> seq \<in> S then (Inr False, (b, S))
     else let b' = max b (seq + 1 - W) in (Inr True, (b', insert seq {s \<in> S. b' \<le> s})))"

definition rw_abs :: "ReplayWindow \<Rightarrow> nat \<times> nat set" where
  "rw_abs w = (base w, accepted w)"

lemma bitset_bound: "i \<in> bitset ws \<Longrightarrow> i < 64 * length ws"
  by (auto simp: bitset_def)

lemma accepted_bound: "rw_inv w \<Longrightarrow> s \<in> accepted w \<Longrightarrow> s < base w + window w"
  by (auto simp: accepted_def rw_inv_def dest: bitset_bound)

lemma mask_bit: "words w ! (i div 64) AND 2 ^ (i mod 64) = 0 \<longleftrightarrow> i \<notin> bitset (words w)"
  if "i div 64 < length (words w)" for i
  using that by (simp add: and_exp_eq_0_iff_not_bit bitset_def)

lemma next_multiple_of_64: "64 * (next_multiple_of 64 n div 64) = next_multiple_of 64 n" "n \<le> next_multiple_of 64 n"
proof -
  have "(n + (64 - n mod 64)) mod 64 = 0" by presburger
  then show "64 * (next_multiple_of 64 n div 64) = next_multiple_of 64 n"
    by (auto simp: next_multiple_of_def)
  show "n \<le> next_multiple_of 64 n"
    unfolding next_multiple_of_def by (cases "n mod 64 = 0") (simp_all only: simp_thms if_True if_False le_add1 order_refl)
qed

lemma rw_inv_new: "rw_inv (ReplayWindow_new n)"
  using next_multiple_of_64 [of "max n 64"]
  by (simp add: rw_inv_def ReplayWindow_new_def Let_def)

lemma rw_abs_new: "rw_abs (ReplayWindow_new n) = (0, {})"
  by (simp add: rw_abs_def accepted_def ReplayWindow_new_def Let_def)

text \<open>The window before the final bit test: slid forward when the number lies beyond the top.\<close>

definition slid :: "nat \<Rightarrow> ReplayWindow \<Rightarrow> ReplayWindow" where
  "slid seq w = (if seq \<ge> base w + window w
     then w\<lparr>words := window_slide (min (seq + 1 - window w - base w) (window w)) (words w),
            base := seq + 1 - window w\<rparr>
     else w)"

lemma check_slid:
  "check seq w =
     (if seq > 0xFFFFFFFFFFFFFF then (Inl (SequenceOverflow 0), w)
      else if seq < base w then (Inr False, w)
      else
        let w1 = slid seq w; bt = seq - base w1; mask = push_bit (bt mod 64) 1
        in if words w1 ! (bt div 64) AND mask \<noteq> 0 then (Inr False, w1)
           else (Inr True, w1\<lparr>words := (words w1)[bt div 64 := words w1 ! (bt div 64) OR mask]\<rparr>))"
  by (simp add: check_def slid_def Let_def)

lemma slid_simps:
  assumes "rw_inv w" and "base w \<le> seq" and "seq \<le> 0xFFFFFFFFFFFFFF"
  shows "rw_inv (slid seq w)" and "window (slid seq w) = window w"
    and "base (slid seq w) = max (base w) (seq + 1 - window w)"
    and "accepted (slid seq w) = {s \<in> accepted w. base (slid seq w) \<le> s}"
    and "(seq - base (slid seq w)) div 64 < length (words (slid seq w))"
proof -
  have "seq + 1 \<le> 2 ^ 56" using assms(3) by simp
  then have "seq + 1 - window w \<le> 2 ^ 56" by (rule order_trans [OF diff_le_self])
  then show "rw_inv (slid seq w)"
    using assms(1) unfolding rw_inv_def slid_def by (cases "base w + window w \<le> seq") simp_all
  show "window (slid seq w) = window w" by (simp add: slid_def)
  show "base (slid seq w) = max (base w) (seq + 1 - window w)"
    by (simp add: slid_def)
  show "(seq - base (slid seq w)) div 64 < length (words (slid seq w))"
    using assms by (cases "words w") (auto simp: slid_def rw_inv_def div_less_iff_less_mult)
  show "accepted (slid seq w) = {s \<in> accepted w. base (slid seq w) \<le> s}"
  proof (cases "seq \<ge> base w + window w")
    case False
    then show ?thesis by (auto simp: slid_def accepted_def)
  next
    case True
    define nb where "nb = seq + 1 - window w"
    define sh where "sh = min (nb - base w) (window w)"
    have sl: "slid seq w = w\<lparr>words := window_slide sh (words w), base := nb\<rparr>"
      using True by (simp add: slid_def nb_def sh_def)
    have bn: "base w \<le> nb" using True by (simp add: nb_def)
    have "s - nb + sh \<in> bitset (words w) \<longleftrightarrow> s - base w \<in> bitset (words w)" if "nb \<le> s" for s
    proof (cases "nb - base w \<le> window w")
      case True
      with that bn have "s - nb + sh = s - base w" by (simp add: sh_def)
      then show ?thesis by simp
    next
      case False
      then have "sh = window w" by (simp add: sh_def)
      moreover have "\<not> s - base w < window w" using False that by simp
      ultimately show ?thesis
        using assms(1) bitset_bound [of "s - base w" "words w"] bitset_bound [of "s - nb + sh" "words w"]
        by (auto simp: rw_inv_def)
    qed
    with bn show ?thesis
      by (auto simp: sl accepted_def bitset_window_slide)
  qed
qed

lemma check_in_window:
  assumes "rw_inv w" and le: "base w \<le> seq" "seq \<le> 0xFFFFFFFFFFFFFF"
  shows "rw_inv (snd (check seq w))" and "window (snd (check seq w)) = window w"
    and "fst (check seq w) = Inr (seq \<notin> accepted w)"
    and "rw_abs (snd (check seq w)) = snd (check_spec (window w) seq (rw_abs w))"
    and "seq \<in> accepted w \<Longrightarrow> check seq w = (Inr False, w)"
proof -
  define w1 where "w1 = slid seq w"
  define bt where "bt = seq - base w1"
  note s = slid_simps [OF assms, folded w1_def]
  have "0 < window w" using assms(1) by (auto simp: rw_inv_def)
  then have base1: "base w1 \<le> seq"
    unfolding s(3) using le by simp
  have mem: "bt \<in> bitset (words w1) \<longleftrightarrow> seq \<in> accepted w"
    using s(4) base1 by (auto simp: accepted_def bt_def)
  have bt64: "bt div 64 < length (words w1)"
    using s(5) by (simp add: bt_def)
  let ?w2 = "w1\<lparr>words := (words w1)[bt div 64 := words w1 ! (bt div 64) OR push_bit (bt mod 64) 1]\<rparr>"
  have chk: "check seq w = (if seq \<in> accepted w then (Inr False, w1) else (Inr True, ?w2))"
    unfolding check_slid w1_def [symmetric] Let_def bt_def [symmetric]
    using le mem bt64 by (simp add: mask_bit)
  have same: "w1 = w" if "seq \<in> accepted w"
    using accepted_bound [OF assms(1) that] by (simp add: w1_def slid_def)
  have inv2: "rw_inv ?w2"
    using s(1) by (simp add: rw_inv_def)
  have "accepted ?w2 = {s. base w1 \<le> s \<and> s - base w1 \<in> insert bt (bitset (words w1))}"
    using bitset_insert [OF bt64] by (simp add: accepted_def)
  then have acc2: "accepted ?w2 = insert seq (accepted w1)"
    using base1 by (auto simp: accepted_def bt_def)
  show "rw_inv (snd (check seq w))" "window (snd (check seq w)) = window w"
    using inv2 s(1,2) by (simp_all add: chk)
  show "fst (check seq w) = Inr (seq \<notin> accepted w)"
    by (simp add: chk)
  show "seq \<in> accepted w \<Longrightarrow> check seq w = (Inr False, w)"
    by (simp add: chk same)
  show "rw_abs (snd (check seq w)) = snd (check_spec (window w) seq (rw_abs w))"
    using le s(3,4) same acc2 by (simp add: chk check_spec_def rw_abs_def Let_def)
qed

lemma check_refines_inv:
  assumes "rw_inv w"
  shows "rw_inv (snd (check seq w)) \<and> window (snd (check seq w)) = window w \<and>
    (fst (check seq w), rw_abs (snd (check seq w))) = check_spec (window w) seq (rw_abs w)"
proof (cases "seq > 0xFFFFFFFFFFFFFF")
  case True
  with assms show ?thesis by (simp add: check_def check_spec_def rw_abs_def)
next
  case small: False
  show ?thesis
  proof (cases "seq < base w")
    case True
    with small assms show ?thesis by (simp add: check_def check_spec_def rw_abs_def)
  next
    case False
    with small check_in_window [OF assms] show ?thesis
      by (simp add: check_spec_def rw_abs_def Let_def)
  qed
qed

section \<open>The filter contract\<close>

definition replay_check :: "nat \<Rightarrow> ReplayWindow \<Rightarrow> bool \<times> ReplayWindow" where
  "replay_check seq w = (case check seq w of (r, w') \<Rightarrow> (r = Inr True, w'))"

definition rw_blocked :: "ReplayWindow \<Rightarrow> nat set" where
  "rw_blocked w = {s. s < base w} \<union> accepted w"

lemma replay_check_spec:
  assumes "rw_inv w"
  shows "fst (replay_check s w) \<longleftrightarrow> s \<le> 0xFFFFFFFFFFFFFF \<and> s \<notin> rw_blocked w"
    and "fst (replay_check s w) \<Longrightarrow> base (snd (replay_check s w)) = max (base w) (s + 1 - window w)"
    and "fst (replay_check s w) \<Longrightarrow>
      accepted (snd (replay_check s w)) = insert s {t \<in> accepted w. base (snd (replay_check s w)) \<le> t}"
    and "\<not> fst (replay_check s w) \<Longrightarrow> rw_abs (snd (replay_check s w)) = rw_abs w"
    and "rw_inv (snd (replay_check s w))" and "window (snd (replay_check s w)) = window w"
  using check_refines_inv [OF assms, of s]
  by (auto simp: replay_check_def rw_blocked_def check_spec_def rw_abs_def Let_def split_beta
      split: if_splits)

lemma check_accept:
  assumes "rw_inv w" and "s \<le> 0xFFFFFFFFFFFFFF" and "rw_blocked w \<subseteq> {..<s}"
  shows "\<exists>w'. check s w = (Inr True, w') \<and> rw_inv w' \<and> rw_blocked w' \<subseteq> {..<Suc s}"
proof -
  note spec = replay_check_spec [OF assms(1), of s]
  have ok: "fst (replay_check s w)" using spec(1) assms(2,3) by auto
  then obtain w' where c: "check s w = (Inr True, w')"
    by (cases "check s w") (simp add: replay_check_def)
  then have w': "snd (replay_check s w) = w'" by (simp add: replay_check_def)
  have "0 < window w" using assms(1) by (auto simp: rw_inv_def)
  moreover have "base w \<le> s" using ok spec(1) by (auto simp: rw_blocked_def)
  ultimately have "base w' \<le> s" using spec(2) [OF ok] w' by simp
  moreover have "accepted w' \<subseteq> insert s (accepted w)" using spec(3) [OF ok] w' by auto
  ultimately have "rw_blocked w' \<subseteq> {..<Suc s}" using assms(3) by (force simp: rw_blocked_def)
  with c spec(5) w' show ?thesis by auto
qed

lemma check_reject:
  assumes "rw_inv w" and "s \<le> 0xFFFFFFFFFFFFFF" and "s \<in> rw_blocked w"
  shows "check s w = (Inr False, w)"
proof (cases "s < base w")
  case True
  with assms(2) show ?thesis by (simp add: check_def)
next
  case False
  with assms show ?thesis by (intro check_in_window(5)) (auto simp: rw_blocked_def)
qed

interpretation dtls_replay: replay_filter replay_check rw_inv rw_blocked
proof
  fix w s
  assume inv: "rw_inv w"
  note spec = replay_check_spec [OF inv, of s]
  show "rw_inv (snd (replay_check s w))" by (rule spec(5))
  show "s \<notin> rw_blocked w" if "fst (replay_check s w)" using that spec(1) by simp
  show "s \<in> rw_blocked (snd (replay_check s w))" if "fst (replay_check s w)"
    using spec(3) [OF that] by (simp add: rw_blocked_def)
  show "rw_blocked w \<subseteq> rw_blocked (snd (replay_check s w))"
  proof (cases "fst (replay_check s w)")
    case True
    have "base w \<le> base (snd (replay_check s w))" using spec(2) [OF True] by simp
    then show ?thesis unfolding rw_blocked_def spec(3) [OF True] by force
  next
    case False
    with spec(4) show ?thesis by (simp add: rw_blocked_def rw_abs_def)
  qed
qed

section \<open>The window as a function of the history\<close>

definition rw_history :: "nat list \<Rightarrow> ReplayWindow \<Rightarrow> bool" where
  "rw_history h w \<longleftrightarrow> (\<forall>a \<in> set h. a < base w + window w) \<and>
     (base w = 0 \<or> (\<exists>a \<in> set h. a + 1 = base w + window w)) \<and>
     accepted w = {a \<in> set h. base w \<le> a}"

lemma rw_history_step:
  assumes "rw_inv w" and "rw_history h w"
  shows "rw_history (h @ (if fst (replay_check s w) then [s] else [])) (snd (replay_check s w))"
proof (cases "fst (replay_check s w)")
  case True
  note spec = replay_check_spec [OF assms(1), of s]
  have "base w \<le> s" using True spec(1) by (auto simp: rw_blocked_def)
  moreover have "Suc s - window w \<le> s" using assms(1) by (cases "window w") (auto simp: rw_inv_def)
  ultimately show ?thesis
    using assms(2) True
    unfolding rw_history_def spec(3) [OF True] spec(2) [OF True] spec(6)
    by (auto simp: max_def)
next
  case False
  then show ?thesis
    using assms(2) replay_check_spec(4,6) [OF assms(1), of s] by (simp add: rw_history_def rw_abs_def)
qed

lemma rw_history_run:
  assumes "run_filter replay_check ss (ReplayWindow_new n) = (h, w)"
  shows "rw_inv w" and "rw_history h w" and "window w = window (ReplayWindow_new n)"
proof -
  have "rw_inv w \<and> rw_history h w \<and> window w = window (ReplayWindow_new n)"
    using assms
  proof (induction ss arbitrary: h w rule: rev_induct)
    case Nil
    then show ?case
      using rw_inv_new [of n] rw_abs_new [of n] by (auto simp: rw_history_def rw_abs_def)
  next
    case (snoc s ss)
    obtain h1 w1 where r: "run_filter replay_check ss (ReplayWindow_new n) = (h1, w1)" by force
    with snoc show ?case
      using snoc.IH [OF r] replay_check_spec(5,6) [of w1 s] rw_history_step [of w1 h1 s]
      by (auto simp: run_filter_snoc Let_def split_beta)
  qed
  then show "rw_inv w" "rw_history h w" "window w = window (ReplayWindow_new n)" by auto
qed

lemma rw_history_blocked:
  "rw_history h w \<Longrightarrow> s \<notin> rw_blocked w \<longleftrightarrow> s \<notin> set h \<and> list_all (\<lambda>a. a < s + window w) h"
  by (fastforce simp: rw_history_def rw_blocked_def list_all_iff)

lemma check_no_overflow:
  assumes "rw_inv w" and "window w < 2 ^ 63" and "base w \<le> seq" and "seq \<le> 0xFFFFFFFFFFFFFF"
  shows "base w + window w < 2 ^ 64" and "base w + window w \<le> seq \<Longrightarrow> window w \<le> seq + 1"
    and "base w \<le> base (slid seq w)" and "base (slid seq w) \<le> seq"
    and "(seq - base (slid seq w)) div 64 < length (words (slid seq w))"
proof -
  have "0 < window w" using assms(1) by (auto simp: rw_inv_def)
  then show "base w \<le> base (slid seq w)" and "base (slid seq w) \<le> seq"
    using assms(3) by (simp_all add: slid_simps(3) [OF assms(1,3,4)])
  show "base w + window w < 2 ^ 64" using assms by (simp add: rw_inv_def)
  show "base w + window w \<le> seq \<Longrightarrow> window w \<le> seq + 1" by simp
  show "(seq - base (slid seq w)) div 64 < length (words (slid seq w))"
    by (rule slid_simps(5) [OF assms(1,3,4)])
qed

section \<open>Properties\<close>


text \<open>No sequence number is accepted twice, whatever records are offered in whatever order.\<close>

theorem replay_never_accepts_twice:
  "distinct (fst (run_filter replay_check ss (ReplayWindow_new n)))"
  by (rule dtls_replay.run_distinct [OF rw_inv_new])


end
