(* ===== verification/Dtls_Retransmit.thy ===== *)
theory Dtls_Retransmit
  imports Prelude
begin

text \<open>
  The retransmission timer of \<^verbatim>\<open>tpt-dtls/src/retransmit.rs\<close>. A \<open>Duration\<close> is a number of
  nanoseconds; the overflow panics of \<open>Duration\<close> addition and doubling are the value \<open>None\<close>. The
  32-bit retry counter wraps (the release profile).
\<close>

datatype RetransmitEvent = NoEvent | Retransmit | Abort

record RetransmitTimer =
  rt_base :: nat
  rt_max :: nat
  rt_current :: nat
  rt_elapsed :: nat
  rt_retries :: nat
  rt_max_retries :: nat
  rt_armed :: bool

definition DURATION_MAX :: nat where
  "DURATION_MAX = (2 ^ 64 - 1) * 1000000000 + 999999999"

definition checked_le :: "nat \<Rightarrow> nat \<Rightarrow> nat option" where
  "checked_le bound n = (if n \<le> bound then Some n else None)"

definition RetransmitTimer_new :: "nat \<Rightarrow> nat \<Rightarrow> nat \<Rightarrow> RetransmitTimer" where
  "RetransmitTimer_new base0 max0 max_retries =
     \<lparr>rt_base = base0, rt_max = max0, rt_current = base0, rt_elapsed = 0, rt_retries = 0,
      rt_max_retries = max_retries, rt_armed = False\<rparr>"

definition is_armed :: "RetransmitTimer \<Rightarrow> bool" where
  "is_armed t = rt_armed t"

definition arm :: "RetransmitTimer \<Rightarrow> RetransmitTimer" where
  "arm t = t\<lparr>rt_current := rt_base t, rt_elapsed := 0, rt_retries := 0, rt_armed := True\<rparr>"

definition disarm :: "RetransmitTimer \<Rightarrow> RetransmitTimer" where
  "disarm t = t\<lparr>rt_armed := False, rt_elapsed := 0, rt_retries := 0\<rparr>"

definition tick :: "nat \<Rightarrow> RetransmitTimer \<Rightarrow> (RetransmitEvent \<times> RetransmitTimer) option" where
  "tick dt t =
     (if \<not> rt_armed t then Some (NoEvent, t)
      else Option.bind (checked_le DURATION_MAX (rt_elapsed t + dt)) (\<lambda>el.
        let t = t\<lparr>rt_elapsed := el\<rparr> in
        if rt_elapsed t < rt_current t then Some (NoEvent, t)
        else
          let t = t\<lparr>rt_elapsed := 0, rt_retries := (rt_retries t + 1) mod 2 ^ 32\<rparr> in
          if rt_retries t > rt_max_retries t then Some (Abort, t\<lparr>rt_armed := False\<rparr>)
          else Option.bind (checked_le DURATION_MAX (rt_current t * 2)) (\<lambda>d.
            Some (Retransmit, t\<lparr>rt_current := min d (rt_max t)\<rparr>))))"

text \<open>A sequence of ticks with no new flight in between.\<close>

fun tick_run :: "nat list \<Rightarrow> RetransmitTimer \<Rightarrow> (RetransmitEvent list \<times> RetransmitTimer) option" where
  "tick_run [] t = Some ([], t)"
| "tick_run (dt # dts) t =
     Option.bind (tick dt t) (\<lambda>(e, t1).
       Option.bind (tick_run dts t1) (\<lambda>(es, t2). Some (e # es, t2)))"

lemma checked_le_simps [simp]:
  "checked_le b n = Some m \<longleftrightarrow> m = n \<and> n \<le> b"
  "n \<le> b \<Longrightarrow> checked_le b n = Some n"
  by (auto simp: checked_le_def)

text \<open>What holds of a timer that was armed with base \<open>b\<close> and cap \<open>m\<close> and has retransmitted \<open>k\<close> times.\<close>

definition backed_off :: "nat \<Rightarrow> nat \<Rightarrow> nat \<Rightarrow> nat \<Rightarrow> RetransmitTimer \<Rightarrow> bool" where
  "backed_off b m n k t \<longleftrightarrow> n + 1 < 2 ^ 32 \<and> rt_max t = m \<and> rt_max_retries t = n \<and>
     rt_current t = min (b * 2 ^ k) m \<and> k \<le> n \<and> (if rt_armed t then rt_retries t = k else k = n)"

lemma backed_off_arm: "b \<le> m \<Longrightarrow> n + 1 < 2 ^ 32 \<Longrightarrow> backed_off b m n 0 (arm (RetransmitTimer_new b m n))"
  by (simp add: backed_off_def arm_def RetransmitTimer_new_def)

lemma tick_disarmed: "\<not> rt_armed t \<Longrightarrow> tick dt t = Some (NoEvent, t)"
  by (simp add: tick_def)

lemma tick_backed_off:
  assumes "backed_off b m n k t" and "tick dt t = Some (e, t')"
  shows "backed_off b m n (if e = Retransmit then Suc k else k) t'"
    and "e = Abort \<longleftrightarrow> rt_armed t \<and> \<not> rt_armed t'"
    and "\<not> rt_armed t \<Longrightarrow> e = NoEvent \<and> t' = t"
  using assms by (auto simp: tick_def backed_off_def Let_def min_def bind_eq_Some_conv split: if_splits)

lemma tick_run_backed_off:
  assumes "backed_off b m n k t" and "tick_run dts t = Some (evs, t')"
  shows "backed_off b m n (k + count_list evs Retransmit) t' \<and>
    count_list evs Abort = (if rt_armed t \<and> \<not> rt_armed t' then 1 else 0) \<and> (rt_armed t' \<longrightarrow> rt_armed t)"
  using assms
proof (induction dts arbitrary: k t evs)
  case (Cons dt dts)
  then obtain e t1 es where step: "tick dt t = Some (e, t1)" and run: "tick_run dts t1 = Some (es, t')"
      and evs: "evs = e # es"
    by (auto simp: bind_eq_Some_conv)
  note s = tick_backed_off [OF Cons.prems(1) step]
  show ?case
    using Cons.IH [OF s(1) run] s(2,3) evs by (cases e) (auto split: if_splits)
qed simp

lemma tick_timeout:
  assumes "backed_off b m n k t" and "rt_armed t" and "rt_elapsed t = 0" and "m \<le> dt" and "dt \<le> DURATION_MAX"
    and "2 * m \<le> DURATION_MAX"
  shows "\<exists>t'. tick dt t = Some (if k < n then Retransmit else Abort, t') \<and> rt_elapsed t' = 0 \<and> (rt_armed t' \<longleftrightarrow> k < n)"
  using assms by (auto simp: tick_def backed_off_def Let_def)

lemma tick_run_timeouts:
  assumes "backed_off b m n k t" and "rt_armed t" and "rt_elapsed t = 0"
    and "list_all (\<lambda>dt. m \<le> dt \<and> dt \<le> DURATION_MAX) dts" and "length dts = n - k + 1"
    and "2 * m \<le> DURATION_MAX"
  shows "\<exists>t'. tick_run dts t = Some (replicate (n - k) Retransmit @ [Abort], t') \<and> \<not> rt_armed t'"
  using assms
proof (induction dts arbitrary: k t)
  case (Cons dt dts)
  obtain t1 where t1: "tick dt t = Some (if k < n then Retransmit else Abort, t1)" "rt_elapsed t1 = 0"
      "rt_armed t1 \<longleftrightarrow> k < n"
    using tick_timeout [OF Cons.prems(1-3) _ _ Cons.prems(6), of dt] Cons.prems(4) by auto
  show ?case
  proof (cases "k < n")
    case True
    then have "backed_off b m n (Suc k) t1" using tick_backed_off(1) [OF Cons.prems(1) t1(1)] by simp
    moreover have "n - k = Suc (n - Suc k)" using True by simp
    ultimately show ?thesis
      using Cons.IH [of "Suc k" t1] Cons.prems True t1 by auto
  next
    case False
    with Cons.prems t1 show ?thesis by simp
  qed
qed simp

section \<open>Properties\<close>



text \<open>A peer that stays silent is given up on: when every tick is at least the timeout cap, an
  armed timer retransmits exactly \<open>max_retries\<close> times and then aborts.\<close>

theorem retransmit_gives_up:
  assumes "b \<le> m" and "2 * m \<le> DURATION_MAX" and "n + 1 < 2 ^ 32" and "length dts = n + 1"
    and "list_all (\<lambda>dt. m \<le> dt \<and> dt \<le> DURATION_MAX) dts"
  shows "\<exists>t. tick_run dts (arm (RetransmitTimer_new b m n)) = Some (replicate n Retransmit @ [Abort], t) \<and>
    \<not> is_armed t"
  using tick_run_timeouts [OF backed_off_arm [OF assms(1,3)] _ _ assms(5) _ assms(2)] assms(4)
  by (simp add: arm_def is_armed_def)

theorem retransmit_gives_up_witness:
  "\<exists>t. tick_run [80, 90, 80, 100] (arm (RetransmitTimer_new 10 80 3)) =
     Some ([Retransmit, Retransmit, Retransmit, Abort], t) \<and> \<not> is_armed t"
  using retransmit_gives_up [of 10 80 3 "[80, 90, 80, 100]"]
  by (simp add: DURATION_MAX_def numeral_3_eq_3)

end
