(* ===== verification/Dtls_Connection.thy ===== *)
theory Dtls_Connection
  imports Dtls_Record Dtls_Replay Dtls_Retransmit
begin

text \<open>
  The record plumbing of \<^verbatim>\<open>tpt-dtls/src/connection.rs\<close>: traffic keys per role and epoch, record
  encryption with the per-epoch counters, the output queue and its retransmission, the
  application-data interface and the loop of \<open>process_datagram\<close> with its anti-replay windows.
  The fields that only the handshake uses are the extension part of the record, and the handler of
  handshake bytes (\<open>handle_handshake_bytes\<close>) is an argument: the lemmas hold for every handler.
\<close>

datatype ConnectionRole = Client | Server

record TrafficKeys =
  tk_key :: bytes
  tk_iv :: bytes

record Connection =
  c_role :: ConnectionRole
  c_suite :: CipherSuite
  c_send_seq :: "u64 list"
  c_recv_cid_len :: nat
  c_send_cid :: "ConnectionId option"
  c_client_hs :: "TrafficKeys option"
  c_server_hs :: "TrafficKeys option"
  c_client_app :: "TrafficKeys option"
  c_server_app :: "TrafficKeys option"
  c_out :: "bytes list"
  c_retransmit :: RetransmitTimer
  c_pending_flight :: "bytes list option"
  c_app_inbox :: "bytes list"
  c_connected :: bool
  c_recv_replay :: "ReplayWindow list"

type_synonym 'h conn = "'h Connection_scheme"
type_synonym 'h handler = "bytes \<Rightarrow> 'h conn \<Rightarrow> (DtlsError failure + unit) \<times> 'h conn"

text \<open>The fields of \<open>Connection::blank\<close> that the record carries; durations in nanoseconds.\<close>

definition blank :: "ConnectionRole \<Rightarrow> CipherSuite \<Rightarrow> Connection" where
  "blank role0 suite =
     \<lparr>c_role = role0, c_suite = suite, c_send_seq = [0, 0, 0], c_recv_cid_len = 0, c_send_cid = None,
      c_client_hs = None, c_server_hs = None, c_client_app = None, c_server_app = None, c_out = [],
      c_retransmit = RetransmitTimer_new 100000000 60000000000 10, c_pending_flight = None,
      c_app_inbox = [], c_connected = False, c_recv_replay = replicate 3 (ReplayWindow_new 64)\<rparr>"

definition take_output :: "'h conn \<Rightarrow> bytes \<times> 'h conn" where
  "take_output c = (concat (c_out c), c\<lparr>c_out := []\<rparr>)"

definition Connection_tick :: "nat \<Rightarrow> 'h conn \<Rightarrow> (RetransmitEvent \<times> 'h conn) option" where
  "Connection_tick dt c =
     Option.bind (tick dt (c_retransmit c)) (\<lambda>(ev, t).
       let c = c\<lparr>c_retransmit := t\<rparr> in
       Some (ev, if ev = Retransmit
                 then (case c_pending_flight c of
                         Some flight \<Rightarrow> c\<lparr>c_out := c_out c @ flight\<rparr> | None \<Rightarrow> c)
                 else c))"

definition handshake_epoch :: "'h conn \<Rightarrow> u16" where
  "handshake_epoch c = (if c_client_hs c \<noteq> None \<or> c_server_hs c \<noteq> None then 1 else 0)"

definition arm_flight :: "'h conn \<Rightarrow> 'h conn" where
  "arm_flight c = c\<lparr>c_pending_flight := Some (c_out c), c_retransmit := arm (c_retransmit c)\<rparr>"

definition clear_flight :: "'h conn \<Rightarrow> 'h conn" where
  "clear_flight c = c\<lparr>c_pending_flight := None, c_retransmit := disarm (c_retransmit c)\<rparr>"

definition outgoing_keys :: "u16 \<Rightarrow> 'h conn \<Rightarrow> DtlsError + TrafficKeys" where
  "outgoing_keys ep c =
     (case c_role c of
        Client \<Rightarrow>
          if ep = 1 then ok_or (c_client_hs c) (HandshakeIncomplete ''client hs keys missing'')
          else if ep = 2 then ok_or (c_client_app c) (HandshakeIncomplete ''client app keys missing'')
          else Inl (HandshakeIncomplete ''no keys for epoch'')
      | Server \<Rightarrow>
          if ep = 1 then ok_or (c_server_hs c) (HandshakeIncomplete ''server hs keys missing'')
          else if ep = 2 then ok_or (c_server_app c) (HandshakeIncomplete ''server app keys missing'')
          else Inl (HandshakeIncomplete ''no keys for epoch''))"

definition incoming_keys :: "u16 \<Rightarrow> 'h conn \<Rightarrow> DtlsError + TrafficKeys" where
  "incoming_keys ep c =
     (case c_role c of
        Client \<Rightarrow>
          if ep = 1 then ok_or (c_server_hs c) (HandshakeIncomplete ''server hs keys missing'')
          else if ep = 2 then ok_or (c_server_app c) (HandshakeIncomplete ''server app keys missing'')
          else Inl (HandshakeIncomplete ''no keys for epoch'')
      | Server \<Rightarrow>
          if ep = 1 then ok_or (c_client_hs c) (HandshakeIncomplete ''client hs keys missing'')
          else if ep = 2 then ok_or (c_client_app c) (HandshakeIncomplete ''client app keys missing'')
          else Inl (HandshakeIncomplete ''no keys for epoch''))"

definition encrypt :: "aead_fn \<Rightarrow> u16 \<Rightarrow> u8 \<Rightarrow> bytes \<Rightarrow> 'h conn \<Rightarrow> (DtlsError + bytes) \<times> 'h conn" where
  "encrypt enc ep inner_type content c =
     (if ep = 0 then
        let sq = c_send_seq c ! 0 in
        if sq > 0xFFFFFFFFFFFFFF then (Inl (SequenceOverflow 0), c)
        else (Inr (build_cleartext CONTENT_HANDSHAKE 0 sq content),
              c\<lparr>c_send_seq := (c_send_seq c)[0 := sq + 1]\<rparr>)
      else
        case outgoing_keys ep c of
          Inl e \<Rightarrow> (Inl e, c)
        | Inr keys \<Rightarrow>
            let i = unat ep; sq = c_send_seq c ! i in
            if sq > 0xFFFFFFFFFFFFFF then (Inl (SequenceOverflow ep), c)
            else (build_protected enc (c_suite c) (tk_key keys) (tk_iv keys) ep sq
                    CONTENT_APPLICATION_DATA inner_type content (c_send_cid c),
                  c\<lparr>c_send_seq := (c_send_seq c)[i := sq + 1]\<rparr>))"

definition send_app_data :: "aead_fn \<Rightarrow> bytes \<Rightarrow> 'h conn \<Rightarrow> (DtlsError + unit) \<times> 'h conn" where
  "send_app_data enc data c =
     (if \<not> c_connected c then (Inl (HandshakeIncomplete ''not connected''), c)
      else case encrypt enc 2 CONTENT_APPLICATION_DATA data c of
        (Inl e, c) \<Rightarrow> (Inl e, c)
      | (Inr d, c) \<Rightarrow> (Inr (), c\<lparr>c_out := c_out c @ [d]\<rparr>))"

definition recv_app_data :: "'h conn \<Rightarrow> bytes option \<times> 'h conn" where
  "recv_app_data c =
     (case c_app_inbox c of [] \<Rightarrow> (None, c) | d # ds \<Rightarrow> (Some d, c\<lparr>c_app_inbox := ds\<rparr>))"

text \<open>One iteration of the loop of \<open>process_datagram\<close>, from position \<open>pos\<close> to the next position.\<close>

definition record_cid :: "nat \<Rightarrow> nat \<Rightarrow> bytes \<Rightarrow> DtlsError + (ConnectionId option \<times> nat)" where
  "record_cid recv_cid_len body_len trailing =
     (if recv_cid_len > 0 \<and> length trailing \<ge> recv_cid_len
      then res_bind (ConnectionId_new (take recv_cid_len trailing)) (\<lambda>c. Inr (Some c, body_len + recv_cid_len))
      else if recv_cid_len > 0
      then res_bind (ConnectionId_new trailing) (\<lambda>c. Inr (Some c, body_len + length trailing))
      else Inr (None, body_len))"

definition handle_record ::
    "aead_fn \<Rightarrow> 'h handler \<Rightarrow> RecordHeader \<Rightarrow> bytes \<Rightarrow> ConnectionId option \<Rightarrow> nat \<Rightarrow> nat \<Rightarrow> 'h conn \<Rightarrow>
      (DtlsError failure + nat) \<times> 'h conn" where
  "handle_record dec handle header body cid advance pos c =
     (if epoch header = 0 \<and> content_type header = CONTENT_HANDSHAKE then
        (case handle body c of (Inl e, c) \<Rightarrow> (Inl e, c) | (Inr _, c) \<Rightarrow> (Inr pos, c))
      else if epoch header \<ge> 1 then
        let ep = unat (epoch header) in
        if ep \<ge> length (c_recv_replay c) then (Inl Panic, c)
        else
          case check (unat (sequence header)) (c_recv_replay c ! ep) of (res, w) \<Rightarrow>
          let c = c\<lparr>c_recv_replay := (c_recv_replay c)[ep := w]\<rparr> in
          case res of
            Inl e \<Rightarrow> (Inl (Err e), c)
          | Inr False \<Rightarrow> (Inr (pos + 13 + advance), c)
          | Inr True \<Rightarrow>
              case res_bind (incoming_keys (epoch header) c) (\<lambda>keys.
                     open_protected dec (c_suite c) (tk_key keys) (tk_iv keys) header body cid) of
                Inl e \<Rightarrow> (Inl (Err e), c)
              | Inr (inner_type, content) \<Rightarrow>
                  if inner_type = CONTENT_HANDSHAKE then
                    (case handle content c of (Inl e, c) \<Rightarrow> (Inl e, c) | (Inr _, c) \<Rightarrow> (Inr pos, c))
                  else if inner_type = CONTENT_APPLICATION_DATA then
                    (Inr pos, c\<lparr>c_app_inbox := c_app_inbox c @ [content]\<rparr>)
                  else (Inr pos, c)
      else (Inr pos, c))"

definition process_record ::
    "aead_fn \<Rightarrow> 'h handler \<Rightarrow> bytes \<Rightarrow> nat \<Rightarrow> 'h conn \<Rightarrow> (DtlsError failure + nat) \<times> 'h conn" where
  "process_record dec handle datagram pos c =
     (case RecordHeader_decode (drop pos datagram) of
        Inl e \<Rightarrow> (Inl (Err e), c)
      | Inr (header, rest) \<Rightarrow>
          let body_len = unat (hlength header) in
          if length rest < body_len then (Inl (Err (RecordLengthMismatch body_len (length rest))), c)
          else
            case record_cid (c_recv_cid_len c) body_len (drop body_len rest) of
              Inl e \<Rightarrow> (Inl (Err e), c)
            | Inr (cid, advance) \<Rightarrow>
                handle_record dec handle header (take body_len rest) cid advance (pos + (13 + advance)) c)"

lemma handle_record_pos: "handle_record dec hdl h b cid adv pos c = (Inr pos', c') \<Longrightarrow> pos \<le> pos'"
  by (auto simp: handle_record_def Let_def split: if_splits prod.splits sum.splits bool.splits)

lemma process_record_pos: "process_record dec hdl dg pos c = (Inr pos', c') \<Longrightarrow> pos + 13 \<le> pos'"
  by (auto simp: process_record_def Let_def split: if_splits prod.splits sum.splits
      dest!: handle_record_pos)

text \<open>Every iteration consumes at least a header, so the loop ends.\<close>

function process_loop ::
    "aead_fn \<Rightarrow> 'h handler \<Rightarrow> bytes \<Rightarrow> nat \<Rightarrow> 'h conn \<Rightarrow> (DtlsError failure + unit) \<times> 'h conn" where
  "process_loop dec handle datagram pos c =
     (if pos < length datagram then
        case process_record dec handle datagram pos c of
          (Inl e, c') \<Rightarrow> (Inl e, c')
        | (Inr pos', c') \<Rightarrow> process_loop dec handle datagram pos' c'
      else (Inr (), c))"
  by pat_completeness auto

termination
  by (relation "measure (\<lambda>(_, _, dg, pos, _). length dg - pos)") (auto dest!: sym process_record_pos)

declare process_loop.simps [simp del]

definition process_datagram :: "aead_fn \<Rightarrow> 'h handler \<Rightarrow> bytes \<Rightarrow> 'h conn \<Rightarrow> (DtlsError failure + unit) \<times> 'h conn" where
  "process_datagram dec handle datagram c = process_loop dec handle datagram 0 c"

section \<open>One record\<close>

abbreviation cid_suffix :: "ConnectionId option \<Rightarrow> bytes" where
  "cid_suffix cid \<equiv> (case cid of None \<Rightarrow> [] | Some c \<Rightarrow> cid_bytes c)"

lemma length_cid_suffix [simp]: "length (cid_suffix cid) = cid_len cid"
  by (cases cid) simp_all

lemma conn_keys_simps [simp]:
  "incoming_keys ep (c\<lparr>c_recv_replay := x\<rparr>) = incoming_keys ep c"
  "incoming_keys ep (c\<lparr>c_app_inbox := y\<rparr>) = incoming_keys ep c"
  "outgoing_keys ep (c\<lparr>c_send_seq := z\<rparr>) = outgoing_keys ep c"
  "outgoing_keys ep (c\<lparr>c_out := o1\<rparr>) = outgoing_keys ep c"
  by (simp_all add: incoming_keys_def outgoing_keys_def split: ConnectionRole.split)

lemma process_record_at:
  assumes "unat (hlength h) = length body" and "cid_wf cid" and "c_recv_cid_len r = cid_len cid"
    and "d = RecordHeader_encode h Writer_new @ body @ cid_suffix cid"
  shows "process_record dec hdl (pre @ d @ post) (length pre) r =
    handle_record dec hdl (h\<lparr>sequence := take_bit 48 (sequence h)\<rparr>) body cid (length body + cid_len cid)
      (length pre + length d) r"
proof -
  have "length d = 13 + (length body + cid_len cid)"
    by (simp add: assms(4) SIZE_def Writer_new_def)
  moreover have "record_cid (cid_len cid) (length body) (cid_suffix cid @ post) = Inr (cid, length body + cid_len cid)"
    using assms(2) by (cases cid) (simp_all add: record_cid_def ConnectionId_new_def)
  ultimately show ?thesis
    using assms(1,3) by (simp add: process_record_def assms(4) decode_header_append Let_def)
qed

text \<open>What makes \<open>r\<close> able to read the application data \<open>s\<close> sends next: matching keys and connection-id
  length, and a window that has seen nothing from the sender's counter on.\<close>

definition app_link :: "TrafficKeys \<Rightarrow> 'a conn \<Rightarrow> 'b conn \<Rightarrow> bool" where
  "app_link k s r \<longleftrightarrow> c_connected s \<and> outgoing_keys 2 s = Inr k \<and> incoming_keys 2 r = Inr k \<and>
     c_suite s = c_suite r \<and> length (tk_key k) = key_len (c_suite r) \<and> length (tk_iv k) = 12 \<and>
     cid_wf (c_send_cid s) \<and> c_recv_cid_len r = cid_len (c_send_cid s) \<and>
     length (c_send_seq s) = 3 \<and> length (c_recv_replay r) = 3 \<and> rw_inv (c_recv_replay r ! 2) \<and>
     rw_blocked (c_recv_replay r ! 2) \<subseteq> {..<unat (c_send_seq s ! 2)}"

lemma send_app_data_record:
  assumes aead: "aead_correct enc dec (c_suite s)" and keys: "outgoing_keys 2 s = Inr k"
    and con: "c_connected s" "length (tk_key k) = key_len (c_suite s)" "length (tk_iv k) = 12"
    and m: "length m + 17 < 2 ^ 16" and seq: "unat (c_send_seq s ! 2) < 2 ^ 48"
  obtains body h where "h = \<lparr>content_type = CONTENT_APPLICATION_DATA, version = DTLS_LEGACY_VERSION, epoch = 2,
      sequence = c_send_seq s ! 2, hlength = word_of_nat (length body)\<rparr>"
    and "unat (hlength h) = length body"
    and "open_protected dec (c_suite s) (tk_key k) (tk_iv k) h body (c_send_cid s) = Inr (CONTENT_APPLICATION_DATA, m)"
    and "send_app_data enc m s = (Inr (), s\<lparr>c_send_seq := (c_send_seq s)[2 := c_send_seq s ! 2 + 1],
      c_out := c_out s @ [RecordHeader_encode h Writer_new @ body @ cid_suffix (c_send_cid s)]\<rparr>)"
proof -
  have le: "c_send_seq s ! 2 \<le> 0xFFFFFFFFFFFFFF"
    using seq by (simp add: word_le_nat_alt)
  obtain c where c: "length c = length m + 17"
    "dec (c_suite s) (tk_key k) (nonce_for (tk_iv k) (c_send_seq s ! 2))
       (build_aad CONTENT_APPLICATION_DATA 2 (c_send_seq s ! 2) (word_of_nat (length c))) c
       = Some (m @ [CONTENT_APPLICATION_DATA])"
    "build_protected enc (c_suite s) (tk_key k) (tk_iv k) 2 (c_send_seq s ! 2) CONTENT_APPLICATION_DATA
       CONTENT_APPLICATION_DATA m (c_send_cid s) =
     Inr (RecordHeader_encode \<lparr>content_type = CONTENT_APPLICATION_DATA, version = DTLS_LEGACY_VERSION,
            epoch = 2, sequence = c_send_seq s ! 2, hlength = word_of_nat (length c)\<rparr> Writer_new @ c
          @ cid_suffix (c_send_cid s))"
    by (rule build_protected_sealed [OF aead con(2,3) le m])
  have "length c < 2 ^ 16" using c(1) m by simp
  then have "unat (word_of_nat (length c) :: u16) = length c" by (simp add: unat_of_nat)
  moreover have "\<not> c_send_seq s ! 2 > 0xFFFFFFFFFFFFFF" using le by simp
  ultimately show ?thesis
    using c(2,3) con keys
    by (intro that [OF refl, of c]) (simp_all add: send_app_data_def encrypt_def Let_def open_protected_def aead_open_def)
qed

lemma handle_record_app:
  assumes "check (unat (sequence h)) (c_recv_replay r ! 2) = (Inr True, w)" and "length (c_recv_replay r) = 3"
    and "epoch h = 2" and "incoming_keys 2 r = Inr k"
    and "open_protected dec (c_suite r) (tk_key k) (tk_iv k) h body cid = Inr (CONTENT_APPLICATION_DATA, m)"
  shows "handle_record dec hdl h body cid adv pos r =
    (Inr pos, r\<lparr>c_recv_replay := (c_recv_replay r)[2 := w], c_app_inbox := c_app_inbox r @ [m]\<rparr>)"
  using assms by (simp add: handle_record_def Let_def)

lemma deliver_one:
  assumes link: "app_link k s r" and aead: "aead_correct enc dec (c_suite r)"
    and m: "length m + 17 < 2 ^ 16" and seq: "unat (c_send_seq s ! 2) < 2 ^ 48"
  obtains d s' r' where "send_app_data enc m s = (Inr (), s')" and "c_out s' = c_out s @ [d]" and "d \<noteq> []"
    and "unat (c_send_seq s' ! 2) = unat (c_send_seq s ! 2) + 1" and "app_link k s' r'"
    and "c_suite r' = c_suite r" and "c_app_inbox r' = c_app_inbox r @ [m]"
    and "\<And>pre post. process_record dec hdl (pre @ d @ post) (length pre) r = (Inr (length pre + length d), r')"
proof -
  note L = link [unfolded app_link_def]
  have sv: "aead_correct enc dec (c_suite s)" "outgoing_keys 2 s = Inr k" "c_connected s"
      "length (tk_key k) = key_len (c_suite s)" "length (tk_iv k) = 12"
    using aead L by simp_all
  obtain body h where h: "h = \<lparr>content_type = CONTENT_APPLICATION_DATA, version = DTLS_LEGACY_VERSION, epoch = 2,
      sequence = c_send_seq s ! 2, hlength = word_of_nat (length body)\<rparr>"
    and len: "unat (hlength h) = length body"
    and opn: "open_protected dec (c_suite s) (tk_key k) (tk_iv k) h body (c_send_cid s) = Inr (CONTENT_APPLICATION_DATA, m)"
    and snd: "send_app_data enc m s = (Inr (), s\<lparr>c_send_seq := (c_send_seq s)[2 := c_send_seq s ! 2 + 1],
      c_out := c_out s @ [RecordHeader_encode h Writer_new @ body @ cid_suffix (c_send_cid s)]\<rparr>)"
    by (rule send_app_data_record [OF sv m seq])
  define d where "d = RecordHeader_encode h Writer_new @ body @ cid_suffix (c_send_cid s)"
  have hseq: "h\<lparr>sequence := take_bit 48 (sequence h)\<rparr> = h" "sequence h = c_send_seq s ! 2" "epoch h = 2"
    by (simp_all add: h take_bit_small [OF seq])
  obtain w where w: "check (unat (sequence h)) (c_recv_replay r ! 2) = (Inr True, w)" "rw_inv w"
      "rw_blocked w \<subseteq> {..<Suc (unat (sequence h))}"
    using check_accept [of "c_recv_replay r ! 2" "unat (sequence h)"] L seq hseq(2) by auto
  let ?r = "r\<lparr>c_recv_replay := (c_recv_replay r)[2 := w], c_app_inbox := c_app_inbox r @ [m]\<rparr>"
  have suc: "unat (c_send_seq s ! 2 + 1) = Suc (unat (c_send_seq s ! 2))"
    using seq by (simp add: unat_word_ariths(1))
  have "process_record dec hdl (pre @ d @ post) (length pre) r = (Inr (length pre + length d), ?r)" for pre post
    using process_record_at [OF len _ _ d_def, of r dec hdl pre post] L hseq
      handle_record_app [OF w(1), of k dec body "c_send_cid s" m hdl] opn by simp
  moreover have "d \<noteq> []" by (simp add: d_def header_bytes)
  ultimately show ?thesis
    using snd L suc w hseq(2)
    by (intro that [of "s\<lparr>c_send_seq := (c_send_seq s)[2 := c_send_seq s ! 2 + 1], c_out := c_out s @ [d]\<rparr>" d ?r]) (simp_all add: d_def app_link_def)
qed

section \<open>Sequences of records\<close>

fun send_all :: "aead_fn \<Rightarrow> bytes list \<Rightarrow> 'h conn \<Rightarrow> (DtlsError + unit) \<times> 'h conn" where
  "send_all enc [] c = (Inr (), c)"
| "send_all enc (m # ms) c =
     (case send_app_data enc m c of (Inl e, c) \<Rightarrow> (Inl e, c) | (Inr _, c) \<Rightarrow> send_all enc ms c)"

lemma deliver_all:
  assumes "app_link k s r" and "aead_correct enc dec (c_suite r)"
    and "list_all (\<lambda>m. length m + 17 < 2 ^ 16) ms" and "unat (c_send_seq s ! 2) + length ms \<le> 2 ^ 48"
  shows "\<exists>ds s' r'. send_all enc ms s = (Inr (), s') \<and> c_out s' = c_out s @ ds \<and>
    c_app_inbox r' = c_app_inbox r @ ms \<and> app_link k s' r' \<and>
    (\<forall>pre. process_loop dec hdl (pre @ concat ds) (length pre) r = (Inr (), r'))"
  using assms
proof (induction ms arbitrary: s r)
  case Nil
  then show ?case by (auto simp: process_loop.simps intro!: exI [of _ "[]"])
next
  case (Cons m ms)
  have m: "length m + 17 < 2 ^ 16" "unat (c_send_seq s ! 2) < 2 ^ 48" using Cons.prems by auto
  obtain d s1 r1 where one: "send_app_data enc m s = (Inr (), s1)" "c_out s1 = c_out s @ [d]" "d \<noteq> []"
      "unat (c_send_seq s1 ! 2) = unat (c_send_seq s ! 2) + 1" "app_link k s1 r1"
      "c_suite r1 = c_suite r" "c_app_inbox r1 = c_app_inbox r @ [m]"
    and rec: "\<And>pre post. process_record dec hdl (pre @ d @ post) (length pre) r = (Inr (length pre + length d), r1)"
    by (rule deliver_one [where hdl = hdl, OF Cons.prems(1,2) m]) (rule that)
  obtain ds s' r' where rest: "send_all enc ms s1 = (Inr (), s')" "c_out s' = c_out s1 @ ds"
      "c_app_inbox r' = c_app_inbox r1 @ ms" "app_link k s' r'"
    and loop: "\<And>pre. process_loop dec hdl (pre @ concat ds) (length pre) r1 = (Inr (), r')"
    using Cons.IH [OF one(5)] Cons.prems one(4,6) by auto
  have "process_loop dec hdl (pre @ concat (d # ds)) (length pre) r = (Inr (), r')" for pre
    using loop [of "pre @ d"] rec [of pre "concat ds"] one(3)
    by (subst process_loop.simps) simp
  then show ?case using one rest by (intro exI [of _ "d # ds"] exI [of _ s'] exI [of _ r']) simp
qed

text \<open>A connection pair in which both sides hold the same application keys.\<close>

definition app_keys :: TrafficKeys where
  "app_keys = \<lparr>tk_key = replicate 16 1, tk_iv = replicate 12 7\<rparr>"

definition connected_pair :: "ConnectionRole \<Rightarrow> Connection" where
  "connected_pair rl = (blank rl TlsAes128GcmSha256)
     \<lparr>c_connected := True, c_client_app := Some app_keys, c_server_app := Some app_keys\<rparr>"

lemma app_link_pair: "app_link app_keys (connected_pair Client) (connected_pair Server)"
  using rw_inv_new [of 64] rw_abs_new [of 64]
  by (simp add: app_link_def connected_pair_def blank_def app_keys_def outgoing_keys_def incoming_keys_def
      rw_abs_def rw_blocked_def)

section \<open>Properties\<close>

text \<open>C10: Application data is delivered complete and in order. When a connected sender and a receiver
  hold the same keys, the concatenated output of the sends, given to \<open>process_datagram\<close> as one
  datagram, appends exactly the sent messages to the receiver's inbox.\<close>

theorem app_data_delivered:
  assumes "app_link k s r" and "aead_correct enc dec (c_suite r)" and "c_out s = []"
    and "list_all (\<lambda>m. length m + 17 < 2 ^ 16) ms" and "unat (c_send_seq s ! 2) + length ms \<le> 2 ^ 48"
  shows "\<exists>s' r'. send_all enc ms s = (Inr (), s') \<and>
    process_datagram dec hdl (fst (take_output s')) r = (Inr (), r') \<and>
    c_app_inbox r' = c_app_inbox r @ ms"
proof -
  obtain ds s' r' where "send_all enc ms s = (Inr (), s')" "c_out s' = c_out s @ ds"
      "c_app_inbox r' = c_app_inbox r @ ms"
      "\<And>pre. process_loop dec hdl (pre @ concat ds) (length pre) r = (Inr (), r')"
    using deliver_all [OF assms(1,2,4,5), of hdl] by blast
  from this(1-3) this(4) [of "[]"] assms(3) show ?thesis
    by (auto simp: process_datagram_def take_output_def)
qed

theorem app_data_delivered_witness:
  "\<exists>s' r'. send_all tag_encrypt [[1, 2], [], [3]] (connected_pair Client) = (Inr (), s') \<and>
    process_datagram tag_decrypt (\<lambda>_ c. (Inr (), c)) (fst (take_output s')) (connected_pair Server) = (Inr (), r') \<and>
    c_app_inbox r' = [[1, 2], [], [3]]"
  using app_data_delivered [OF app_link_pair aead_correct_tag, of "[[1, 2], [], [3]]" "\<lambda>_ c. (Inr (), c)"]
  by (simp add: connected_pair_def blank_def)

text \<open>C37: A datagram with a complete record of epoch 3 or more makes the receiver panic: the windows
  are a three-element vector indexed by the epoch of the unauthenticated header.\<close>

theorem high_epoch_panics:
  assumes "3 \<le> unat (epoch h)" and "length (c_recv_replay r) = 3" and "unat (hlength h) = length body"
  shows "process_datagram dec hdl (RecordHeader_encode h Writer_new @ body) r = (Inl Panic, r)"
proof -
  have "process_record dec hdl (RecordHeader_encode h Writer_new @ body) 0 r = (Inl Panic, r)"
    using assms
    by (auto simp: process_record_def decode_header_append record_cid_def ConnectionId_new_def Let_def
        handle_record_def word_le_nat_alt)
  then show ?thesis
    by (simp add: process_datagram_def process_loop.simps header_bytes)
qed

theorem high_epoch_panics_witness:
  "process_datagram tag_decrypt (\<lambda>_ c. (Inr (), c))
     (RecordHeader_encode \<lparr>content_type = 23, version = 0xfefd, epoch = 3, sequence = 0, hlength = 0\<rparr> Writer_new @ [])
     (connected_pair Server) = (Inl Panic, connected_pair Server)"
  by (rule high_epoch_panics) (simp_all add: connected_pair_def blank_def)

text \<open>A replayed record takes the record behind it down with it: the position is advanced twice, so
  a following record that is not longer than the replayed one is dropped unread, whatever it is.\<close>

theorem replay_drops_next_record:
  assumes "unat (hlength h) = length body" and "epoch h = 2" and "length (c_recv_replay r) = 3"
    and "rw_inv (c_recv_replay r ! 2)" and "unat (sequence h) \<in> rw_blocked (c_recv_replay r ! 2)"
    and "unat (sequence h) < 2 ^ 48" and "c_recv_cid_len r = 0" and "length next \<le> SIZE + length body"
  shows "process_datagram dec hdl ((RecordHeader_encode h Writer_new @ body) @ next) r = (Inr (), r)"
proof -
  let ?d = "RecordHeader_encode h Writer_new @ body"
  have "check (unat (sequence h)) (c_recv_replay r ! 2) = (Inr False, c_recv_replay r ! 2)"
    using assms(6) by (intro check_reject assms(4,5)) simp
  then have "process_record dec hdl (?d @ next) 0 r = (Inr (length ?d + (SIZE + length body)), r)"
    using process_record_at [of h body None r ?d dec hdl "[]" "next"] assms
    by (simp add: handle_record_def Let_def take_bit_small SIZE_def add.assoc)
  then show ?thesis
    using assms(8) by (simp add: process_datagram_def process_loop.simps header_bytes SIZE_def)
qed

theorem replay_drops_next_record_witness:
  "process_datagram tag_decrypt (\<lambda>_ c. (Inr (), c))
     ((RecordHeader_encode \<lparr>content_type = 23, version = 0xfefd, epoch = 2, sequence = 5, hlength = 1\<rparr> Writer_new @ [0])
        @ replicate 14 9)
     ((connected_pair Server)\<lparr>c_recv_replay := replicate 3 \<lparr>window = 64, base = 10, words = [0]\<rparr>\<rparr>) =
   (Inr (), (connected_pair Server)\<lparr>c_recv_replay := replicate 3 \<lparr>window = 64, base = 10, words = [0]\<rparr>\<rparr>)"
  by (rule replay_drops_next_record)
    (simp_all add: connected_pair_def blank_def rw_inv_def rw_blocked_def SIZE_def)

text \<open>C38: The replay window is updated before the record is authenticated: a forged record that fails
  to decrypt still moves the window, and afterwards the genuine record with that number, and every
  record a window or more behind it, is refused.\<close>

theorem forged_record_blocks_genuine:
  assumes "unat (hlength h) = length body" and "epoch h = 2" and "length (c_recv_replay r) = 3"
    and "rw_inv (c_recv_replay r ! 2)" and "rw_blocked (c_recv_replay r ! 2) \<subseteq> {..<unat (sequence h)}"
    and "unat (sequence h) < 2 ^ 48" and "c_recv_cid_len r = 0" and "incoming_keys 2 r = Inr k"
    and "open_protected dec (c_suite r) (tk_key k) (tk_iv k) h body None = Inl DecryptFailed"
    and "t = unat (sequence h) \<or> t + window (c_recv_replay r ! 2) \<le> unat (sequence h)"
  shows "\<exists>r'. process_datagram dec hdl (RecordHeader_encode h Writer_new @ body) r = (Inl (Err DecryptFailed), r') \<and>
    fst (check t (c_recv_replay r' ! 2)) = Inr False"
proof -
  let ?q = "unat (sequence h)" and ?w = "c_recv_replay r ! 2" and ?d = "RecordHeader_encode h Writer_new @ body"
  have q: "?q \<le> 0xFFFFFFFFFFFFFF" using assms(6) by simp
  obtain w where w: "check ?q ?w = (Inr True, w)" "rw_inv w"
    using check_accept [OF assms(4) q assms(5)] by blast
  then have rc: "fst (replay_check ?q ?w)" "snd (replay_check ?q ?w) = w" by (simp_all add: replay_check_def)
  note spec = replay_check_spec(2,3) [OF assms(4) rc(1), unfolded rc(2)]
  from assms(10) have "t \<in> rw_blocked w"
  proof
    assume "t = ?q"
    with spec(2) show ?thesis unfolding rw_blocked_def by simp
  next
    assume "t + window ?w \<le> ?q"
    with spec(1) have "t < base w" by simp
    then show ?thesis unfolding rw_blocked_def by simp
  qed
  moreover have "t \<le> 0xFFFFFFFFFFFFFF" using assms(10) q by linarith
  ultimately have "check t w = (Inr False, w)"
    by (intro check_reject w(2))
  moreover have "process_record dec hdl ?d 0 r = (Inl (Err DecryptFailed), r\<lparr>c_recv_replay := (c_recv_replay r)[2 := w]\<rparr>)"
    using process_record_at [of h body None r ?d dec hdl "[]" "[]"] assms w(1)
    by (simp add: handle_record_def Let_def take_bit_small)
  ultimately show ?thesis
    using assms(3) by (simp add: process_datagram_def process_loop.simps header_bytes)
qed

theorem forged_record_blocks_genuine_witness:
  "\<exists>r'. process_datagram tag_decrypt (\<lambda>_ c. (Inr (), c))
     (RecordHeader_encode \<lparr>content_type = 23, version = 0xfefd, epoch = 2, sequence = 1000, hlength = 1\<rparr> Writer_new @ [0])
     (connected_pair Server) = (Inl (Err DecryptFailed), r') \<and> fst (check 0 (c_recv_replay r' ! 2)) = Inr False"
proof (rule forged_record_blocks_genuine [where k = app_keys])
  show "rw_inv (c_recv_replay (connected_pair Server) ! 2)"
    using rw_inv_new [of 64] by (simp add: connected_pair_def blank_def)
  show "rw_blocked (c_recv_replay (connected_pair Server) ! 2) \<subseteq> {..<unat (sequence
      \<lparr>content_type = 23, version = 0xfefd, epoch = 2, sequence = 1000, hlength = 1\<rparr>)}"
    using rw_abs_new [of 64] by (simp add: connected_pair_def blank_def rw_blocked_def rw_abs_def)
qed (simp_all add: connected_pair_def blank_def incoming_keys_def app_keys_def open_protected_def aead_open_def
    tag_decrypt_def ReplayWindow_new_def next_multiple_of_def)

end
