(* ===== verification/Cbor_Float.thy ===== *)
theory Cbor_Float
  imports Complex_Main Prelude
begin

unbundle bit_operations_syntax

text \<open>
  The floating-point part of \<^verbatim>\<open>tpt-cbor/src/value.rs\<close>. An \<open>f64\<close>, \<open>f32\<close> or half-precision number
  is its bit pattern. The conversions between formats follow IEEE 754: widening is exact, and the
  casts that narrow round to the nearest value with ties to even. The arithmetic of
  \<open>f16_to_f64\<close> multiplies an integer by a power of two, which is exact; \<open>f64_of_scaled\<close> gives the
  bit pattern of such a product, and the lemma \<open>f64_value_scaled\<close> shows that it denotes it.
\<close>

section \<open>Bit patterns\<close>

definition f64_exp :: "u64 \<Rightarrow> nat" where
  "f64_exp b = unat b div 2 ^ 52 mod 2 ^ 11"

definition f64_mant :: "u64 \<Rightarrow> nat" where
  "f64_mant b = unat b mod 2 ^ 52"

definition f64_sign :: "u64 \<Rightarrow> nat" where
  "f64_sign b = unat b div 2 ^ 63"

definition f64_make :: "nat \<Rightarrow> nat \<Rightarrow> nat \<Rightarrow> u64" where
  "f64_make s e m = word_of_nat (s * 2 ^ 63 + e * 2 ^ 52 + m)"

definition f64_is_nan :: "u64 \<Rightarrow> bool" where
  "f64_is_nan b = (f64_exp b = 0x7ff \<and> f64_mant b \<noteq> 0)"

definition f64_is_zero :: "u64 \<Rightarrow> bool" where
  "f64_is_zero b = (f64_exp b = 0 \<and> f64_mant b = 0)"

definition F64_NAN :: u64 where
  "F64_NAN = 0x7ff8000000000000"

text \<open>The operator \<open>==\<close> on \<open>f64\<close>: NaN equals nothing, the two zeros are equal.\<close>

definition f64_eq :: "u64 \<Rightarrow> u64 \<Rightarrow> bool" where
  "f64_eq a b = (\<not> f64_is_nan a \<and> \<not> f64_is_nan b \<and> (a = b \<or> f64_is_zero a \<and> f64_is_zero b))"

text \<open>The position of the highest set bit.\<close>

fun ilog2 :: "nat \<Rightarrow> nat" where
  "ilog2 n = (if n < 2 then 0 else Suc (ilog2 (n div 2)))"

declare ilog2.simps [simp del]

text \<open>The \<open>f64\<close> with sign bit \<open>s\<close> and magnitude \<open>m * 2 ^ k / 2 ^ 1074\<close>, for \<open>m\<close> of at most 53 bits and
  a result in the normal range.\<close>

definition f64_of_scaled :: "nat \<Rightarrow> nat \<Rightarrow> nat \<Rightarrow> u64" where
  "f64_of_scaled s m k = (let b = ilog2 m in f64_make s (k + b - 51) ((m - 2 ^ b) * 2 ^ (52 - b)))"

section \<open>Conversions\<close>

definition f64_to_f16 :: "u64 \<Rightarrow> u16" where
  "f64_to_f16 bits =
     (let sign = ucast (drop_bit 48 bits AND 0x8000) :: u16;
          ex = sint (ucast (drop_bit 52 bits AND 0x7ff) :: 32 word);
          mant = bits AND 0x000fffffffffffff
      in if ex = 0x7ff then sign OR 0x7c00
      else
        let m = push_bit 52 1 OR mant; e = ex - 1008 in
        if e \<ge> 0x1f then sign OR 0x7c00
        else if e \<ge> 1 then
          let hmant = drop_bit 42 m AND 0x3ff;
              rem = m AND (push_bit 42 1 - 1);
              h = push_bit 10 (word_of_int e) OR ucast hmant :: u16;
              h = (if rem \<noteq> 0 \<and> (rem > push_bit 41 1 \<or> rem = push_bit 41 1 \<and> h AND 1 = 1) then h + 1 else h)
          in sign OR h
        else
          let shift = nat (1051 - ex) in
          if shift \<ge> 64 then sign
          else
            let s = drop_bit shift m;
                rem = m AND (push_bit shift 1 - 1);
                sub = ucast s :: u16;
                sub = (if rem \<noteq> 0 \<and> (rem > push_bit (shift - 1) 1 \<or> rem = push_bit (shift - 1) 1 \<and> sub AND 1 = 1)
                       then sub + 1 else sub)
            in if sub > 0x3ff then sign OR 0x0400 else sign OR sub)"

definition f16_to_f64 :: "u16 \<Rightarrow> u64" where
  "f16_to_f64 h =
     (let sign = unat (drop_bit 15 h AND 1); ex = unat (drop_bit 10 h AND 0x1f); mant = unat (h AND 0x3ff)
      in if ex = 0 then
           (if mant = 0 then f64_make sign 0 0 else f64_of_scaled sign mant 1050)
         else if ex = 0x1f then
           (if mant = 0 then f64_make sign 0x7ff 0 else F64_NAN)
         else f64_of_scaled sign (1024 + mant) (1049 + ex))"

text \<open>The cast \<open>f32 as f64\<close>.\<close>

definition f32_to_f64 :: "u32 \<Rightarrow> u64" where
  "f32_to_f64 b =
     (let sign = unat b div 2 ^ 31; ex = unat b div 2 ^ 23 mod 2 ^ 8; mant = unat b mod 2 ^ 23
      in if ex = 0 then
           (if mant = 0 then f64_make sign 0 0 else f64_of_scaled sign mant 925)
         else if ex = 0xff then
           (if mant = 0 then f64_make sign 0x7ff 0 else f64_make sign 0x7ff (2 ^ 51 + (mant mod 2 ^ 22) * 2 ^ 29))
         else f64_of_scaled sign (2 ^ 23 + mant) (924 + ex))"

text \<open>The cast \<open>f64 as f32\<close>: round \<open>m / 2 ^ k\<close> to nearest, ties to even.\<close>

definition round_even :: "nat \<Rightarrow> nat \<Rightarrow> nat" where
  "round_even m k =
     (let q = m div 2 ^ k; r = 2 * (m mod 2 ^ k)
      in if r > 2 ^ k \<or> r = 2 ^ k \<and> odd q then q + 1 else q)"

definition f64_to_f32 :: "u64 \<Rightarrow> u32" where
  "f64_to_f32 b =
     (let s = f64_sign b * 2 ^ 31; ex = f64_exp b; mant = f64_mant b
      in if ex = 0x7ff then
           word_of_nat (s + 0x7f800000 + (if mant = 0 then 0 else 2 ^ 22 + mant div 2 ^ 29 mod 2 ^ 22))
         else
           let m = (if ex = 0 then mant else 2 ^ 52 + mant);
               r = (if ex > 896 then (ex - 897) * 2 ^ 23 + round_even m 29
                    else round_even m (926 - ex))
           in word_of_nat (s + min r 0x7f800000))"

section \<open>The denoted number\<close>

definition f64_value :: "u64 \<Rightarrow> real" where
  "f64_value b = (- 1) ^ f64_sign b *
     (if f64_exp b = 0 then real (f64_mant b) / 2 ^ 1074
      else real (2 ^ 52 + f64_mant b) * 2 ^ (f64_exp b - 1) / 2 ^ 1074)"

lemma f64_make_fields:
  assumes "s < 2" and "e < 2 ^ 11" and "m < 2 ^ 52"
  shows "f64_sign (f64_make s e m) = s" and "f64_exp (f64_make s e m) = e" and "f64_mant (f64_make s e m) = m"
proof -
  have "s * 2 ^ 63 + e * 2 ^ 52 + m < 2 ^ 64" using assms by simp
  then have u: "unat (f64_make s e m) = s * 2 ^ 63 + e * 2 ^ 52 + m"
    unfolding f64_make_def unat_of_nat by simp
  have d: "(s * 2 ^ 63 + e * 2 ^ 52 + m) div 2 ^ 52 = s * 2 ^ 11 + e" "(s * 2 ^ 63 + e * 2 ^ 52 + m) mod 2 ^ 52 = m"
    using assms(3) by (simp_all add: div_nat_eqI mod_nat_eqI)
  show "f64_sign (f64_make s e m) = s"
    using assms unfolding f64_sign_def u by (intro div_nat_eqI) simp_all
  show "f64_exp (f64_make s e m) = e" "f64_mant (f64_make s e m) = m"
    using assms(2) unfolding f64_exp_def f64_mant_def u d by simp_all
qed

lemma ilog2_bounds: "0 < n \<Longrightarrow> 2 ^ ilog2 n \<le> n \<and> n < 2 * 2 ^ ilog2 n"
proof (induction n rule: ilog2.induct)
  case (1 n)
  show ?case
  proof (cases "n < 2")
    case True
    with "1.prems" show ?thesis by (simp add: ilog2.simps)
  next
    case False
    with 1 have "2 ^ ilog2 (n div 2) \<le> n div 2" "n div 2 < 2 * 2 ^ ilog2 (n div 2)" by simp_all
    then have "2 * 2 ^ ilog2 (n div 2) \<le> n" "n < 2 * (2 * 2 ^ ilog2 (n div 2))" by linarith+
    with False show ?thesis by (subst (1 2) ilog2.simps) simp
  qed
qed

lemma f64_value_scaled:
  assumes "s < 2" and "0 < m" and "m < 2 ^ 53" and "52 \<le> k + ilog2 m" and "k + ilog2 m \<le> 2097"
  shows "f64_value (f64_of_scaled s m k) = (- 1) ^ s * real m * 2 ^ k / 2 ^ 1074"
proof -
  define b where "b = ilog2 m"
  have b: "2 ^ b \<le> m" "m < 2 * 2 ^ b" using ilog2_bounds [OF assms(2)] by (simp_all add: b_def)
  have "(2::nat) ^ b < 2 ^ 53" using b(1) assms(3) by linarith
  then have "b < 53" by (rule power_less_imp_less_exp [rotated]) simp
  then have b52: "b \<le> 52" by simp
  have p52: "2 ^ b * 2 ^ (52 - b) = (2::nat) ^ 52" using b52 by (simp flip: power_add)
  have "(m - 2 ^ b) * 2 ^ (52 - b) < 2 ^ b * 2 ^ (52 - b)" using b by (intro mult_strict_right_mono) simp_all
  then have "(m - 2 ^ b) * 2 ^ (52 - b) < 2 ^ 52" unfolding p52 .
  note f = f64_make_fields [OF assms(1) _ this, of "k + b - 51"]
  have e: "k + b - 51 < 2 ^ 11" "k + b - 51 \<noteq> 0" using assms(4,5) by (simp_all add: b_def)
  have "2 ^ 52 + (m - 2 ^ b) * 2 ^ (52 - b) = m * 2 ^ (52 - b)"
    using b(1) unfolding p52 [symmetric] by (simp flip: distrib_right)
  moreover have "real (m * 2 ^ (52 - b)) * 2 ^ (k + b - 52) = real m * 2 ^ k"
    using b52 assms(4) by (simp add: b_def flip: power_add)
  ultimately show ?thesis
    using e by (simp add: f64_value_def f64_of_scaled_def Let_def f(1) [OF e(1)] f(2) [OF e(1)] f(3) [OF e(1)]
        flip: b_def del: of_nat_add of_nat_mult of_nat_power)
qed

section \<open>Zeros\<close>

lemma f64_is_zero_cases:
  assumes "f64_is_zero f"
  shows "f = 0 \<or> f = 0x8000000000000000"
proof -
  have "unat f = unat f div 2 ^ 52 * 2 ^ 52" "unat f div 2 ^ 52 = unat f div 2 ^ 63 * 2 ^ 11"
    using assms div_mult_mod_eq [of "unat f" "2 ^ 52"] div_mult_mod_eq [of "unat f div 2 ^ 52" "2 ^ 11"]
    by (simp_all add: f64_is_zero_def f64_exp_def f64_mant_def flip: div_mult2_eq)
  then have "unat f = unat f div 2 ^ 63 * 2 ^ 63" by simp
  moreover have "unat f div 2 ^ 63 < 2" using unat_bounds(3) [of f] by (simp add: div_less_iff_less_mult)
  ultimately have "unat f = 0 \<or> unat f = 2 ^ 63" by (cases "unat f div 2 ^ 63") auto
  then have "unat f = unat (0 :: u64) \<or> unat f = unat (0x8000000000000000 :: u64)" by simp
  then show ?thesis using unsigned_word_eqI by blast
qed

lemma half_zero: "f64_is_zero f \<Longrightarrow> f16_to_f64 (f64_to_f16 f) = f"
  by (drule f64_is_zero_cases, elim disjE; hypsubst)
    (simp_all add: f64_to_f16_def f16_to_f64_def f64_make_def Let_def)

lemma f64_eq_nonzero: "f64_eq a b \<Longrightarrow> \<not> f64_is_zero b \<Longrightarrow> a = b"
  by (auto simp: f64_eq_def)

lemma f64_eq_half: "f64_eq (f16_to_f64 (f64_to_f16 f)) f \<Longrightarrow> f16_to_f64 (f64_to_f16 f) = f"
  by (cases "f64_is_zero f") (auto simp: half_zero dest: f64_eq_nonzero)

lemma zero_uses_half: "f64_is_zero f \<Longrightarrow> f64_eq (f16_to_f64 (f64_to_f16 f)) f"
  by (simp add: half_zero f64_eq_def f64_is_zero_def f64_is_nan_def)

end
