(* ===== verification/Cbor_Value.thy ===== *)
theory Cbor_Value
  imports Cbor_Float "HOL-Library.List_Lexorder" "HOL-Library.Product_Lexorder" "HOL-Library.Multiset"
begin

unbundle bit_operations_syntax

text \<open>
  The data model and the encoder of \<^verbatim>\<open>tpt-cbor/src/value.rs\<close>. A function of the source that appends
  to the vector \<open>out\<close> is modelled by the bytes it appends. \<open>i128\<close> values are integers in range;
  arithmetic wraps at 128 bits (the release profile). A \<open>String\<close> is its UTF-8 bytes.
\<close>

section \<open>Values\<close>

datatype Value =
    Integer int
  | Float u64
  | Bool bool
  | Null
  | Undefined
  | Simple u8
  | Bytes bytes
  | Text bytes
  | Array "Value list"
  | Map "(Value \<times> Value) list"
  | Tag u64 Value

abbreviation Value_text :: "bytes \<Rightarrow> Value" where
  "Value_text s \<equiv> Text s"

abbreviation Value_bytes :: "bytes \<Rightarrow> Value" where
  "Value_bytes b \<equiv> Bytes b"

definition as_i128 :: "Value \<Rightarrow> int option" where
  "as_i128 v = (case v of Integer i \<Rightarrow> Some i | _ \<Rightarrow> None)"

definition as_str :: "Value \<Rightarrow> bytes option" where
  "as_str v = (case v of Text s \<Rightarrow> Some s | _ \<Rightarrow> None)"

definition as_bytes :: "Value \<Rightarrow> bytes option" where
  "as_bytes v = (case v of Bytes b \<Rightarrow> Some b | _ \<Rightarrow> None)"

text \<open>The derived \<open>PartialEq\<close>, which compares floats with the \<open>==\<close> of \<open>f64\<close>.\<close>

function (sequential) value_eq :: "Value \<Rightarrow> Value \<Rightarrow> bool"
  and values_eq :: "Value list \<Rightarrow> Value list \<Rightarrow> bool"
  and pairs_eq :: "(Value \<times> Value) list \<Rightarrow> (Value \<times> Value) list \<Rightarrow> bool" where
  "value_eq (Integer i) w = (case w of Integer j \<Rightarrow> i = j | _ \<Rightarrow> False)"
| "value_eq (Float a) w = (case w of Float b \<Rightarrow> f64_eq a b | _ \<Rightarrow> False)"
| "value_eq (Bool a) w = (case w of Bool b \<Rightarrow> a = b | _ \<Rightarrow> False)"
| "value_eq Null w = (case w of Null \<Rightarrow> True | _ \<Rightarrow> False)"
| "value_eq Undefined w = (case w of Undefined \<Rightarrow> True | _ \<Rightarrow> False)"
| "value_eq (Simple a) w = (case w of Simple b \<Rightarrow> a = b | _ \<Rightarrow> False)"
| "value_eq (Bytes a) w = (case w of Bytes b \<Rightarrow> a = b | _ \<Rightarrow> False)"
| "value_eq (Text a) w = (case w of Text b \<Rightarrow> a = b | _ \<Rightarrow> False)"
| "value_eq (Array xs) w = (case w of Array ys \<Rightarrow> values_eq xs ys | _ \<Rightarrow> False)"
| "value_eq (Map ps) w = (case w of Map qs \<Rightarrow> pairs_eq ps qs | _ \<Rightarrow> False)"
| "value_eq (Tag t v) w = (case w of Tag u v' \<Rightarrow> t = u \<and> value_eq v v' | _ \<Rightarrow> False)"
| "values_eq [] ys = (ys = [])"
| "values_eq (x # xs) ys = (case ys of [] \<Rightarrow> False | y # ys' \<Rightarrow> value_eq x y \<and> values_eq xs ys')"
| "pairs_eq [] qs = (qs = [])"
| "pairs_eq ((a, b) # ps) qs =
     (case qs of [] \<Rightarrow> False | (c, d) # qs' \<Rightarrow> value_eq a c \<and> value_eq b d \<and> pairs_eq ps qs')"
  by pat_completeness auto

termination
  by (relation "measure (case_sum (\<lambda>(v, _). size v)
        (case_sum (\<lambda>(vs, _). size_list size vs) (\<lambda>(ps, _). size_list (size_prod size size) ps)))") auto

record DecodeOptions =
  reject_indefinite :: bool
  reject_duplicate_keys :: bool
  d_canonical :: bool

definition DecodeOptions_default :: DecodeOptions where
  "DecodeOptions_default = \<lparr>reject_indefinite = False, reject_duplicate_keys = False, d_canonical = False\<rparr>"

definition DecodeOptions_strict :: DecodeOptions where
  "DecodeOptions_strict = \<lparr>reject_indefinite = True, reject_duplicate_keys = True, d_canonical = False\<rparr>"

definition DecodeOptions_canonical :: DecodeOptions where
  "DecodeOptions_canonical = \<lparr>reject_indefinite = True, reject_duplicate_keys = True, d_canonical = True\<rparr>"

record EncodeOptions =
  e_canonical :: bool

definition EncodeOptions_default :: EncodeOptions where
  "EncodeOptions_default = \<lparr>e_canonical = False\<rparr>"

definition EncodeOptions_canonical :: EncodeOptions where
  "EncodeOptions_canonical = \<lparr>e_canonical = True\<rparr>"

section \<open>Scalars\<close>

definition write_type_number :: "u8 \<Rightarrow> u64 \<Rightarrow> bytes" where
  "write_type_number major v =
     (let major_bits = push_bit 5 major in
      if v < 24 then [major_bits OR ucast v]
      else if v < 0x100 then [major_bits OR 24, ucast v]
      else if v < 0x10000 then (major_bits OR 25) # be16 (ucast v)
      else if v < 0x100000000 then (major_bits OR 26) # be32 (ucast v)
      else (major_bits OR 27) # be64 v)"

definition i128_wrap :: "int \<Rightarrow> int" where
  "i128_wrap i = (i + 2 ^ 127) mod 2 ^ 128 - 2 ^ 127"

definition trim_be :: "bytes \<Rightarrow> bytes" where
  "trim_be bs =
     (let first_nonzero = length (takeWhile (\<lambda>b. b = 0) bs);
          keep = max (length bs - first_nonzero) 1
      in drop (length bs - keep) bs)"

definition encode_integer :: "int \<Rightarrow> bytes" where
  "encode_integer i =
     (if i \<ge> 0 then
        if i < 2 ^ 64 then write_type_number 0 (word_of_int i)
        else
          let bs = trim_be (to_be 16 (nat i))
          in write_type_number 6 2 @ write_type_number 2 (word_of_nat (length bs)) @ bs
      else
        let n = i128_wrap (i128_wrap (- i) - 1) in
        if 0 \<le> n \<and> n < 2 ^ 64 then write_type_number 1 (word_of_int n)
        else
          let bs = trim_be (to_be 16 (nat (n mod 2 ^ 128)))
          in write_type_number 6 3 @ write_type_number 2 (word_of_nat (length bs)) @ bs)"

definition encode_simple :: "u8 \<Rightarrow> bytes" where
  "encode_simple s = (if s \<le> 23 then [0xe0 OR s] else [0xf8, s])"

definition encode_float :: "u64 \<Rightarrow> bytes" where
  "encode_float f =
     (if f64_is_nan f then [0xf9, 0x7e, 0x00]
      else
        let half = f64_to_f16 f in
        if f64_eq (f16_to_f64 half) f then 0xf9 # be16 half
        else
          let single = f64_to_f32 f in
          if f64_eq (f32_to_f64 single) f then 0xfa # be32 single
          else 0xfb # be64 f)"

section \<open>Data items\<close>

text \<open>The recursion goes through a sort of the pairs, by keys that are themselves encodings.\<close>

lemma insort_key_cong:
  "(\<And>y. y \<in> set (x # xs) \<Longrightarrow> f y = g y) \<Longrightarrow> insort_key f x xs = insort_key g x xs"
  by (induction xs) auto

lemma sort_key_cong [fundef_cong]:
  assumes "xs = ys" and "\<And>y. y \<in> set ys \<Longrightarrow> f y = g y"
  shows "sort_key f xs = sort_key g ys"
  using assms(2) unfolding assms(1)
proof (induction ys)
  case (Cons y ys)
  then show ?case using insort_key_cong [of y "sort_key g ys" f g] by simp
qed simp

lemma size_pair_in:
  "(a, b) \<in> set ps \<Longrightarrow> size a \<le> size_list (size_prod size size) ps"
  "(a, b) \<in> set ps \<Longrightarrow> size b \<le> size_list (size_prod size size) ps"
  by (induction ps) auto

function encode_value :: "EncodeOptions \<Rightarrow> Value \<Rightarrow> bytes" where
  "encode_value opts (Integer i) = encode_integer i"
| "encode_value opts (Float f) = encode_float f"
| "encode_value opts (Bool b) = [if b then 0xf5 else 0xf4]"
| "encode_value opts Null = [0xf6]"
| "encode_value opts Undefined = [0xf7]"
| "encode_value opts (Simple s) = encode_simple s"
| "encode_value opts (Bytes b) = write_type_number 2 (word_of_nat (length b)) @ b"
| "encode_value opts (Text t) = write_type_number 3 (word_of_nat (length t)) @ t"
| "encode_value opts (Array items) =
     write_type_number 4 (word_of_nat (length items)) @ concat (map (encode_value opts) items)"
| "encode_value opts (Map pairs) =
     (let pairs = (if e_canonical opts
                   then sort_key (\<lambda>p. (length (encode_value EncodeOptions_default (fst p)),
                                       encode_value EncodeOptions_default (fst p))) pairs
                   else pairs)
      in write_type_number 5 (word_of_nat (length pairs)) @
         concat (map (\<lambda>p. encode_value opts (fst p) @ encode_value opts (snd p)) pairs))"
| "encode_value opts (Tag t inner) = write_type_number 6 t @ encode_value opts inner"
  by pat_completeness auto

termination
  by (relation "measure (size \<circ> snd)")
    (auto simp: less_Suc_eq_le size_pair_in dest: size_list_estimation' split: if_splits)

definition encode_value_to_vec :: "Value \<Rightarrow> EncodeOptions \<Rightarrow> bytes" where
  "encode_value_to_vec v opts = encode_value opts v"

definition to_vec :: "Value \<Rightarrow> EncodeOptions \<Rightarrow> bytes" where
  "to_vec v opts = encode_value_to_vec v opts"

text \<open>The comparator of the sort orders by this key, in the lexicographic order of pairs.\<close>

definition canonical_key :: "Value \<Rightarrow> nat \<times> bytes" where
  "canonical_key v = (let e = encode_value_to_vec v EncodeOptions_default in (length e, e))"

definition canonical_key_cmp :: "Value \<Rightarrow> Value \<Rightarrow> Ordering" where
  "canonical_key_cmp a b =
     (let ea = encode_value_to_vec a EncodeOptions_default;
          eb = encode_value_to_vec b EncodeOptions_default
      in case cmp (length ea) (length eb) of Equal \<Rightarrow> cmp ea eb | other \<Rightarrow> other)"

lemma canonical_key_cmp_key: "canonical_key_cmp a b = cmp (canonical_key a) (canonical_key b)"
  by (auto simp: canonical_key_cmp_def canonical_key_def cmp_def Let_def less_prod_def)

lemma encode_map_canonical:
  "encode_value EncodeOptions_canonical (Map pairs) =
     write_type_number 5 (word_of_nat (length pairs)) @
     concat (map (\<lambda>p. encode_value EncodeOptions_canonical (fst p) @ encode_value EncodeOptions_canonical (snd p))
       (sort_key (\<lambda>p. canonical_key (fst p)) pairs))"
  by (simp add: EncodeOptions_canonical_def canonical_key_def encode_value_to_vec_def Let_def)

lemma encode_map_default:
  "encode_value EncodeOptions_default (Map pairs) =
     write_type_number 5 (word_of_nat (length pairs)) @
     concat (map (\<lambda>p. encode_value EncodeOptions_default (fst p) @ encode_value EncodeOptions_default (snd p)) pairs)"
  by (simp add: EncodeOptions_default_def Let_def)

declare encode_value.simps(10) [simp del]

end
