(* ===== verification/Cbor_Decoder.thy ===== *)
theory Cbor_Decoder
  imports Cbor_Value
begin

unbundle bit_operations_syntax

text \<open>
  The decoder of \<^verbatim>\<open>tpt-cbor/src/decoder.rs\<close>. The options are never assigned after construction and
  are an argument of the methods. The recursion and the loops run on fuel; running out of it is the
  outcome \<open>OutOfFuel\<close>, and \<open>n + 1\<close> units are enough for \<open>n\<close> bytes of input
  (lemma \<open>decode_enough_fuel\<close>). \<open>Vec::with_capacity(n)\<close> panics when \<open>n\<close> elements exceed the
  largest allocation; that limit, in elements, is the argument \<open>cap\<close>.
\<close>

section \<open>The cursor\<close>

datatype CborError =
    UnexpectedEof
  | InvalidInitialByte u8
  | ReservedSimpleValue u8
  | DuplicateKey
  | IndefiniteNotAllowed
  | IntegerOutOfRange
  | InvalidUtf8

datatype stop = Fail CborError | CapacityPanic | OutOfFuel

record Decoder =
  data :: bytes
  pos :: nat

definition Decoder_new :: "bytes \<Rightarrow> Decoder" where
  "Decoder_new d = \<lparr>data = d, pos = 0\<rparr>"

definition dec_remaining :: "Decoder \<Rightarrow> nat" where
  "dec_remaining d = length (data d) - pos d"

definition dec_read_u8 :: "(Decoder, stop, u8) parser" where
  "dec_read_u8 d =
     (if pos d \<ge> length (data d) then Inl (Fail UnexpectedEof)
      else Inr (data d ! pos d, d\<lparr>pos := pos d + 1\<rparr>))"

definition read_exact :: "nat \<Rightarrow> (Decoder, stop, bytes) parser" where
  "read_exact n d =
     (if dec_remaining d < n then Inl (Fail UnexpectedEof)
      else Inr (take n (drop (pos d) (data d)), d\<lparr>pos := pos d + n\<rparr>))"

definition read_len :: "u8 \<Rightarrow> u8 \<Rightarrow> (Decoder, stop, (u64 \<times> u8) option) parser" where
  "read_len major ai =
     (if ai \<le> 23 then retp (Some (ucast ai, 0))
      else if ai = 24 then bindp dec_read_u8 (\<lambda>v. retp (Some (ucast v, 1)))
      else if ai = 25 then
        bindp (read_exact 2) (\<lambda>b. retp (Some (push_bit 8 (ucast (b ! 0)) OR ucast (b ! 1), 2)))
      else if ai = 26 then bindp (read_exact 4) (\<lambda>b. retp (Some (shift_or b, 4)))
      else if ai = 27 then bindp (read_exact 8) (\<lambda>b. retp (Some (shift_or b, 8)))
      else if ai = 31 then retp None
      else failp (\<lambda>_. Fail (InvalidInitialByte (push_bit 5 major OR ai))))"

text \<open>\<open>read_len\<close> followed by \<open>ok_or(InvalidInitialByte(b))\<close>.\<close>

definition read_definite :: "u8 \<Rightarrow> u8 \<Rightarrow> u8 \<Rightarrow> (Decoder, stop, u64 \<times> u8) parser" where
  "read_definite major ai b = bindp (read_len major ai) (\<lambda>m. liftp (ok_or m (Fail (InvalidInitialByte b))))"

section \<open>Strings, simple values and integers\<close>

text \<open>\<open>String::from_utf8\<close> accepts the well-formed byte sequences of the Unicode standard.\<close>

definition utf8_cont :: "u8 \<Rightarrow> bool" where
  "utf8_cont b = (0x80 \<le> b \<and> b \<le> 0xBF)"

fun utf8_valid :: "bytes \<Rightarrow> bool" where
  "utf8_valid [] = True"
| "utf8_valid (a # bs) =
     (if a \<le> 0x7F then utf8_valid bs
      else if 0xC2 \<le> a \<and> a \<le> 0xDF then
        (case bs of b # cs \<Rightarrow> utf8_cont b \<and> utf8_valid cs | _ \<Rightarrow> False)
      else if 0xE0 \<le> a \<and> a \<le> 0xEF then
        (case bs of b # c # cs \<Rightarrow>
           (if a = 0xE0 then 0xA0 \<le> b \<and> b \<le> 0xBF
            else if a = 0xED then 0x80 \<le> b \<and> b \<le> 0x9F else utf8_cont b)
           \<and> utf8_cont c \<and> utf8_valid cs
         | _ \<Rightarrow> False)
      else if 0xF0 \<le> a \<and> a \<le> 0xF4 then
        (case bs of b # c # d # cs \<Rightarrow>
           (if a = 0xF0 then 0x90 \<le> b \<and> b \<le> 0xBF
            else if a = 0xF4 then 0x80 \<le> b \<and> b \<le> 0x8F else utf8_cont b)
           \<and> utf8_cont c \<and> utf8_cont d \<and> utf8_valid cs
         | _ \<Rightarrow> False)
      else False)"

definition materialize_string :: "bytes \<Rightarrow> bool \<Rightarrow> stop + Value" where
  "materialize_string bs is_text =
     (if is_text then (if utf8_valid bs then Inr (Text bs) else Inl (Fail InvalidUtf8))
      else Inr (Bytes bs))"

definition check_shortest_int :: "u64 \<Rightarrow> u8 \<Rightarrow> stop + unit" where
  "check_shortest_int len nbytes =
     (let minimal = (if len < 24 then 0 else if len \<le> 0xff then 1 else if len \<le> 0xffff then 2
                     else if len \<le> 0xffffffff then 4 else 8)
      in if nbytes \<noteq> minimal then Inl (Fail (InvalidInitialByte 0)) else Inr ())"

definition canonical_key_lt :: "Value \<Rightarrow> Value \<Rightarrow> bool" where
  "canonical_key_lt a b =
     (let ea = encode_value_to_vec a EncodeOptions_default;
          eb = encode_value_to_vec b EncodeOptions_default
      in case cmp (length ea) (length eb) of Equal \<Rightarrow> ea < eb | other \<Rightarrow> other = Less)"

definition i128_from_be :: "bytes \<Rightarrow> int" where
  "i128_from_be bs = i128_wrap (int (be_val bs))"

definition bignum_to_i128 :: "u64 \<Rightarrow> bytes \<Rightarrow> int option" where
  "bignum_to_i128 tag bs =
     (if length bs > 16 then None
      else
        let magnitude = i128_from_be (replicate (16 - length bs) 0 @ bs)
        in if tag = 2 then Some magnitude else Some (- 1 - magnitude))"

definition decode_simple :: "u8 \<Rightarrow> (Decoder, stop, Value) parser" where
  "decode_simple ai =
     (if ai \<le> 19 then retp (Simple ai)
      else if ai = 20 then retp (Bool False)
      else if ai = 21 then retp (Bool True)
      else if ai = 22 then retp Null
      else if ai = 23 then retp Undefined
      else if ai = 24 then
        bindp dec_read_u8 (\<lambda>v. if v \<le> 31 then failp (\<lambda>_. Fail (ReservedSimpleValue v)) else retp (Simple v))
      else if ai = 25 then bindp (read_exact 2) (\<lambda>b. retp (Float (f16_to_f64 (from_be b))))
      else if ai = 26 then bindp (read_exact 4) (\<lambda>b. retp (Float (f32_to_f64 (shift_or b))))
      else if ai = 27 then bindp (read_exact 8) (\<lambda>b. retp (Float (shift_or b)))
      else if ai = 31 then failp (\<lambda>_. Fail (InvalidInitialByte 0xff))
      else failp (\<lambda>_. Fail (InvalidInitialByte (0xe0 OR ai))))"

fun decode_chunks :: "nat \<Rightarrow> bool \<Rightarrow> bytes \<Rightarrow> (Decoder, stop, bytes) parser" where
  "decode_chunks 0 is_text acc = failp (\<lambda>_. OutOfFuel)"
| "decode_chunks (Suc fuel) is_text acc =
     bindp dec_read_u8 (\<lambda>b.
       if b = 0xff then retp acc
       else
         let chunk_major = drop_bit 5 b; chunk_ai = b AND 0x1f in
         if chunk_major \<noteq> 2 + (if is_text then 1 else 0) then failp (\<lambda>_. Fail (InvalidInitialByte b))
         else bindp (read_definite chunk_major chunk_ai b) (\<lambda>(n, _).
           bindp (read_exact (unat n)) (\<lambda>bs. decode_chunks fuel is_text (acc @ bs))))"

definition decode_bytes :: "DecodeOptions \<Rightarrow> nat \<Rightarrow> u8 \<Rightarrow> bool \<Rightarrow> (Decoder, stop, Value) parser" where
  "decode_bytes opts fuel ai is_text =
     bindp (read_len 2 ai) (\<lambda>len.
       case len of
         Some (n, _) \<Rightarrow> bindp (read_exact (unat n)) (\<lambda>bs. liftp (materialize_string bs is_text))
       | None \<Rightarrow>
           if reject_indefinite opts then failp (\<lambda>_. Fail IndefiniteNotAllowed)
           else bindp (decode_chunks fuel is_text []) (\<lambda>acc. liftp (materialize_string acc is_text)))"

section \<open>Data items\<close>

text \<open>The test for the break byte of an indefinite-length array or map, which consumes it.\<close>

definition at_break :: "(Decoder, stop, bool) parser" where
  "at_break d =
     (if dec_remaining d = 0 then Inl (Fail UnexpectedEof)
      else if data d ! pos d = 0xff then Inr (True, d\<lparr>pos := pos d + 1\<rparr>)
      else Inr (False, d))"

text \<open>The checks of \<open>decode_map_body\<close> on a new key.\<close>

definition check_key :: "DecodeOptions \<Rightarrow> (Value \<times> Value) list \<Rightarrow> Value \<Rightarrow> stop + unit" where
  "check_key opts pairs key =
     (if (reject_duplicate_keys opts \<or> d_canonical opts) \<and> list_ex (\<lambda>(k, _). value_eq k key) pairs
      then Inl (Fail DuplicateKey)
      else if d_canonical opts \<and> pairs \<noteq> [] \<and> \<not> canonical_key_lt (fst (last pairs)) key
      then Inl (Fail DuplicateKey)
      else Inr ())"

definition collapse_tag :: "u64 \<Rightarrow> Value \<Rightarrow> Value" where
  "collapse_tag tag inner =
     (if tag = 2 \<or> tag = 3 then
        (case inner of
           Bytes bs \<Rightarrow> (case bignum_to_i128 tag bs of Some v \<Rightarrow> Integer v | None \<Rightarrow> Tag tag inner)
         | _ \<Rightarrow> Tag tag inner)
      else Tag tag inner)"

text \<open>The loops take the parser \<open>item\<close> that decodes one nested value.\<close>

primrec decode_items :: "(Decoder, stop, Value) parser \<Rightarrow> nat \<Rightarrow> Value list \<Rightarrow> (Decoder, stop, Value) parser" where
  "decode_items item 0 items = retp (Array items)"
| "decode_items item (Suc n) items = bindp item (\<lambda>v. decode_items item n (items @ [v]))"

primrec decode_items_indefinite ::
    "(Decoder, stop, Value) parser \<Rightarrow> nat \<Rightarrow> Value list \<Rightarrow> (Decoder, stop, Value) parser" where
  "decode_items_indefinite item 0 items = failp (\<lambda>_. OutOfFuel)"
| "decode_items_indefinite item (Suc fuel) items =
     bindp at_break (\<lambda>stop.
       if stop then retp (Array items)
       else bindp item (\<lambda>v. decode_items_indefinite item fuel (items @ [v])))"

definition decode_array ::
    "nat \<Rightarrow> DecodeOptions \<Rightarrow> (Decoder, stop, Value) parser \<Rightarrow> nat \<Rightarrow> u8 \<Rightarrow> (Decoder, stop, Value) parser" where
  "decode_array cap opts item fuel ai =
     bindp (read_len 4 ai) (\<lambda>len.
       case len of
         Some (n, _) \<Rightarrow>
           if unat n > cap then failp (\<lambda>_. CapacityPanic) else decode_items item (unat n) []
       | None \<Rightarrow>
           if reject_indefinite opts then failp (\<lambda>_. Fail IndefiniteNotAllowed)
           else decode_items_indefinite item fuel [])"

text \<open>The number of iterations so far, \<open>count\<close> in the source, is the length of \<open>pairs\<close>.\<close>

primrec decode_map_body ::
    "DecodeOptions \<Rightarrow> (Decoder, stop, Value) parser \<Rightarrow> nat \<Rightarrow> nat \<Rightarrow> bool \<Rightarrow> (Value \<times> Value) list \<Rightarrow>
      (Decoder, stop, Value) parser" where
  "decode_map_body opts item 0 n indefinite pairs = failp (\<lambda>_. OutOfFuel)"
| "decode_map_body opts item (Suc fuel) n indefinite pairs =
     bindp (if indefinite then at_break else retp (length pairs \<ge> n)) (\<lambda>stop.
       if stop then retp (Map pairs)
       else
         bindp item (\<lambda>key.
           bindp item (\<lambda>val.
             bindp (liftp (check_key opts pairs key)) (\<lambda>_.
               decode_map_body opts item fuel n indefinite (pairs @ [(key, val)])))))"

definition decode_map ::
    "DecodeOptions \<Rightarrow> (Decoder, stop, Value) parser \<Rightarrow> nat \<Rightarrow> u8 \<Rightarrow> (Decoder, stop, Value) parser" where
  "decode_map opts item fuel ai =
     bindp (read_len 5 ai) (\<lambda>len.
       case len of
         Some (n, _) \<Rightarrow> decode_map_body opts item fuel (unat n) False []
       | None \<Rightarrow>
           if reject_indefinite opts then failp (\<lambda>_. Fail IndefiniteNotAllowed)
           else decode_map_body opts item fuel (2 ^ 64 - 1) True [])"

definition decode_tag :: "(Decoder, stop, Value) parser \<Rightarrow> u8 \<Rightarrow> (Decoder, stop, Value) parser" where
  "decode_tag item ai =
     bindp (read_definite 6 ai (push_bit 5 6 OR ai)) (\<lambda>(tag, _).
       bindp item (\<lambda>inner. retp (collapse_tag tag inner)))"

primrec decode_value :: "nat \<Rightarrow> DecodeOptions \<Rightarrow> nat \<Rightarrow> (Decoder, stop, Value) parser" where
  "decode_value cap opts 0 = failp (\<lambda>_. OutOfFuel)"
| "decode_value cap opts (Suc fuel) =
     bindp dec_read_u8 (\<lambda>b.
       let major = drop_bit 5 b; ai = b AND 0x1f; item = decode_value cap opts fuel in
       if major = 0 \<or> major = 1 then
         bindp (read_definite major ai b) (\<lambda>(len, nbytes).
           bindp (if d_canonical opts then liftp (check_shortest_int len nbytes) else retp ()) (\<lambda>_.
             retp (Integer (if major = 0 then uint len else - 1 - uint len))))
       else if major = 2 then decode_bytes opts fuel ai False
       else if major = 3 then decode_bytes opts fuel ai True
       else if major = 4 then decode_array cap opts item fuel ai
       else if major = 5 then decode_map opts item fuel ai
       else if major = 6 then decode_tag item ai
       else if major = 7 then decode_simple ai
       else failp (\<lambda>_. Fail (InvalidInitialByte b)))"

text \<open>The free function \<open>decode_value(data, opts)\<close>, with fuel for the length of its input.\<close>

definition decode_value_slice :: "nat \<Rightarrow> bytes \<Rightarrow> DecodeOptions \<Rightarrow> stop + Value" where
  "decode_value_slice cap bs opts =
     res_bind (decode_value cap opts (length bs + 1) (Decoder_new bs)) (\<lambda>(v, d).
       if pos d \<noteq> length bs \<and> d_canonical opts then Inl (Fail (InvalidInitialByte 0)) else Inr v)"

end
