(* ===== verification/Cbor_Roundtrip.thy ===== *)
theory Cbor_Roundtrip
  imports Cbor_Decoder
begin

unbundle bit_operations_syntax

text \<open>
  Decoding inverts encoding. The decoder interprets the \<open>byte_reader\<close> interface; the lemmas say that
  decoding any input that starts with an encoding returns the encoded value, with map entries
  in the order the encoder wrote them, and consumes exactly the encoding.
\<close>

section \<open>The cursor as a byte reader\<close>

definition dec_rest :: "Decoder \<Rightarrow> bytes" where
  "dec_rest d = drop (pos d) (data d)"

definition dec_adv :: "nat \<Rightarrow> Decoder \<Rightarrow> Decoder" where
  "dec_adv n d = d\<lparr>pos := pos d + n\<rparr>"

lemma dec_rest_new [simp]: "dec_rest (Decoder_new bs) = bs"
  by (simp add: dec_rest_def Decoder_new_def)

interpretation cbor: byte_reader dec_rest dec_adv read_exact "\<lambda>_ _. Fail UnexpectedEof"
  by unfold_locales
    (auto simp: dec_rest_def dec_adv_def read_exact_def dec_remaining_def add.commute)

lemma dec_read_u8_rest:
  "dec_read_u8 d = (case dec_rest d of [] \<Rightarrow> Inl (Fail UnexpectedEof) | b # _ \<Rightarrow> Inr (b, dec_adv 1 d))"
proof (cases "pos d < length (data d)")
  case True
  then have "dec_rest d = data d ! pos d # drop (Suc (pos d)) (data d)"
    by (simp add: dec_rest_def Cons_nth_drop_Suc)
  with True show ?thesis by (simp add: dec_read_u8_def dec_adv_def)
next
  case False
  then show ?thesis by (simp add: dec_read_u8_def dec_rest_def)
qed

lemma cbor_parses_u8 [parse_intros]: "cbor.parses dec_read_u8 [b] b"
  by (rule cbor.parsesI) (simp add: dec_read_u8_rest)

section \<open>Initial bytes\<close>

definition ai_of :: "u64 \<Rightarrow> u8" where
  "ai_of v = (if v < 24 then ucast v else if v < 0x100 then 24 else if v < 0x10000 then 25
              else if v < 0x100000000 then 26 else 27)"

definition len_bytes :: "u64 \<Rightarrow> bytes" where
  "len_bytes v = (if v < 24 then [] else if v < 0x100 then [ucast v] else if v < 0x10000 then be16 (ucast v)
                  else if v < 0x100000000 then be32 (ucast v) else be64 v)"

lemma write_type_number_split: "write_type_number m v = (push_bit 5 m OR ai_of v) # len_bytes v"
  by (simp add: write_type_number_def ai_of_def len_bytes_def Let_def)

lemma length_write_type_number: "0 < length (write_type_number m v)"
  by (simp add: write_type_number_split)

lemma head_major:
  fixes m a :: u8
  assumes "m < 8" and "a < 32"
  shows "drop_bit 5 (push_bit 5 m OR a) = m" and "(push_bit 5 m OR a) AND 0x1f = a"
proof -
  have a: "\<not> bit a n" if "5 \<le> n" for n
    using assms(2) that by (intro high_bits_clear [of a 5]) (simp_all add: word_less_nat_alt)
  have m: "\<not> bit m n" if "3 \<le> n" for n
    using assms(1) that by (intro high_bits_clear [of m 3]) (simp_all add: word_less_nat_alt)
  show "drop_bit 5 (push_bit 5 m OR a) = m"
  proof (rule bit_word_eqI)
    fix n
    show "bit (drop_bit 5 (push_bit 5 m OR a)) n = bit m n"
      using a [of "5 + n"] m [of n] by (cases "n < 3") (simp_all add: bit_simps)
  qed
  have "(push_bit 5 m OR a) AND mask 5 = a"
    using a by (intro bit_word_eqI) (auto simp: bit_simps, meson not_le)
  then show "(push_bit 5 m OR a) AND 0x1f = a" by (simp add: mask_eq_exp_minus_1)
qed

lemma ai_of_less: "ai_of v < 28"
proof -
  have "unat (ucast v :: u8) < 24" if "v < 24"
    using that by (simp add: word_less_nat_alt unsigned_ucast_eq take_bit_nat_eq_self)
  then show ?thesis by (auto simp: ai_of_def word_less_nat_alt)
qed

definition nbytes_of :: "u64 \<Rightarrow> u8" where
  "nbytes_of v = (if v < 24 then 0 else if v < 0x100 then 1 else if v < 0x10000 then 2
                  else if v < 0x100000000 then 4 else 8)"

lemma check_shortest_minimal: "check_shortest_int v (nbytes_of v) = Inr ()"
proof -
  have "v \<le> 0xff \<longleftrightarrow> v < 0x100" "v \<le> 0xffff \<longleftrightarrow> v < 0x10000" "v \<le> 0xffffffff \<longleftrightarrow> v < 0x100000000"
    by (auto simp: word_le_nat_alt word_less_nat_alt)
  then show ?thesis by (simp add: check_shortest_int_def nbytes_of_def Let_def)
qed

lemma ucast_small:
  fixes v :: u64
  shows "unat v < 2 ^ LENGTH('a) \<Longrightarrow> ucast (ucast v :: 'a::len word) = v"
  by (rule unsigned_word_eqI) (simp add: unsigned_ucast_eq take_bit_small)

lemma from_be_be16_ucast: "unat (v :: u64) < 2 ^ 16 \<Longrightarrow> (from_be (be16 (ucast v)) :: u64) = v"
  using ucast_small [where 'a = 16, of v] by (simp add: from_be_def be16_def be_val_to_be unsigned_ucast_eq take_bit_nat_eq_self)

lemma from_be_be32_ucast: "unat (v :: u64) < 2 ^ 32 \<Longrightarrow> (from_be (be32 (ucast v)) :: u64) = v"
  by (simp add: from_be_def be32_def be_val_to_be unsigned_ucast_eq take_bit_nat_eq_self)

lemma shift_or_two: "length b = 2 \<Longrightarrow> push_bit 8 (ucast (b ! 0)) OR ucast (b ! 1) = (shift_or b :: u64)"
  by (auto simp: shift_or_def numeral_2_eq_2 length_Suc_conv)

lemma cbor_parses_len: "cbor.parses (read_len major (ai_of v)) (len_bytes v) (Some (v, nbytes_of v))"
proof -
  consider "v < 24" | "\<not> v < 24" "v < 0x100" | "\<not> v < 0x100" "v < 0x10000"
    | "\<not> v < 0x10000" "v < 0x100000000" | "\<not> v < 0x100000000" by blast
  then show ?thesis
  proof cases
    case 1
    then have "unat v < 24" by (simp add: word_less_nat_alt)
    then have "ucast (ucast v :: u8) = v" "(ucast v :: u8) \<le> 23"
      using ucast_small [where 'a = 8, of v]
      by (simp_all add: word_le_nat_alt unsigned_ucast_eq take_bit_nat_eq_self take_bit_small)
    with 1 show ?thesis
      by (simp add: read_len_def ai_of_def len_bytes_def nbytes_of_def cbor.parses_ret)
  next
    case 2
    then have "unat v < 2 ^ LENGTH(8)" by (simp add: word_less_nat_alt)
    then have "ucast (ucast v :: u8) = v" by (rule ucast_small)
    with 2 have "cbor.parses (bindp dec_read_u8 (\<lambda>v. retp (Some (ucast v, 1)))) [ucast v] (Some (v, 1))"
      by (intro cbor.parses_bind_ret [OF cbor_parses_u8]) simp
    with 2 show ?thesis by (simp add: read_len_def ai_of_def len_bytes_def nbytes_of_def)
  next
    case 3
    then have "unat v < 2 ^ 16" by (simp add: word_less_nat_alt)
    then have "cbor.parses (bindp (read_exact 2) (\<lambda>b. retp (Some (push_bit 8 (ucast (b ! 0)) OR ucast (b ! 1), 2))))
        (be16 (ucast v)) (Some (v, 2))"
      by (intro cbor.parses_bind_ret [OF cbor.parses_rd])
        (simp_all add: shift_or_two shift_or_from_be from_be_be16_ucast del: One_nat_def)
    moreover have "\<not> v < 24" using 3 by (auto simp: word_less_nat_alt)
    ultimately show ?thesis using 3 by (simp add: read_len_def ai_of_def len_bytes_def nbytes_of_def)
  next
    case 4
    then have "unat v < 2 ^ 32" by (simp add: word_less_nat_alt)
    then have "cbor.parses (bindp (read_exact 4) (\<lambda>b. retp (Some (shift_or b, 4)))) (be32 (ucast v)) (Some (v, 4))"
      by (intro cbor.parses_bind_ret [OF cbor.parses_rd]) (simp_all add: shift_or_from_be from_be_be32_ucast)
    moreover have "\<not> v < 24" "\<not> v < 0x100" using 4 by (auto simp: word_less_nat_alt)
    ultimately show ?thesis using 4 by (simp add: read_len_def ai_of_def len_bytes_def nbytes_of_def)
  next
    case 5
    have "cbor.parses (bindp (read_exact 8) (\<lambda>b. retp (Some (shift_or b, 8)))) (be64 v) (Some (v, 8))"
      by (intro cbor.parses_bind_ret [OF cbor.parses_rd]) (simp_all add: shift_or_from_be)
    moreover have "\<not> v < 24" "\<not> v < 0x100" "\<not> v < 0x10000" using 5 by (auto simp: word_less_nat_alt)
    ultimately show ?thesis using 5 by (simp add: read_len_def ai_of_def len_bytes_def nbytes_of_def)
  qed
qed

lemma cbor_parses_definite: "cbor.parses (read_definite major (ai_of v) b) (len_bytes v) (v, nbytes_of v)"
  using cbor.parses_bind [OF cbor_parses_len,
      where cs = "[]" and f = "\<lambda>m. liftp (ok_or m (Fail (InvalidInitialByte b)))" and y = "(v, nbytes_of v)"]
  by (simp add: read_definite_def cbor.parses_lift)

section \<open>Scalars\<close>

declare decode_value.simps [simp del]

text \<open>The first byte selects the branch; the argument \<open>bs\<close> is what the branch reads.\<close>

lemma parses_branch:
  assumes "m < 8" and "a < 32"
    and "cbor.parses
      (let item = decode_value cap opts fuel; b = push_bit 5 m OR a in
       if m = 0 \<or> m = 1 then
         bindp (read_definite m a b) (\<lambda>(len, nbytes).
           bindp (if d_canonical opts then liftp (check_shortest_int len nbytes) else retp ()) (\<lambda>_.
             retp (Integer (if m = 0 then uint len else - 1 - uint len))))
       else if m = 2 then decode_bytes opts fuel a False
       else if m = 3 then decode_bytes opts fuel a True
       else if m = 4 then decode_array cap opts item fuel a
       else if m = 5 then decode_map opts item fuel a
       else if m = 6 then decode_tag item a
       else if m = 7 then decode_simple a
       else failp (\<lambda>_. Fail (InvalidInitialByte b))) bs x"
  shows "cbor.parses (decode_value cap opts (Suc fuel)) ((push_bit 5 m OR a) # bs) x"
proof -
  have "cbor.parses (decode_value cap opts (Suc fuel)) ([push_bit 5 m OR a] @ bs) x"
    unfolding decode_value.simps
    by (rule cbor.parses_bind [OF cbor_parses_u8])
      (use assms(3) in \<open>simp only: head_major [OF assms(1,2)] Let_def\<close>)
  then show ?thesis by simp
qed

lemma ai_of_32: "ai_of v < 32"
  using ai_of_less [of v] by (simp add: word_less_nat_alt)

lemma parses_number:
  assumes "major = 0 \<or> major = 1" and "x = Integer (if major = 0 then uint v else - 1 - uint v)"
  shows "cbor.parses (decode_value cap opts (Suc fuel)) (write_type_number major v) x"
proof -
  have "cbor.parses (bindp (read_definite major (ai_of v) b) (\<lambda>(len, nbytes).
           bindp (if d_canonical opts then liftp (check_shortest_int len nbytes) else retp ()) (\<lambda>_.
             retp (Integer (if major = 0 then uint len else - 1 - uint len))))) (len_bytes v @ []) x" for b
    by (rule cbor.parses_bind [OF cbor_parses_definite])
      (use assms(2) in \<open>auto intro!: cbor.parses_bind_ret cbor.parses_lift cbor.parses_ret simp: check_shortest_minimal\<close>)
  then show ?thesis
    using assms(1) unfolding write_type_number_split
    by (intro parses_branch ai_of_32) (auto simp: Let_def)
qed

lemma parses_string:
  assumes "length s < 2 ^ 64" and "t \<Longrightarrow> utf8_valid s" and "m = (if t then 3 else 2)" and "x = (if t then Text s else Bytes s)"
  shows "cbor.parses (decode_value cap opts (Suc fuel)) (write_type_number m (word_of_nat (length s)) @ s) x"
proof -
  let ?n = "word_of_nat (length s) :: u64"
  have n: "unat ?n = length s" using assms(1) by (simp add: unat_of_nat)
  have "cbor.parses (bindp (read_exact (unat ?n)) (\<lambda>bs. liftp (materialize_string bs t))) (s @ []) x"
    by (rule cbor.parses_bind [OF cbor.parses_rd])
      (use n assms in \<open>auto intro!: cbor.parses_lift simp: materialize_string_def\<close>)
  then have "cbor.parses (decode_bytes opts fuel (ai_of ?n) t) (len_bytes ?n @ s) x"
    unfolding decode_bytes_def by (intro cbor.parses_bind [OF cbor_parses_len]) simp
  then show ?thesis
    using assms(3) unfolding write_type_number_split append_Cons
    by (intro parses_branch ai_of_32) (auto simp: Let_def)
qed

lemma parses_tag:
  assumes "cbor.parses (decode_value cap opts fuel) bs inner"
  shows "cbor.parses (decode_value cap opts (Suc fuel)) (write_type_number 6 t @ bs) (collapse_tag t inner)"
proof -
  have "cbor.parses (bindp (decode_value cap opts fuel) (\<lambda>inner. retp (collapse_tag t inner))) bs (collapse_tag t inner)"
    by (rule cbor.parses_bind_ret [OF assms refl])
  then have "cbor.parses (decode_tag (decode_value cap opts fuel) (ai_of t)) (len_bytes t @ bs) (collapse_tag t inner)"
    unfolding decode_tag_def by (intro cbor.parses_bind [OF cbor_parses_definite]) simp
  then show ?thesis
    unfolding write_type_number_split append_Cons
    by (intro parses_branch ai_of_32) (auto simp: Let_def)
qed

lemma parses_major7:
  "a < 32 \<Longrightarrow> cbor.parses (decode_simple a) bs x \<Longrightarrow> b = push_bit 5 7 OR a \<Longrightarrow>
     cbor.parses (decode_value cap opts (Suc fuel)) (b # bs) x"
  using parses_branch [of 7 a cap opts fuel bs x] by (simp add: Let_def)

lemma parses_simple:
  assumes "s \<le> 19 \<or> 32 \<le> s"
  shows "cbor.parses (decode_value cap opts (Suc fuel)) (encode_simple s) (Simple s)"
proof (cases "s \<le> 19")
  case True
  then have "s < 32" "s \<le> 23" by (simp_all add: word_le_nat_alt word_less_nat_alt)
  with True show ?thesis
    by (auto simp: encode_simple_def decode_simple_def cbor.parses_ret intro!: parses_major7 [of s])
next
  case False
  with assms have s: "32 \<le> s" "\<not> s \<le> 23" "\<not> s \<le> 31" by (auto simp: word_le_nat_alt)
  have "cbor.parses (bindp dec_read_u8 (\<lambda>v. if v \<le> 31 then failp (\<lambda>_. Fail (ReservedSimpleValue v)) else retp (Simple v)))
      ([s] @ []) (Simple s)"
    by (rule cbor.parses_bind [OF cbor_parses_u8]) (use s(3) in \<open>simp add: cbor.parses_ret\<close>)
  with s show ?thesis
    by (auto simp: encode_simple_def decode_simple_def intro!: parses_major7 [of 24])
qed

lemma parses_float:
  assumes "f64_is_nan f \<longrightarrow> f = F64_NAN"
  shows "cbor.parses (decode_value cap opts (Suc fuel)) (encode_float f) (Float f)"
proof -
  have half: "cbor.parses (decode_value cap opts (Suc fuel)) (0xf9 # bs) (Float f)"
    if "length bs = 2" "f16_to_f64 (from_be bs) = f" for bs
  proof -
    have "cbor.parses (decode_simple 25) bs (Float f)"
      using that by (simp add: decode_simple_def cbor.parses_bind_ret [OF cbor.parses_rd])
    then show ?thesis by (rule parses_major7 [rotated]) simp_all
  qed
  have single: "cbor.parses (decode_value cap opts (Suc fuel)) (0xfa # be32 b) (Float f)" if "f32_to_f64 b = f" for b
  proof -
    have "cbor.parses (decode_simple 26) (be32 b) (Float f)"
      using that by (simp add: decode_simple_def cbor.parses_bind_ret [OF cbor.parses_rd] shift_or_from_be)
    then show ?thesis by (rule parses_major7 [rotated]) simp_all
  qed
  have double: "cbor.parses (decode_value cap opts (Suc fuel)) (0xfb # be64 f) (Float f)"
  proof -
    have "cbor.parses (decode_simple 27) (be64 f) (Float f)"
      by (simp add: decode_simple_def cbor.parses_bind_ret [OF cbor.parses_rd] shift_or_from_be)
    then show ?thesis by (rule parses_major7 [rotated]) simp_all
  qed
  have nan: "f16_to_f64 (from_be [0x7e, 0]) = F64_NAN"
    by (simp add: from_be_def f16_to_f64_def Let_def)
  show ?thesis
  proof (cases "f64_is_nan f")
    case True
    with assms half [of "[0x7e, 0]"] nan show ?thesis by (simp add: encode_float_def)
  next
    case notnan: False
    show ?thesis
    proof (cases "f64_eq (f16_to_f64 (f64_to_f16 f)) f")
      case True
      with notnan half [of "be16 (f64_to_f16 f)"] f64_eq_half show ?thesis by (simp add: encode_float_def)
    next
      case False
      then have "f64_eq (f32_to_f64 (f64_to_f32 f)) f \<Longrightarrow> f32_to_f64 (f64_to_f32 f) = f"
        using f64_eq_nonzero zero_uses_half by blast
      with notnan False single [of "f64_to_f32 f"] double show ?thesis
        by (simp add: encode_float_def Let_def)
    qed
  qed
qed

section \<open>Integers\<close>

lemma take_zeros: "k \<le> length (takeWhile (\<lambda>b. b = 0) bs) \<Longrightarrow> replicate k 0 @ drop k bs = bs"
proof (induction bs arbitrary: k)
  case (Cons b bs)
  then show ?case by (cases k) (auto split: if_splits)
qed simp

lemma trim_be_pad:
  assumes "0 < length bs"
  shows "replicate (length bs - length (trim_be bs)) 0 @ trim_be bs = bs" and "length (trim_be bs) \<le> length bs"
proof -
  let ?z = "length (takeWhile (\<lambda>b. b = 0) bs)"
  have z: "?z \<le> length bs" by (rule length_takeWhile_le)
  then have k: "length bs - max (length bs - ?z) 1 \<le> ?z" by simp
  show "length (trim_be bs) \<le> length bs" by (simp add: trim_be_def)
  have "length bs - length (trim_be bs) = length bs - max (length bs - ?z) 1"
    using assms z by (simp add: trim_be_def max_def)
  then show "replicate (length bs - length (trim_be bs)) 0 @ trim_be bs = bs"
    using take_zeros [OF k] by (simp add: trim_be_def Let_def)
qed

lemma i128_wrap_id: "- (2 ^ 127) \<le> i \<Longrightarrow> i < 2 ^ 127 \<Longrightarrow> i128_wrap i = i"
  by (simp add: i128_wrap_def)

lemma i128_negate:
  assumes "- (2 ^ 127) \<le> i" and "i < 0"
  shows "i128_wrap (i128_wrap (- i) - 1) = - i - 1"
proof (cases "i = - (2 ^ 127)")
  case True
  then show ?thesis by (simp add: i128_wrap_def)
next
  case False
  with assms have "i128_wrap (- i) = - i" by (intro i128_wrap_id) auto
  moreover have "i128_wrap (- i - 1) = - i - 1" using assms by (intro i128_wrap_id) auto
  ultimately show ?thesis by simp
qed

lemma bignum_trim:
  assumes "n < 2 ^ 127" and "t = 2 \<or> t = 3"
  shows "collapse_tag t (Bytes (trim_be (to_be 16 n))) = Integer (if t = 2 then int n else - 1 - int n)"
proof -
  let ?b = "trim_be (to_be 16 n)"
  have len: "length ?b \<le> 16" and pad: "replicate (16 - length ?b) 0 @ ?b = to_be 16 n"
    using trim_be_pad [of "to_be 16 n"] by simp_all
  have "be_val (to_be 16 n) = n" using assms(1) by (simp add: be_val_to_be)
  moreover have "int n < 2 ^ 127" using assms(1) by (metis of_nat_less_iff of_nat_numeral of_nat_power)
  ultimately have "i128_from_be (to_be 16 n) = int n" by (simp add: i128_from_be_def i128_wrap_id)
  with assms(2) len pad show ?thesis by (auto simp: collapse_tag_def bignum_to_i128_def Let_def)
qed

lemma parses_bignum:
  assumes "n < 2 ^ 127" and "t = 2 \<or> t = 3" and "x = Integer (if t = 2 then int n else - 1 - int n)"
  shows "cbor.parses (decode_value cap opts (Suc (Suc fuel)))
    (write_type_number 6 t @ write_type_number 2 (word_of_nat (length (trim_be (to_be 16 n)))) @ trim_be (to_be 16 n)) x"
proof -
  have "length (trim_be (to_be 16 n)) \<le> 16" using trim_be_pad(2) [of "to_be 16 n"] by simp
  then have "length (trim_be (to_be 16 n)) < 2 ^ 64" by simp
  then have "cbor.parses (decode_value cap opts (Suc fuel))
      (write_type_number 2 (word_of_nat (length (trim_be (to_be 16 n)))) @ trim_be (to_be 16 n))
      (Bytes (trim_be (to_be 16 n)))"
    by (rule parses_string [where t = False]) simp_all
  from parses_tag [OF this, of t] show ?thesis
    unfolding assms(3) bignum_trim [OF assms(1,2)] .
qed

lemma parses_integer:
  assumes "- (2 ^ 127) \<le> i" and "i < 2 ^ 127"
  shows "cbor.parses (decode_value cap opts (Suc (Suc fuel))) (encode_integer i) (Integer i)"
proof (cases "0 \<le> i")
  case True
  have "nat i < 2 ^ 127" using assms(2) True by (simp add: nat_less_iff)
  with True show ?thesis
    by (auto simp: encode_integer_def Let_def uint_word_of_int intro!: parses_number parses_bignum)
next
  case False
  define n where "n = - i - 1"
  have n: "0 \<le> n" "n < 2 ^ 127" "i = - 1 - n" using False assms by (auto simp: n_def)
  have w: "i128_wrap (i128_wrap (- i) - 1) = n" using False assms i128_negate by (simp add: n_def)
  have m: "nat (n mod 2 ^ 128) = nat n" "nat n < 2 ^ 127" using n by (simp_all add: nat_less_iff)
  show ?thesis
    using False n m unfolding encode_integer_def w
    by (auto simp: Let_def uint_word_of_int intro!: parses_number parses_bignum)
qed

section \<open>Data items\<close>

text \<open>The order in which the encoder writes the entries of a map, and the value a decoder sees.\<close>

definition ordered_pairs :: "EncodeOptions \<Rightarrow> (Value \<times> Value) list \<Rightarrow> (Value \<times> Value) list" where
  "ordered_pairs opts ps = (if e_canonical opts then sort_key (\<lambda>p. canonical_key (fst p)) ps else ps)"

lemma ordered_pairs_simps [simp]:
  "set (ordered_pairs opts ps) = set ps" "length (ordered_pairs opts ps) = length ps"
  by (simp_all add: ordered_pairs_def)

lemma encode_map:
  "encode_value opts (Map ps) = write_type_number 5 (word_of_nat (length ps)) @
     concat (map (\<lambda>p. encode_value opts (fst p) @ encode_value opts (snd p)) (ordered_pairs opts ps))"
  by (simp add: encode_value.simps(10) ordered_pairs_def canonical_key_def encode_value_to_vec_def Let_def)

function normal :: "EncodeOptions \<Rightarrow> Value \<Rightarrow> Value" where
  "normal opts (Array vs) = Array (map (normal opts) vs)"
| "normal opts (Map ps) = Map (map (\<lambda>p. (normal opts (fst p), normal opts (snd p))) (ordered_pairs opts ps))"
| "normal opts (Tag t v) = Tag t (normal opts v)"
| "normal opts (Integer i) = Integer i"
| "normal opts (Float f) = Float f"
| "normal opts (Bool b) = Bool b"
| "normal opts Null = Null"
| "normal opts Undefined = Undefined"
| "normal opts (Simple s) = Simple s"
| "normal opts (Bytes b) = Bytes b"
| "normal opts (Text t) = Text t"
  by pat_completeness auto

termination
  by (relation "measure (size \<circ> snd)")
    (auto simp: less_Suc_eq_le size_pair_in dest: size_list_estimation')

text \<open>The checks on map keys succeed for the entries in this order.\<close>

fun keys_accepted :: "DecodeOptions \<Rightarrow> (Value \<times> Value) list \<Rightarrow> (Value \<times> Value) list \<Rightarrow> bool" where
  "keys_accepted dopts acc [] = True"
| "keys_accepted dopts acc (p # ps) = (check_key dopts acc (fst p) = Inr () \<and> keys_accepted dopts (acc @ [p]) ps)"

fun small_bytes :: "Value \<Rightarrow> bool" where
  "small_bytes (Bytes b) = (length b \<le> 16)"
| "small_bytes _ = False"

text \<open>Values that survive the trip: integers of 128 bits, the one NaN the format keeps, assigned
  simple values, valid text, lengths of 64 bits, and no bignum tag on a byte string that the decoder
  would read as an integer.\<close>

function wf_value :: "nat \<Rightarrow> Value \<Rightarrow> bool" where
  "wf_value cap (Array vs) = (length vs \<le> cap \<and> length vs < 2 ^ 64 \<and> list_all (wf_value cap) vs)"
| "wf_value cap (Map ps) = (length ps < 2 ^ 64 \<and> list_all (\<lambda>p. wf_value cap (fst p) \<and> wf_value cap (snd p)) ps)"
| "wf_value cap (Tag t v) = (wf_value cap v \<and> \<not> ((t = 2 \<or> t = 3) \<and> small_bytes v))"
| "wf_value cap (Integer i) = (- (2 ^ 127) \<le> i \<and> i < 2 ^ 127)"
| "wf_value cap (Float f) = (\<not> f64_is_nan f \<or> f = F64_NAN)"
| "wf_value cap (Bool b) = True"
| "wf_value cap Null = True"
| "wf_value cap Undefined = True"
| "wf_value cap (Simple s) = (s \<le> 19 \<or> 32 \<le> s)"
| "wf_value cap (Bytes b) = (length b < 2 ^ 64)"
| "wf_value cap (Text t) = (length t < 2 ^ 64 \<and> utf8_valid t)"
  by pat_completeness auto

termination
  by (relation "measure (size \<circ> snd)")
    (auto simp: less_Suc_eq_le size_pair_in dest: size_list_estimation')

text \<open>Every map of the value passes the key checks of the decoder.\<close>

function keys_ok :: "DecodeOptions \<Rightarrow> EncodeOptions \<Rightarrow> Value \<Rightarrow> bool" where
  "keys_ok dopts opts (Array vs) = list_all (keys_ok dopts opts) vs"
| "keys_ok dopts opts (Map ps) =
     (list_all (\<lambda>p. keys_ok dopts opts (fst p) \<and> keys_ok dopts opts (snd p)) ps \<and>
      keys_accepted dopts [] (map (\<lambda>p. (normal opts (fst p), normal opts (snd p))) (ordered_pairs opts ps)))"
| "keys_ok dopts opts (Tag t v) = keys_ok dopts opts v"
| "keys_ok dopts opts (Integer i) = True"
| "keys_ok dopts opts (Float f) = True"
| "keys_ok dopts opts (Bool b) = True"
| "keys_ok dopts opts Null = True"
| "keys_ok dopts opts Undefined = True"
| "keys_ok dopts opts (Simple s) = True"
| "keys_ok dopts opts (Bytes b) = True"
| "keys_ok dopts opts (Text t) = True"
  by pat_completeness auto

termination
  by (relation "measure (\<lambda>(_, _, v). size v)")
    (auto simp: less_Suc_eq_le size_pair_in dest: size_list_estimation')

lemma parses_items:
  assumes "\<And>v. v \<in> set vs \<Longrightarrow> cbor.parses item (enc v) (g v)"
  shows "cbor.parses (decode_items item (length vs) acc) (concat (map enc vs)) (Array (acc @ map g vs))"
  using assms
proof (induction vs arbitrary: acc)
  case (Cons v vs)
  then have "cbor.parses (decode_items item (length vs) (acc @ [g v])) (concat (map enc vs)) (Array ((acc @ [g v]) @ map g vs))"
    by (intro Cons.IH) simp
  with Cons.prems [of v] show ?case
    by (auto intro!: cbor.parses_bind)
qed (simp add: cbor.parses_ret)

lemma parses_map_body:
  assumes "\<And>p. p \<in> set ps \<Longrightarrow> cbor.parses item (enc (fst p)) (g (fst p)) \<and> cbor.parses item (enc (snd p)) (g (snd p))"
    and "keys_accepted dopts acc (map (\<lambda>p. (g (fst p), g (snd p))) ps)" and "length ps < fuel"
    and "n = length acc + length ps"
  shows "cbor.parses (decode_map_body dopts item fuel n False acc)
    (concat (map (\<lambda>p. enc (fst p) @ enc (snd p)) ps)) (Map (acc @ map (\<lambda>p. (g (fst p), g (snd p))) ps))"
  using assms
proof (induction ps arbitrary: acc fuel)
  case Nil
  then obtain f where "fuel = Suc f" by (cases fuel) auto
  with Nil show ?case by (simp add: bindp_def cbor.parses_def cbor.adv_0)
next
  case (Cons p ps)
  then obtain f where f: "fuel = Suc f" by (cases fuel) auto
  let ?q = "(g (fst p), g (snd p))"
  have IH: "cbor.parses (decode_map_body dopts item f n False (acc @ [?q])) (concat (map (\<lambda>p. enc (fst p) @ enc (snd p)) ps))
      (Map ((acc @ [?q]) @ map (\<lambda>p. (g (fst p), g (snd p))) ps))"
    using Cons.prems f by (intro Cons.IH) auto
  have chk: "check_key dopts acc (g (fst p)) = Inr ()" using Cons.prems(2) by simp
  have "\<not> n \<le> length acc" using Cons.prems(4) by simp
  moreover have "cbor.parses (bindp item (\<lambda>key. bindp item (\<lambda>val. bindp (liftp (check_key dopts acc key)) (\<lambda>_.
        decode_map_body dopts item f n False (acc @ [(key, val)])))))
      (enc (fst p) @ enc (snd p) @ [] @ concat (map (\<lambda>p. enc (fst p) @ enc (snd p)) ps))
      (Map ((acc @ [?q]) @ map (\<lambda>p. (g (fst p), g (snd p))) ps))"
    using Cons.prems(1) [of p] IH chk by (intro cbor.parses_bind cbor.parses_lift) auto
  ultimately show ?case
    by (simp add: f bindp_def cbor.parses_def)
qed

lemma length_encode_in_concat: "v \<in> set vs \<Longrightarrow> length (enc v) \<le> length (concat (map enc vs))"
  by (induction vs) auto

lemma encode_value_nonempty: "0 < length (encode_value opts v)"
  by (cases v)
    (auto simp: encode_integer_def encode_float_def encode_simple_def encode_map write_type_number_split Let_def)

lemma length_pairs_le: "2 * length ps \<le> length (concat (map (\<lambda>p. encode_value opts (fst p) @ encode_value opts (snd p)) ps))"
proof (induction ps)
  case (Cons p ps)
  then show ?case using encode_value_nonempty [of opts "fst p"] encode_value_nonempty [of opts "snd p"]
    by (simp del: length_greater_0_conv)
qed simp

lemma collapse_tag_keep: "\<not> ((t = 2 \<or> t = 3) \<and> small_bytes v) \<Longrightarrow> collapse_tag t (normal opts v) = Tag t (normal opts v)"
  by (cases v) (auto simp: collapse_tag_def bignum_to_i128_def)

lemma parses_array:
  assumes "\<And>v. v \<in> set vs \<Longrightarrow> cbor.parses (decode_value cap dopts fuel) (enc v) (g v)"
    and "length vs \<le> cap" and "length vs < 2 ^ 64"
  shows "cbor.parses (decode_value cap dopts (Suc fuel))
    (write_type_number 4 (word_of_nat (length vs)) @ concat (map enc vs)) (Array (map g vs))"
proof -
  let ?n = "word_of_nat (length vs) :: u64"
  have n: "unat ?n = length vs" using assms(3) by (simp add: unat_of_nat)
  have "cbor.parses (decode_items (decode_value cap dopts fuel) (unat ?n) []) (concat (map enc vs)) (Array (map g vs))"
    using parses_items [OF assms(1), where acc = "[]"] n by simp
  then have "cbor.parses (decode_array cap dopts (decode_value cap dopts fuel) fuel (ai_of ?n))
      (len_bytes ?n @ concat (map enc vs)) (Array (map g vs))"
    unfolding decode_array_def using assms(2) n by (intro cbor.parses_bind [OF cbor_parses_len]) simp
  then show ?thesis
    unfolding write_type_number_split append_Cons by (intro parses_branch ai_of_32) (auto simp: Let_def)
qed

lemma parses_map:
  assumes "\<And>p. p \<in> set ps \<Longrightarrow> cbor.parses (decode_value cap dopts fuel) (enc (fst p)) (g (fst p)) \<and>
      cbor.parses (decode_value cap dopts fuel) (enc (snd p)) (g (snd p))"
    and "keys_accepted dopts [] (map (\<lambda>p. (g (fst p), g (snd p))) ps)" and "length ps < fuel" and "length ps < 2 ^ 64"
  shows "cbor.parses (decode_value cap dopts (Suc fuel))
    (write_type_number 5 (word_of_nat (length ps)) @ concat (map (\<lambda>p. enc (fst p) @ enc (snd p)) ps))
    (Map (map (\<lambda>p. (g (fst p), g (snd p))) ps))"
proof -
  let ?n = "word_of_nat (length ps) :: u64"
  have n: "unat ?n = length ps" using assms(4) by (simp add: unat_of_nat)
  have "cbor.parses (decode_map_body dopts (decode_value cap dopts fuel) fuel (unat ?n) False [])
      (concat (map (\<lambda>p. enc (fst p) @ enc (snd p)) ps)) (Map (map (\<lambda>p. (g (fst p), g (snd p))) ps))"
    using parses_map_body [OF assms(1,2,3), where n = "unat ?n"] n by simp
  then have "cbor.parses (decode_map dopts (decode_value cap dopts fuel) fuel (ai_of ?n))
      (len_bytes ?n @ concat (map (\<lambda>p. enc (fst p) @ enc (snd p)) ps)) (Map (map (\<lambda>p. (g (fst p), g (snd p))) ps))"
    unfolding decode_map_def by (intro cbor.parses_bind [OF cbor_parses_len]) simp
  then show ?thesis
    unfolding write_type_number_split append_Cons by (intro parses_branch ai_of_32) (auto simp: Let_def)
qed

lemma parses_constant:
  "cbor.parses (decode_value cap dopts (Suc fuel)) [if b then 0xf5 else 0xf4] (Bool b)"
  "cbor.parses (decode_value cap dopts (Suc fuel)) [0xf6] Null"
  "cbor.parses (decode_value cap dopts (Suc fuel)) [0xf7] Undefined"
  by (rule parses_major7 [of "if b then 21 else 20"] parses_major7 [of 22] parses_major7 [of 23];
      simp add: decode_simple_def cbor.parses_ret)+

lemma parses_encoded:
  assumes "wf_value cap v \<and> keys_ok dopts opts v" and "length (encode_value opts v) < fuel"
  shows "cbor.parses (decode_value cap dopts fuel) (encode_value opts v) (normal opts v)"
  using assms
proof (induction v arbitrary: fuel)
  case (Integer i)
  have "0 < length (encode_integer i)" using encode_value_nonempty [of opts "Integer i"] by simp
  then obtain f where "fuel = Suc (Suc f)" using Integer.prems(2) by (cases fuel; cases "fuel - 1") auto
  with Integer show ?case by (simp add: parses_integer)
next
  case (Array vs)
  then obtain f where f: "fuel = Suc f" by (cases fuel) auto
  have "length (encode_value opts v) < f" if "v \<in> set vs" for v
    using length_encode_in_concat [OF that, of "encode_value opts"] Array.prems(2) f
      length_write_type_number [of 4 "word_of_nat (length vs)"] by (simp del: length_greater_0_conv)
  then show ?case
    using Array f by (auto simp: list_all_iff intro!: parses_array)
next
  case (Map ps)
  then obtain f where f: "fuel = Suc f" by (cases fuel) auto
  let ?c = "concat (map (\<lambda>p. encode_value opts (fst p) @ encode_value opts (snd p)) (ordered_pairs opts ps))"
  have len: "length ?c < f" using Map.prems(2) f length_write_type_number [of 5 "word_of_nat (length ps)"]
    by (simp add: encode_map del: length_greater_0_conv)
  have small: "length (encode_value opts (fst p)) < f \<and> length (encode_value opts (snd p)) < f" if "p \<in> set ps" for p
    using length_encode_in_concat [of p "ordered_pairs opts ps" "\<lambda>p. encode_value opts (fst p) @ encode_value opts (snd p)"]
      that len by simp
  have "length (ordered_pairs opts ps) < f" using length_pairs_le [of "ordered_pairs opts ps" opts] len by simp
  moreover have "cbor.parses (decode_value cap dopts f) (encode_value opts (fst p)) (normal opts (fst p)) \<and>
      cbor.parses (decode_value cap dopts f) (encode_value opts (snd p)) (normal opts (snd p))" if "p \<in> set (ordered_pairs opts ps)" for p
    using that small Map.prems(1) by (intro conjI Map.IH [of p]) (auto simp: list_all_iff prod_set_defs)
  ultimately show ?case
    using Map.prems(1) parses_map [of "ordered_pairs opts ps" cap dopts f "encode_value opts" "normal opts"]
    by (simp add: f encode_map)
next
  case (Tag t v)
  then obtain f where f: "fuel = Suc f" by (cases fuel) auto
  have "cbor.parses (decode_value cap dopts f) (encode_value opts v) (normal opts v)"
    using Tag f length_write_type_number [of 6 t] by (intro Tag.IH) (simp_all del: length_greater_0_conv)
  from parses_tag [OF this, of t] Tag.prems(1) show ?case
    by (simp add: f collapse_tag_keep)
next
  case (Float f)
  then show ?case by (cases fuel) (auto simp: parses_float)
next
  case (Simple s)
  then show ?case by (cases fuel) (auto simp: parses_simple)
next
  case (Bytes b)
  then show ?case by (cases fuel) (auto intro: parses_string [where t = False])
next
  case (Text b)
  then show ?case by (cases fuel) (auto intro: parses_string [where t = True])
next
  case (Bool b)
  then obtain f where "fuel = Suc f" by (cases fuel) auto
  then show ?case by (simp only: encode_value.simps normal.simps parses_constant)
next
  case Null
  then obtain f where "fuel = Suc f" by (cases fuel) auto
  then show ?case by (simp only: encode_value.simps normal.simps parses_constant)
next
  case Undefined
  then obtain f where "fuel = Suc f" by (cases fuel) auto
  then show ?case by (simp only: encode_value.simps normal.simps parses_constant)
qed

lemma decode_slice_encoded:
  assumes "wf_value cap v" and "keys_ok dopts opts v"
  shows "decode_value_slice cap (encode_value_to_vec v opts) dopts = Inr (normal opts v)"
proof -
  let ?e = "encode_value opts v"
  have "cbor.parses (decode_value cap dopts (length ?e + 1)) ?e (normal opts v)"
    using assms by (intro parses_encoded) simp_all
  from cbor.parsesD [OF this, of "Decoder_new ?e" "[]"]
  have "decode_value cap dopts (length ?e + 1) (Decoder_new ?e) = Inr (normal opts v, dec_adv (length ?e) (Decoder_new ?e))"
    by simp
  then show ?thesis
    by (simp add: decode_value_slice_def encode_value_to_vec_def dec_adv_def Decoder_new_def)
qed

end
