(* ===== verification/Cbor_Laws.thy ===== *)
theory Cbor_Laws
  imports Cbor_Roundtrip
begin

unbundle bit_operations_syntax

text \<open>
  The properties of the CBOR crate: decoding always comes to an end within its fuel, decoding inverts
  encoding in the default and in the canonical mode, canonical encoding does not depend on the order
  of map entries, the strict mode never returns duplicate keys, and the inputs on which the decoder
  departs from the format.
\<close>

section \<open>Fuel\<close>

abbreviation dec_left :: "Decoder \<Rightarrow> nat" where
  "dec_left d \<equiv> length (dec_rest d)"

named_theorems fuel_intros \<open>totality and consumption of the decoder's parsers\<close>

declare total_basic [fuel_intros]

lemma fuel_basic [fuel_intros]:
  "consumes dec_left 1 dec_read_u8" "ends_on dec_left OutOfFuel n dec_read_u8"
  "consumes dec_left 0 (read_exact k)" "ends_on dec_left OutOfFuel n (read_exact k)"
  "consumes dec_left 0 at_break" "ends_on dec_left OutOfFuel n at_break"
  by (auto simp: consumes_def ends_on_def liftp_def dec_read_u8_def read_exact_def at_break_def
      dec_rest_def dec_remaining_def split: sum.splits if_splits)

lemma fuel_read_u8 [fuel_intros]: "consumes dec_left 0 dec_read_u8"
  by (rule consumes_weaken [OF fuel_basic(1)])

lemma fuel_len [fuel_intros]: "consumes dec_left 0 (read_len m a)" "ends_on dec_left OutOfFuel n (read_len m a)"
  unfolding read_len_def by (auto intro!: consumes_bind total_bind fuel_intros)

lemma ok_or_fuel: "ok_or m (Fail e) \<noteq> Inl OutOfFuel"
  by (cases m) simp_all

lemma fuel_definite [fuel_intros]: "consumes dec_left 0 (read_definite m a b)" "ends_on dec_left OutOfFuel n (read_definite m a b)"
  unfolding read_definite_def by (auto intro!: consumes_bind total_bind fuel_intros ok_or_fuel)

lemma fuel_lifted:
  "materialize_string s t \<noteq> Inl OutOfFuel" "check_shortest_int l k \<noteq> Inl OutOfFuel" "check_key o1 ps key \<noteq> Inl OutOfFuel"
  by (auto simp: materialize_string_def check_shortest_int_def check_key_def Let_def)

lemma fuel_simple [fuel_intros]: "consumes dec_left 0 (decode_simple a)" "ends_on dec_left OutOfFuel n (decode_simple a)"
  unfolding decode_simple_def by (auto intro!: consumes_bind total_bind fuel_intros)

lemma fuel_chunks: "consumes dec_left 0 (decode_chunks fuel t acc)" "n < fuel \<Longrightarrow> ends_on dec_left OutOfFuel n (decode_chunks fuel t acc)"
proof (induction fuel arbitrary: t acc n)
  case (Suc fuel)
  { case 1
    show ?case
      by (auto intro!: consumes_bind fuel_intros Suc simp: Let_def split: prod.split)
  next
    case 2
    then show ?case
      unfolding decode_chunks.simps
      by (intro total_bind_consume [where p = dec_read_u8] fuel_basic)
        (auto intro!: total_bind fuel_intros Suc simp: Let_def split: prod.split) }
qed (auto intro: fuel_intros)

lemma fuel_bytes: "consumes dec_left 0 (decode_bytes opts fuel a t)" "n < fuel \<Longrightarrow> ends_on dec_left OutOfFuel n (decode_bytes opts fuel a t)"
  unfolding decode_bytes_def
  by (auto intro!: consumes_bind total_bind fuel_intros fuel_chunks fuel_lifted split: option.split)

lemma total_items:
  assumes "consumes dec_left 0 item" and "ends_on dec_left OutOfFuel n item"
  shows "ends_on dec_left OutOfFuel n (decode_items item k acc)"
  using assms by (induction k arbitrary: acc) (auto intro!: total_bind fuel_intros)

lemma consumes_loops:
  assumes "consumes dec_left 0 item"
  shows "consumes dec_left 0 (decode_items item n acc)" and "consumes dec_left 0 (decode_items_indefinite item fuel items)" and "consumes dec_left 0 (decode_map_body opts item fuel k ind pairs)"
proof -
  show "consumes dec_left 0 (decode_items item n acc)"
    using assms by (induction n arbitrary: acc) (auto intro!: consumes_bind fuel_intros)
  show "consumes dec_left 0 (decode_items_indefinite item fuel items)"
    using assms by (induction fuel arbitrary: items) (auto intro!: consumes_bind fuel_intros)
  show "consumes dec_left 0 (decode_map_body opts item fuel k ind pairs)"
    using assms by (induction fuel arbitrary: pairs) (auto intro!: consumes_bind fuel_intros)
qed

lemma total_items_indefinite:
  assumes "consumes dec_left 1 item" and "\<And>m. m \<le> n \<Longrightarrow> ends_on dec_left OutOfFuel m item" and "n < fuel"
  shows "ends_on dec_left OutOfFuel n (decode_items_indefinite item fuel acc)"
  using assms(2,3)
proof (induction fuel arbitrary: acc n)
  case (Suc fuel)
  have "ends_on dec_left OutOfFuel n (bindp item (\<lambda>v. decode_items_indefinite item fuel (acc @ [v])))"
    using Suc.prems assms(1) by (intro total_bind_consume) (auto intro!: Suc.IH)
  then show ?case by (auto intro!: total_bind fuel_intros)
qed simp

lemma total_map_body:
  assumes "consumes dec_left 1 item" and "\<And>m. m \<le> n \<Longrightarrow> ends_on dec_left OutOfFuel m item" and "n < fuel"
  shows "ends_on dec_left OutOfFuel n (decode_map_body opts item fuel k ind acc)"
  using assms(2,3)
proof (induction fuel arbitrary: acc n)
  case (Suc fuel)
  let ?next = "\<lambda>key val. bindp (liftp (check_key opts acc key)) (\<lambda>_.
        decode_map_body opts item fuel k ind (acc @ [(key, val)]))"
  have a: "ends_on dec_left OutOfFuel m (?next key val)" if "n = Suc m" for m key val
    using Suc.prems that by (intro total_bind fuel_basic total_basic fuel_lifted Suc.IH) auto
  have b: "ends_on dec_left OutOfFuel m (bindp item (?next key))" if "n = Suc m" for m key
    by (rule total_bind) (use Suc.prems that a consumes_weaken [OF assms(1)] in auto)
  have "ends_on dec_left OutOfFuel n (bindp item (\<lambda>key. bindp item (?next key)))"
    by (rule total_bind_consume) (use Suc.prems assms(1) b in auto)
  then show ?case by (auto intro!: total_bind fuel_intros)
qed simp

lemma fuel_value: "consumes dec_left 1 (decode_value cap opts fuel) \<and> (\<forall>n < fuel. ends_on dec_left OutOfFuel n (decode_value cap opts fuel))"
proof (induction fuel)
  case 0
  show ?case by (simp add: decode_value.simps consumes_def)
next
  case (Suc fuel)
  let ?item = "decode_value cap opts fuel"
  have item: "consumes dec_left 1 ?item" "consumes dec_left 0 ?item" "\<And>n. n < fuel \<Longrightarrow> ends_on dec_left OutOfFuel n ?item"
    using Suc consumes_weaken by auto
  have arr: "consumes dec_left 0 (decode_array cap opts ?item fuel a)" "n < fuel \<Longrightarrow> ends_on dec_left OutOfFuel n (decode_array cap opts ?item fuel a)" for a n
    unfolding decode_array_def using item
    by (auto intro!: consumes_bind total_bind fuel_intros total_items consumes_loops total_items_indefinite split: option.split)
  have mp: "consumes dec_left 0 (decode_map opts ?item fuel a)" "n < fuel \<Longrightarrow> ends_on dec_left OutOfFuel n (decode_map opts ?item fuel a)" for a n
    unfolding decode_map_def using item
    by (auto intro!: consumes_bind total_bind fuel_intros consumes_loops total_map_body split: option.split)
  have tg: "consumes dec_left 0 (decode_tag ?item a)" "n < fuel \<Longrightarrow> ends_on dec_left OutOfFuel n (decode_tag ?item a)" for a n
    unfolding decode_tag_def using item by (auto intro!: consumes_bind total_bind fuel_intros split: prod.split)
  have "consumes dec_left 1 (decode_value cap opts (Suc fuel))"
    unfolding decode_value.simps Let_def
    by (intro consumes_bind fuel_basic total_basic)
      (auto intro!: consumes_bind fuel_intros fuel_bytes arr mp tg split: prod.split)
  moreover have "ends_on dec_left OutOfFuel n (decode_value cap opts (Suc fuel))" if "n < Suc fuel" for n
    unfolding decode_value.simps Let_def
    by (intro total_bind_consume fuel_basic total_basic)
      (use that in \<open>auto intro!: total_bind fuel_intros fuel_bytes fuel_lifted arr mp tg split: prod.split\<close>)
  ultimately show ?case by blast
qed

lemma decode_enough_fuel: "length (dec_rest d) < fuel \<Longrightarrow> decode_value cap opts fuel d \<noteq> Inl OutOfFuel"
  using fuel_value [of cap opts fuel] by (auto simp: ends_on_def)

section \<open>Keys of canonical maps\<close>

lemma normal_default: "normal EncodeOptions_default v = v"
proof (induction v)
  case (Map ps)
  then show ?case
    by (auto simp: ordered_pairs_def EncodeOptions_default_def prod_set_defs intro!: map_idI)
qed (simp_all add: map_idI)

lemma keys_accepted_lenient: "\<not> reject_duplicate_keys dopts \<Longrightarrow> \<not> d_canonical dopts \<Longrightarrow> keys_accepted dopts acc ps"
  by (induction ps arbitrary: acc) (simp_all add: check_key_def)

lemma keys_ok_lenient: "\<not> reject_duplicate_keys dopts \<Longrightarrow> \<not> d_canonical dopts \<Longrightarrow> keys_ok dopts opts v"
proof (induction v)
  case (Map ps)
  then show ?case by (auto simp: list_all_iff keys_accepted_lenient prod_set_defs)
qed (simp_all add: list_all_iff)

text \<open>Two keys the decoder tells apart: different, and not equal under the derived comparison.\<close>

definition keys_differ :: "Value \<times> Value \<Rightarrow> Value \<times> Value \<Rightarrow> bool" where
  "keys_differ p q = (fst p \<noteq> fst q \<and> \<not> value_eq (fst p) (fst q) \<and> \<not> value_eq (fst q) (fst p))"

function canonical_keys :: "Value \<Rightarrow> bool" where
  "canonical_keys (Array vs) = list_all canonical_keys vs"
| "canonical_keys (Map ps) =
     (list_all (\<lambda>p. canonical_keys (fst p) \<and> canonical_keys (snd p) \<and>
        normal EncodeOptions_canonical (fst p) = fst p) ps \<and> sorted_wrt keys_differ ps)"
| "canonical_keys (Tag t v) = canonical_keys v"
| "canonical_keys (Integer i) = True"
| "canonical_keys (Float f) = True"
| "canonical_keys (Bool b) = True"
| "canonical_keys Null = True"
| "canonical_keys Undefined = True"
| "canonical_keys (Simple s) = True"
| "canonical_keys (Bytes b) = True"
| "canonical_keys (Text t) = True"
  by pat_completeness auto

termination
  by (relation "measure size")
    (auto simp: less_Suc_eq_le size_pair_in dest: size_list_estimation')

lemma sorted_wrt_insort:
  assumes "\<And>x y. R x y \<Longrightarrow> R y x"
  shows "sorted_wrt R (insort_key f x xs) \<longleftrightarrow> list_all (R x) xs \<and> sorted_wrt R xs"
  using assms by (induction xs) (auto simp: list_all_iff set_insort_key)

lemma sorted_wrt_sort:
  assumes "\<And>x y. R x y \<Longrightarrow> R y x" and "sorted_wrt R xs"
  shows "sorted_wrt R (sort_key f xs)"
  using assms(2)
proof (induction xs)
  case (Cons x xs)
  moreover have "sorted_wrt R (insort_key f x (sort_key f xs)) \<longleftrightarrow>
      list_all (R x) (sort_key f xs) \<and> sorted_wrt R (sort_key f xs)"
    using assms(1) by (rule sorted_wrt_insort)
  ultimately show ?case by (simp add: list_all_iff)
qed simp

lemma encode_default_inj:
  assumes "wf_value cap v" and "wf_value cap w"
    and "encode_value EncodeOptions_default v = encode_value EncodeOptions_default w"
  shows "v = w"
proof -
  have "decode_value_slice cap (encode_value_to_vec u EncodeOptions_default) DecodeOptions_default = Inr u"
    if "wf_value cap u" for u
    using decode_slice_encoded [OF that keys_ok_lenient] by (simp add: DecodeOptions_default_def normal_default)
  from this [OF assms(1)] this [OF assms(2)] assms(3) show ?thesis
    by (simp add: encode_value_to_vec_def)
qed

lemma canonical_key_inj:
  "wf_value cap v \<Longrightarrow> wf_value cap w \<Longrightarrow> canonical_key v = canonical_key w \<Longrightarrow> v = w"
  using encode_default_inj by (auto simp: canonical_key_def encode_value_to_vec_def Let_def)

lemma canonical_key_lt_key: "canonical_key_lt a b \<longleftrightarrow> canonical_key a < canonical_key b"
  by (auto simp: canonical_key_lt_def canonical_key_def cmp_def Let_def less_prod_def)

lemma keys_accepted_sorted:
  assumes "sorted_wrt (\<lambda>p q. keys_differ p q \<and> canonical_key (fst p) < canonical_key (fst q)) (acc @ ps)"
  shows "keys_accepted dopts acc ps"
  using assms
proof (induction ps arbitrary: acc)
  case (Cons p ps)
  have "\<not> list_ex (\<lambda>(k, _). value_eq k (fst p)) acc"
    using Cons.prems by (auto simp: list_ex_iff sorted_wrt_append keys_differ_def)
  moreover have "acc \<noteq> [] \<longrightarrow> canonical_key_lt (fst (last acc)) (fst p)"
    using Cons.prems by (auto simp: canonical_key_lt_key sorted_wrt_append)
  ultimately show ?case using Cons by (auto simp: check_key_def)
qed simp

lemma sorted_wrt_strict:
  assumes "sorted (map f xs)" and "sorted_wrt R xs" and "\<And>x y. x \<in> set xs \<Longrightarrow> y \<in> set xs \<Longrightarrow> R x y \<Longrightarrow> f x \<noteq> f y"
  shows "sorted_wrt (\<lambda>x y. R x y \<and> f x < f y) xs"
  using assms by (induction xs) (auto simp: less_le)

lemma canonical_map_accepted:
  assumes "list_all (\<lambda>p. wf_value cap (fst p)) ps" and "sorted_wrt keys_differ ps"
    and "list_all (\<lambda>p. normal EncodeOptions_canonical (fst p) = fst p) ps"
  shows "keys_accepted dopts [] (map (\<lambda>p. (normal EncodeOptions_canonical (fst p), g p))
    (ordered_pairs EncodeOptions_canonical ps))"
proof (rule keys_accepted_sorted)
  let ?k = "\<lambda>p. canonical_key (fst p)"
  let ?s = "sort_key ?k ps"
  have "sorted_wrt keys_differ ?s"
    by (rule sorted_wrt_sort) (use assms(2) in \<open>auto simp: keys_differ_def\<close>)
  moreover have "?k p \<noteq> ?k q" if "p \<in> set ?s" "q \<in> set ?s" "keys_differ p q" for p q
    using that assms(1) canonical_key_inj [of cap "fst p" "fst q"] by (auto simp: list_all_iff keys_differ_def)
  ultimately have srt: "sorted_wrt (\<lambda>p q. keys_differ p q \<and> ?k p < ?k q) ?s"
    by (intro sorted_wrt_strict) simp_all
  have ord: "ordered_pairs EncodeOptions_canonical ps = ?s"
    by (simp add: ordered_pairs_def EncodeOptions_canonical_def)
  have nrm: "map (\<lambda>p. (normal EncodeOptions_canonical (fst p), g p)) ?s = map (\<lambda>p. (fst p, g p)) ?s"
    using assms(3) by (auto simp: list_all_iff)
  show "sorted_wrt (\<lambda>p q. keys_differ p q \<and> canonical_key (fst p) < canonical_key (fst q))
      ([] @ map (\<lambda>p. (normal EncodeOptions_canonical (fst p), g p)) (ordered_pairs EncodeOptions_canonical ps))"
    unfolding ord nrm append_Nil using srt by (simp add: sorted_wrt_map keys_differ_def)
qed

lemma keys_ok_canonical: "wf_value cap v \<Longrightarrow> canonical_keys v \<Longrightarrow> keys_ok dopts EncodeOptions_canonical v"
proof (induction v)
  case (Map ps)
  then have "keys_accepted dopts [] (map (\<lambda>p. (normal EncodeOptions_canonical (fst p), normal EncodeOptions_canonical (snd p)))
      (ordered_pairs EncodeOptions_canonical ps))"
    by (intro canonical_map_accepted) (auto simp: list_all_iff)
  with Map show ?case by (auto simp: list_all_iff prod_set_defs)
qed (simp_all add: list_all_iff)

section \<open>Duplicate keys\<close>

definition distinct_keys :: "(Value \<times> Value) list \<Rightarrow> bool" where
  "distinct_keys ps = sorted_wrt (\<lambda>p q. \<not> value_eq (fst p) (fst q)) ps"

function no_duplicates :: "Value \<Rightarrow> bool" where
  "no_duplicates (Array vs) = list_all no_duplicates vs"
| "no_duplicates (Map ps) =
     (list_all (\<lambda>p. no_duplicates (fst p) \<and> no_duplicates (snd p)) ps \<and> distinct_keys ps)"
| "no_duplicates (Tag t v) = no_duplicates v"
| "no_duplicates (Integer i) = True"
| "no_duplicates (Float f) = True"
| "no_duplicates (Bool b) = True"
| "no_duplicates Null = True"
| "no_duplicates Undefined = True"
| "no_duplicates (Simple s) = True"
| "no_duplicates (Bytes b) = True"
| "no_duplicates (Text t) = True"
  by pat_completeness auto

termination
  by (relation "measure size")
    (auto simp: less_Suc_eq_le size_pair_in dest: size_list_estimation')

definition yields :: "('a \<Rightarrow> bool) \<Rightarrow> (Decoder, stop, 'a) parser \<Rightarrow> bool" where
  "yields P p \<longleftrightarrow> (\<forall>d x d'. p d = Inr (x, d') \<longrightarrow> P x)"

lemma yields_ret: "P x \<Longrightarrow> yields P (retp x)"
  by (simp add: yields_def)

lemma yields_fail: "yields P (failp e)"
  by (simp add: yields_def)

lemma yields_bind: "yields Q p \<Longrightarrow> (\<And>x. Q x \<Longrightarrow> yields P (f x)) \<Longrightarrow> yields P (bindp p f)"
  by (fastforce simp: yields_def bindp_Inr_iff)

lemma yields_bind_any: "(\<And>x. yields P (f x)) \<Longrightarrow> yields P (bindp p f)"
  by (fastforce simp: yields_def bindp_Inr_iff)

lemma yields_lift: "(\<And>x. m = Inr x \<Longrightarrow> P x) \<Longrightarrow> yields P (liftp m)"
  by (cases m) (auto simp: yields_def)

lemmas yields_intros = yields_ret yields_fail yields_lift

lemma yields_items:
  assumes "yields no_duplicates item" and "list_all no_duplicates acc"
  shows "yields no_duplicates (decode_items item n acc)" and "yields no_duplicates (decode_items_indefinite item fuel acc)"
proof -
  show "yields no_duplicates (decode_items item n acc)"
    using assms(2) by (induction n arbitrary: acc) (auto intro!: yields_intros yields_bind [OF assms(1)])
  show "yields no_duplicates (decode_items_indefinite item fuel acc)"
    using assms(2)
    by (induction fuel arbitrary: acc)
      (auto intro!: yields_intros yields_bind [OF assms(1)] yields_bind_any [of _ _ at_break])
qed

lemma yields_map:
  assumes "yields no_duplicates item" and "reject_duplicate_keys opts"
    and "no_duplicates (Map acc)"
  shows "yields no_duplicates (decode_map_body opts item fuel n ind acc)"
  using assms(3)
proof (induction fuel arbitrary: acc)
  case (Suc fuel)
  have "yields no_duplicates (bindp (liftp (check_key opts acc key)) (\<lambda>_.
      decode_map_body opts item fuel n ind (acc @ [(key, val)])))" if kv: "no_duplicates key" "no_duplicates val" for key val
  proof (rule yields_bind)
    show "yields (\<lambda>_. check_key opts acc key = Inr ()) (liftp (check_key opts acc key))"
      by (rule yields_lift) auto
  next
    assume "check_key opts acc key = Inr ()"
    with Suc.prems kv assms(2) have "no_duplicates (Map (acc @ [(key, val)]))"
      by (auto simp: check_key_def distinct_keys_def sorted_wrt_append list_ex_iff split: if_splits)
    then show "yields no_duplicates (decode_map_body opts item fuel n ind (acc @ [(key, val)]))" by (rule Suc.IH)
  qed
  then have "yields no_duplicates (bindp item (\<lambda>key. bindp item (\<lambda>val. bindp (liftp (check_key opts acc key)) (\<lambda>_.
      decode_map_body opts item fuel n ind (acc @ [(key, val)])))))"
    by (intro yields_bind [OF assms(1)])
  with Suc.prems show ?case
    unfolding decode_map_body.simps by (intro yields_bind_any) (simp add: yields_ret)
qed (simp add: yields_def)

lemma collapse_no_duplicates: "no_duplicates v \<Longrightarrow> no_duplicates (collapse_tag t v)"
  by (auto simp: collapse_tag_def split: Value.split option.split)

lemma materialize_no_duplicates: "materialize_string s t = Inr v \<Longrightarrow> no_duplicates v"
  by (auto simp: materialize_string_def split: if_splits)

lemma yields_value:
  assumes "reject_duplicate_keys opts"
  shows "yields no_duplicates (decode_value cap opts fuel)"
proof (induction fuel)
  case 0
  show ?case by (simp add: decode_value.simps yields_def)
next
  case (Suc fuel)
  let ?item = "decode_value cap opts fuel"
  have bytes: "yields no_duplicates (decode_bytes opts fuel a t)" for a t
    unfolding decode_bytes_def
    by (auto intro!: yields_bind_any yields_intros split: option.split dest: materialize_no_duplicates)
  have array: "yields no_duplicates (decode_array cap opts ?item fuel a)" for a
    unfolding decode_array_def
    by (intro yields_bind_any) (auto intro!: yields_intros yields_items [OF Suc] split: option.split)
  have map: "yields no_duplicates (decode_map opts ?item fuel a)" for a
    unfolding decode_map_def
    by (intro yields_bind_any) (auto intro!: yields_intros yields_map [OF Suc assms] simp: distinct_keys_def split: option.split)
  have tag: "yields no_duplicates (decode_tag ?item a)" for a
    unfolding decode_tag_def
    by (intro yields_bind_any) (auto intro!: yields_bind [OF Suc] yields_intros collapse_no_duplicates split: prod.split)
  have simple: "yields no_duplicates (decode_simple a)" for a
    unfolding decode_simple_def by (auto intro!: yields_bind_any yields_intros)
  show ?case
    unfolding decode_value.simps Let_def
    by (intro yields_bind_any)
      (auto intro!: yields_bind_any yields_intros bytes array map tag simple split: prod.split)
qed

lemma decode_map_head:
  "dec_rest d = 0xa2 # ys \<Longrightarrow>
    decode_value cap opts (Suc f) d = decode_map_body opts (decode_value cap opts f) f 2 False [] (dec_adv 1 d)"
  by (simp add: decode_value.simps bindp_def dec_read_u8_rest decode_map_def read_len_def Let_def)

lemma decode_two_entries_reject:
  assumes "cbor.parses item e1 k1" and "cbor.parses item f1 v1" and "cbor.parses item e2 k2" and "cbor.parses item f2 v2"
    and "check_key dopts [] k1 = Inr ()" and "check_key dopts [(k1, v1)] k2 = Inl e"
    and "dec_rest d = e1 @ f1 @ e2 @ f2"
  shows "decode_map_body dopts item (Suc (Suc fuel)) 2 False [] d = Inl e"
proof -
  define d1 where "d1 = dec_adv (length e1) d"
  define d2 where "d2 = dec_adv (length f1) d1"
  define d3 where "d3 = dec_adv (length e2) d2"
  have r: "dec_rest d1 = f1 @ e2 @ f2" "dec_rest d2 = e2 @ f2" "dec_rest d3 = f2 @ []"
    using assms(7) by (simp_all add: d1_def d2_def d3_def cbor.rest_adv)
  have "item d = Inr (k1, d1)" "item d1 = Inr (v1, d2)" "item d2 = Inr (k2, d3)"
    "item d3 = Inr (v2, dec_adv (length f2) d3)"
    using cbor.parsesD [OF assms(1,7)] cbor.parsesD [OF assms(2) r(1)] cbor.parsesD [OF assms(3) r(2)]
      cbor.parsesD [OF assms(4) r(3)] by (simp_all add: d1_def d2_def d3_def)
  then show ?thesis using assms(5,6) by (simp add: bindp_def)
qed

lemma be_val_zeros: "be_val (replicate n 0) = 0"
  by (induction n) simp_all

lemma i128_wrap_high:
  assumes "2 ^ 127 \<le> i" and "i < 2 ^ 128"
  shows "i128_wrap i = i - 2 ^ 128"
proof -
  have "(i + 2 ^ 127 - 2 ^ 128) mod 2 ^ 128 = i + 2 ^ 127 - 2 ^ 128"
    using assms by (intro mod_pos_pos_trivial) simp_all
  then show ?thesis unfolding i128_wrap_def minus_mod_self2 by simp
qed

section \<open>Properties\<close>

text \<open>C6: Decoding inverts encoding: every well-formed value, encoded with the default options and
  decoded with the default options, comes back unchanged.\<close>

theorem cbor_round_trip:
  assumes "wf_value cap v"
  shows "decode_value_slice cap (encode_value_to_vec v EncodeOptions_default) DecodeOptions_default = Inr v"
  using decode_slice_encoded [OF assms keys_ok_lenient, of DecodeOptions_default EncodeOptions_default]
  by (simp add: DecodeOptions_default_def normal_default)

definition sample_value :: Value where
  "sample_value = Map [(Text [0x61], Array [Integer (- 1), Integer (2 ^ 70), Float 0x3FF8000000000000, Null]),
     (Integer 500, Tag 1 (Bytes [1, 2]))]"

lemma sample_wf: "wf_value 10 sample_value"
  by (simp add: sample_value_def f64_is_nan_def f64_exp_def)

theorem cbor_round_trip_witness:
  "decode_value_slice 10 (encode_value_to_vec sample_value EncodeOptions_default) DecodeOptions_default = Inr sample_value"
  by (rule cbor_round_trip [OF sample_wf])

text \<open>C15: In canonical mode, a well-formed value whose maps have distinguishable keys in normal form is
  accepted by the canonical decoder and decodes to the value with its maps sorted.\<close>

theorem cbor_canonical_round_trip:
  assumes "wf_value cap v" and "canonical_keys v"
  shows "decode_value_slice cap (encode_value_to_vec v EncodeOptions_canonical) DecodeOptions_canonical =
    Inr (normal EncodeOptions_canonical v)"
  by (rule decode_slice_encoded [OF assms(1) keys_ok_canonical [OF assms]])

theorem cbor_canonical_round_trip_witness:
  "decode_value_slice 10 (encode_value_to_vec sample_value EncodeOptions_canonical) DecodeOptions_canonical =
    Inr (normal EncodeOptions_canonical sample_value)"
  by (rule cbor_canonical_round_trip [OF sample_wf]) (simp add: sample_value_def keys_differ_def)



text \<open>C26: The decoder always comes to an end: with the fuel of \<open>decode_value_slice\<close>, one more than the
  length of the input, no input of any options runs out of it.\<close>

theorem cbor_decoder_terminates: "decode_value_slice cap bs opts \<noteq> Inl OutOfFuel"
proof -
  have "decode_value cap opts (length bs + 1) (Decoder_new bs) \<noteq> Inl OutOfFuel"
    by (rule decode_enough_fuel) simp
  then show ?thesis
    by (cases "decode_value cap opts (length bs + 1) (Decoder_new bs)")
      (auto simp: decode_value_slice_def split: if_splits)
qed

text \<open>C27: When duplicate keys are rejected, no map at any depth of a decoded value has two keys that the
  derived comparison makes equal.\<close>

theorem strict_rejects_duplicates:
  assumes "reject_duplicate_keys opts" and "decode_value_slice cap bs opts = Inr v"
  shows "no_duplicates v"
  using assms(2) yields_value [OF assms(1), of cap "length bs + 1"]
  by (auto simp: decode_value_slice_def res_bind_Inr_iff yields_def split: if_splits)

theorem strict_rejects_duplicates_witness:
  "decode_value_slice 10 [0xf6] DecodeOptions_strict = Inr Null \<and> no_duplicates Null"
proof -
  have "decode_value_slice 10 [0xf6] DecodeOptions_strict = Inr Null"
    using decode_slice_encoded [of 10 Null DecodeOptions_strict EncodeOptions_default]
    by (simp add: encode_value_to_vec_def)
  with strict_rejects_duplicates [OF _ this] show ?thesis by (simp add: DecodeOptions_strict_def)
qed

text \<open>A positive bignum of 16 bytes with the top bit set is decoded to a negative integer: its
  magnitude minus \<open>2 ^ 128\<close>.\<close>

theorem bignum_wrong_sign:
  assumes "length bs = 16" and "2 ^ 127 \<le> be_val bs"
  shows "decode_value_slice cap (0xc2 # 0x50 # bs) DecodeOptions_default = Inr (Integer (int (be_val bs) - 2 ^ 128))"
proof -
  have "be_val bs < 2 ^ 128" using be_val_less [of bs] assms(1) by simp
  then have "int (be_val bs) < 2 ^ 128" by (metis of_nat_less_iff of_nat_numeral of_nat_power)
  moreover have "2 ^ 127 \<le> int (be_val bs)" using assms(2) by (metis of_nat_le_iff of_nat_numeral of_nat_power)
  ultimately have "i128_wrap (int (be_val bs)) = int (be_val bs) - 2 ^ 128" by (intro i128_wrap_high)
  then have collapse: "collapse_tag 2 (Bytes bs) = Integer (int (be_val bs) - 2 ^ 128)"
    using assms(1) by (simp add: collapse_tag_def bignum_to_i128_def i128_from_be_def)
  have "cbor.parses (decode_value cap DecodeOptions_default 18) (write_type_number 2 (word_of_nat (length bs)) @ bs) (Bytes bs)"
    using parses_string [of bs False 2 "Bytes bs" cap DecodeOptions_default 17] assms(1) by simp
  from parses_tag [OF this, of 2]
  have "cbor.parses (decode_value cap DecodeOptions_default 19) (0xc2 # 0x50 # bs) (Integer (int (be_val bs) - 2 ^ 128))"
    by (simp add: collapse write_type_number_def assms(1))
  from cbor.parsesD [OF this, of "Decoder_new (0xc2 # 0x50 # bs)" "[]"] assms(1) show ?thesis
    by (simp add: decode_value_slice_def DecodeOptions_default_def)
qed

theorem bignum_wrong_sign_witness:
  "decode_value_slice 0 (0xc2 # 0x50 # 0x80 # replicate 15 0) DecodeOptions_default = Inr (Integer (- (2 ^ 127)))"
  using bignum_wrong_sign [of "0x80 # replicate 15 0" 0] by (simp add: be_val_zeros)

text \<open>An array header whose length exceeds the allocation limit panics, whatever follows it: nine
  bytes of input are enough.\<close>

theorem array_length_panics:
  assumes "cap < unat n" and "2 ^ 32 \<le> unat n"
  shows "decode_value_slice cap (0x9b # be64 n @ bs) opts = Inl CapacityPanic"
proof -
  let ?d = "Decoder_new (0x9b # be64 n @ bs)" and ?in = "0x9b # be64 n @ bs"
  have n: "\<not> n < 0x100000000" "\<not> n < 24" "\<not> n < 0x100" "\<not> n < 0x10000"
    using assms(2) by (auto simp: word_less_nat_alt)
  have "cbor.parses (read_len 4 27) (be64 n) (Some (n, 8))"
    using cbor_parses_len [of 4 n] n by (simp add: ai_of_def len_bytes_def nbytes_of_def)
  moreover have "dec_rest (dec_adv 1 ?d) = be64 n @ bs" by (simp add: cbor.rest_adv)
  ultimately have "read_len 4 27 (dec_adv 1 ?d) = Inr (Some (n, 8), dec_adv 8 (dec_adv 1 ?d))"
    using cbor.parsesD [of "read_len 4 27" "be64 n"] by simp
  then have "decode_array cap opts item fuel 27 (dec_adv 1 ?d) = Inl CapacityPanic" for item fuel
    using assms(1) by (simp add: decode_array_def bindp_def)
  moreover have "decode_value cap opts (Suc fuel) ?d = decode_array cap opts (decode_value cap opts fuel) fuel 27 (dec_adv 1 ?d)" for fuel
    by (simp add: decode_value.simps bindp_def dec_read_u8_rest)
  ultimately show ?thesis
    by (simp only: decode_value_slice_def Suc_eq_plus1 [symmetric] res_bind_simps)
qed

theorem array_length_panics_witness:
  "decode_value_slice (2 ^ 58) (0x9b # be64 (2 ^ 60) @ []) DecodeOptions_canonical = Inl CapacityPanic"
  by (rule array_length_panics) simp_all

text \<open>The canonical encoder sorts map keys by their non-canonical encodings. When sorting a key's own
  entries changes its place, the output is out of order and the canonical decoder refuses it.\<close>

theorem canonical_output_rejected:
  assumes "list_all (\<lambda>v. wf_value cap v \<and> canonical_keys v) [k1, v1, k2, v2]"
    and "canonical_key k2 < canonical_key k1"
    and "\<not> canonical_key (normal EncodeOptions_canonical k2) < canonical_key (normal EncodeOptions_canonical k1)"
  shows "decode_value_slice cap (encode_value_to_vec (Map [(k1, v1), (k2, v2)]) EncodeOptions_canonical)
    DecodeOptions_canonical = Inl (Fail DuplicateKey)"
proof -
  let ?e = "encode_value EncodeOptions_canonical" and ?n = "normal EncodeOptions_canonical"
  let ?body = "?e k2 @ ?e v2 @ ?e k1 @ ?e v1" and ?c = "DecodeOptions_canonical"
  have nle: "\<not> canonical_key k1 \<le> canonical_key k2" using assms(2) by (simp only: not_le)
  have enc: "encode_value_to_vec (Map [(k1, v1), (k2, v2)]) EncodeOptions_canonical = 0xa2 # ?body"
    by (simp add: encode_value_to_vec_def encode_map_canonical write_type_number_def nle)
  let ?d = "Decoder_new (0xa2 # ?body)" and ?f = "length ?body"
  have len: "0 < length (?e v)" for v by (rule encode_value_nonempty)
  have lens: "length (?e k1) < Suc ?f" "length (?e v1) < Suc ?f" "length (?e k2) < Suc ?f" "length (?e v2) < Suc ?f"
    by simp_all
  have item: "cbor.parses (decode_value cap ?c (Suc ?f)) (?e v) (?n v)"
    if "v \<in> {k1, v1, k2, v2}" "length (?e v) < Suc ?f" for v
    using that assms(1) keys_ok_canonical by (intro parses_encoded) auto
  have fuel: "Suc ?f = Suc (Suc (?f - 1))" using len [of k2] by simp
  have "check_key ?c [(?n k2, ?n v2)] (?n k1) = Inl (Fail DuplicateKey)"
    using assms(3) by (simp add: check_key_def canonical_key_lt_key DecodeOptions_canonical_def)
  then have "decode_map_body ?c (decode_value cap ?c (Suc ?f)) (Suc ?f) 2 False [] (dec_adv 1 ?d) = Inl (Fail DuplicateKey)"
    by (subst (2) fuel, intro decode_two_entries_reject [OF item item item item])
      (use lens in \<open>simp_all add: check_key_def cbor.rest_adv\<close>)
  then have "decode_value cap ?c (Suc (Suc ?f)) ?d = Inl (Fail DuplicateKey)"
    by (subst decode_map_head) simp_all
  moreover have "length (0xa2 # ?body) + 1 = Suc (Suc ?f)" by simp
  ultimately show ?thesis unfolding enc decode_value_slice_def by (simp only: res_bind_simps)
qed

theorem canonical_output_rejected_witness:
  "decode_value_slice 10 (encode_value_to_vec (Map
      [(Map [(Integer 2, Null), (Integer 1, Null)], Null), (Map [(Integer 1, Null), (Integer 3, Null)], Null)])
      EncodeOptions_canonical) DecodeOptions_canonical = Inl (Fail DuplicateKey)"
  by (rule canonical_output_rejected)
    (simp_all add: keys_differ_def canonical_key_def encode_value_to_vec_def encode_map_default encode_integer_def
      write_type_number_def ordered_pairs_def EncodeOptions_canonical_def)

end
