(* ===== verification/Bfd_Packet.thy ===== *)
theory Bfd_Packet
  imports Prelude
begin

unbundle bit_operations_syntax

text \<open>
  The BFD control packet of \<^verbatim>\<open>tpt-bfd/src/packet.rs\<close>: diagnostics, session states, authentication
  sections and the wire format. The encoder fills a 24-byte buffer by position and appends the
  authentication section; the decoder reads by position after its length checks.
\<close>

datatype BfdError =
    PacketTooShort nat
  | LengthMismatch nat nat
  | ReservedDiagnostic u8
  | InvalidState u8
  | UnsupportedAuth u8
  | AuthFailed
  | AuthSeqReplay
  | Io

abbreviation BFD_VERSION :: u8 where "BFD_VERSION \<equiv> 1"
abbreviation MIN_LEN_NO_AUTH :: nat where "MIN_LEN_NO_AUTH \<equiv> 24"
abbreviation MIN_LEN_AUTH :: nat where "MIN_LEN_AUTH \<equiv> 26"

datatype Diagnostic =
    NoDiagnostic
  | ControlDetectionTimeExpired
  | EchoFunctionFailed
  | NeighborSignaledSessionDown
  | ForwardingPlaneReset
  | PathDown
  | ConcatenatedPathDown
  | AdministrativelyDown
  | ReverseConcatenatedPathDown

definition Diagnostic_from_u8 :: "u8 \<Rightarrow> BfdError + Diagnostic" where
  "Diagnostic_from_u8 v =
     (if v = 0 then Inr NoDiagnostic
      else if v = 1 then Inr ControlDetectionTimeExpired
      else if v = 2 then Inr EchoFunctionFailed
      else if v = 3 then Inr NeighborSignaledSessionDown
      else if v = 4 then Inr ForwardingPlaneReset
      else if v = 5 then Inr PathDown
      else if v = 6 then Inr ConcatenatedPathDown
      else if v = 7 then Inr AdministrativelyDown
      else if v = 8 then Inr ReverseConcatenatedPathDown
      else Inl (ReservedDiagnostic v))"

fun Diagnostic_as_u8 :: "Diagnostic \<Rightarrow> u8" where
  "Diagnostic_as_u8 NoDiagnostic = 0"
| "Diagnostic_as_u8 ControlDetectionTimeExpired = 1"
| "Diagnostic_as_u8 EchoFunctionFailed = 2"
| "Diagnostic_as_u8 NeighborSignaledSessionDown = 3"
| "Diagnostic_as_u8 ForwardingPlaneReset = 4"
| "Diagnostic_as_u8 PathDown = 5"
| "Diagnostic_as_u8 ConcatenatedPathDown = 6"
| "Diagnostic_as_u8 AdministrativelyDown = 7"
| "Diagnostic_as_u8 ReverseConcatenatedPathDown = 8"

datatype SessionState = AdminDown | Down | Init | Up

definition SessionState_from_u8 :: "u8 \<Rightarrow> BfdError + SessionState" where
  "SessionState_from_u8 v =
     (if v = 0 then Inr AdminDown else if v = 1 then Inr Down else if v = 2 then Inr Init
      else if v = 3 then Inr Up else Inl (InvalidState v))"

fun SessionState_as_u8 :: "SessionState \<Rightarrow> u8" where
  "SessionState_as_u8 AdminDown = 0"
| "SessionState_as_u8 Down = 1"
| "SessionState_as_u8 Init = 2"
| "SessionState_as_u8 Up = 3"

datatype AuthType = Reserved | SimplePassword | KeyedMd5 | MeticulousKeyedMd5 | KeyedSha1 | MeticulousKeyedSha1

fun AuthType_code :: "AuthType \<Rightarrow> u8" where
  "AuthType_code Reserved = 0"
| "AuthType_code SimplePassword = 1"
| "AuthType_code KeyedMd5 = 2"
| "AuthType_code MeticulousKeyedMd5 = 3"
| "AuthType_code KeyedSha1 = 4"
| "AuthType_code MeticulousKeyedSha1 = 5"

definition AuthType_from_u8 :: "u8 \<Rightarrow> AuthType" where
  "AuthType_from_u8 v =
     (if v = 1 then SimplePassword else if v = 2 then KeyedMd5 else if v = 3 then MeticulousKeyedMd5
      else if v = 4 then KeyedSha1 else if v = 5 then MeticulousKeyedSha1 else Reserved)"

definition is_keyed :: "AuthType \<Rightarrow> bool" where
  "is_keyed t = (t = KeyedSha1 \<or> t = MeticulousKeyedSha1)"

fun digest_len :: "AuthType \<Rightarrow> nat" where
  "digest_len KeyedMd5 = 16"
| "digest_len MeticulousKeyedMd5 = 16"
| "digest_len KeyedSha1 = 20"
| "digest_len MeticulousKeyedSha1 = 20"
| "digest_len _ = 0"

record AuthSection =
  auth_type :: AuthType
  key_id :: u8
  sequence_number :: u32
  auth_data :: bytes

record ControlPacket =
  version :: u8
  diagnostic :: Diagnostic
  state :: SessionState
  poll :: bool
  final_bit :: bool
  control_plane_independent :: bool
  auth_present :: bool
  demand :: bool
  multipoint :: bool
  detect_mult :: u8
  my_discriminator :: u32
  your_discriminator :: u32
  desired_min_tx_interval :: u32
  required_min_rx_interval :: u32
  required_min_echo_rx_interval :: u32
  auth :: "AuthSection option"

section \<open>Encoding\<close>

text \<open>The cast \<open>bool as u8\<close>, and the copy of a digest into a fixed array of \<open>n\<close> bytes.\<close>

definition bit_u8 :: "bool \<Rightarrow> u8" where
  "bit_u8 b = (if b then 1 else 0)"

definition fixed_array :: "nat \<Rightarrow> bytes \<Rightarrow> bytes" where
  "fixed_array n d = take n d @ replicate (n - length d) 0"

definition auth_bytes :: "AuthSection \<Rightarrow> bytes" where
  "auth_bytes a =
     (case auth_type a of
        SimplePassword \<Rightarrow>
          [AuthType_code (auth_type a), word_of_nat (length (auth_data a) + 3), key_id a] @ auth_data a
      | Reserved \<Rightarrow> [AuthType_code (auth_type a), 0, key_id a, 0]
      | t \<Rightarrow>
          (if t = KeyedMd5 \<or> t = MeticulousKeyedMd5
           then [AuthType_code (auth_type a), 24, key_id a, 0] @ be32 (sequence_number a) @ fixed_array 16 (auth_data a)
           else [AuthType_code (auth_type a), 28, key_id a, 0] @ be32 (sequence_number a) @ fixed_array 20 (auth_data a)))"

definition first_byte :: "ControlPacket \<Rightarrow> u8" where
  "first_byte p = push_bit 5 (version p AND 0x07) OR (Diagnostic_as_u8 (diagnostic p) AND 0x1f)"

definition flag_byte :: "ControlPacket \<Rightarrow> u8" where
  "flag_byte p =
     push_bit 6 (SessionState_as_u8 (state p) AND 0x03) OR push_bit 5 (bit_u8 (poll p))
     OR push_bit 4 (bit_u8 (final_bit p)) OR push_bit 3 (bit_u8 (control_plane_independent p))
     OR push_bit 2 (bit_u8 (auth_present p)) OR push_bit 1 (bit_u8 (demand p)) OR bit_u8 (multipoint p)"

definition to_bytes :: "ControlPacket \<Rightarrow> bytes" where
  "to_bytes p =
     (let head = [first_byte p, flag_byte p, detect_mult p, 0];
          body = be32 (my_discriminator p) @ be32 (your_discriminator p) @ be32 (desired_min_tx_interval p)
                 @ be32 (required_min_rx_interval p) @ be32 (required_min_echo_rx_interval p);
          buf = head @ body @ (case auth p of None \<Rightarrow> [] | Some a \<Rightarrow> auth_bytes a)
      in buf[3 := word_of_nat (length buf)])"

section \<open>Decoding\<close>

definition parse_auth_section :: "bytes \<Rightarrow> BfdError + AuthSection" where
  "parse_auth_section sl =
     (if length sl < 3 then Inl (PacketTooShort (length sl))
      else
        let t = AuthType_from_u8 (sl ! 0); auth_len = unat (sl ! 1); kid = sl ! 2 in
        case t of
          Reserved \<Rightarrow> Inl (UnsupportedAuth (sl ! 0))
        | SimplePassword \<Rightarrow>
            if length sl < auth_len \<or> auth_len < 4 then Inl (LengthMismatch auth_len (length sl))
            else Inr \<lparr>auth_type = t, key_id = kid, sequence_number = 0, auth_data = take (auth_len - 3) (drop 3 sl)\<rparr>
        | _ \<Rightarrow>
            if t = KeyedMd5 \<or> t = MeticulousKeyedMd5 then
              (if length sl < 24 then Inl (LengthMismatch 24 (length sl))
               else Inr \<lparr>auth_type = t, key_id = kid, sequence_number = from_be (take 4 (drop 4 sl)),
                         auth_data = take 16 (drop 8 sl)\<rparr>)
            else
              (if length sl < 28 then Inl (LengthMismatch 28 (length sl))
               else Inr \<lparr>auth_type = t, key_id = kid, sequence_number = from_be (take 4 (drop 4 sl)),
                         auth_data = take 20 (drop 8 sl)\<rparr>))"

definition from_bytes :: "bytes \<Rightarrow> BfdError + ControlPacket" where
  "from_bytes buf =
     (if length buf < MIN_LEN_NO_AUTH then Inl (PacketTooShort (length buf))
      else
        res_bind (Diagnostic_from_u8 (buf ! 0 AND 0x1f)) (\<lambda>diag.
        res_bind (SessionState_from_u8 (drop_bit 6 (buf ! 1) AND 0x03)) (\<lambda>st.
          let ap = (drop_bit 2 (buf ! 1) AND 1 = 1); len = unat (buf ! 3);
              word_at = (\<lambda>i. from_be (take 4 (drop i buf))) in
          if len < MIN_LEN_NO_AUTH \<or> ap \<and> len < MIN_LEN_AUTH then Inl (LengthMismatch len (length buf))
          else if len > length buf then Inl (LengthMismatch len (length buf))
          else
            res_bind (if ap
                      then res_bind (parse_auth_section (drop MIN_LEN_NO_AUTH (take len buf))) (\<lambda>a. Inr (Some a))
                      else Inr None) (\<lambda>au.
              Inr \<lparr>version = drop_bit 5 (buf ! 0), diagnostic = diag, state = st,
                   poll = (drop_bit 5 (buf ! 1) AND 1 = 1), final_bit = (drop_bit 4 (buf ! 1) AND 1 = 1),
                   control_plane_independent = (drop_bit 3 (buf ! 1) AND 1 = 1), auth_present = ap,
                   demand = (drop_bit 1 (buf ! 1) AND 1 = 1), multipoint = (buf ! 1 AND 1 = 1),
                   detect_mult = buf ! 2, my_discriminator = word_at 4, your_discriminator = word_at 8,
                   desired_min_tx_interval = word_at 12, required_min_rx_interval = word_at 16,
                   required_min_echo_rx_interval = word_at 20, auth = au\<rparr>))))"

section \<open>Round trip\<close>

lemma diagnostic_round_trip [simp]:
  "Diagnostic_from_u8 (Diagnostic_as_u8 d) = Inr d" "Diagnostic_as_u8 d AND 0x1f = Diagnostic_as_u8 d"
  by (cases d; simp add: Diagnostic_from_u8_def)+

lemma state_round_trip [simp]:
  "SessionState_from_u8 (SessionState_as_u8 s) = Inr s" "SessionState_as_u8 s AND 0x03 = SessionState_as_u8 s"
  by (cases s; simp add: SessionState_from_u8_def)+

lemma auth_type_round_trip [simp]: "AuthType_from_u8 (AuthType_code t) = t"
  by (cases t) (simp_all add: AuthType_from_u8_def)

lemma first_byte_fields:
  assumes "unat (version p) < 8"
  shows "drop_bit 5 (first_byte p) = version p" and "first_byte p AND 0x1f = Diagnostic_as_u8 (diagnostic p)"
proof -
  have "version p \<in> {0, 1, 2, 3, 4, 5, 6, 7}"
  proof -
    have "version p = word_of_nat (unat (version p))" by simp
    moreover have "unat (version p) \<in> {0, 1, 2, 3, 4, 5, 6, 7}" using assms by auto
    ultimately show ?thesis by (auto simp del: of_nat_unat)
  qed
  then show "drop_bit 5 (first_byte p) = version p" "first_byte p AND 0x1f = Diagnostic_as_u8 (diagnostic p)"
    by (cases "diagnostic p"; auto simp: first_byte_def)+
qed

lemma flag_test: "drop_bit k (w :: u8) AND 1 = 1 \<longleftrightarrow> bit w k"
  by (simp add: and_one_eq bit_iff_odd_drop_bit odd_iff_mod_2_eq_one)

lemma bit_u8_iff: "bit (bit_u8 b) n \<longleftrightarrow> b \<and> n = 0"
  by (simp add: bit_u8_def bit_1_iff)

lemma bit_u8_double: "bit (bit_u8 b * 2) n \<longleftrightarrow> b \<and> n = 1"
  using bit_push_bit_iff [of 1 "bit_u8 b" n] by (auto simp: push_bit_eq_mult bit_u8_iff)

lemma state_code_bits: "bit (SessionState_as_u8 s) n \<Longrightarrow> n < 2"
  using high_bits_clear [of "SessionState_as_u8 s" 2 n] by (cases "n < 2"; cases s) auto

lemma flag_byte_fields:
  "bit (flag_byte p) 5 = poll p" "bit (flag_byte p) 4 = final_bit p" "bit (flag_byte p) 3 = control_plane_independent p"
  "bit (flag_byte p) 2 = auth_present p" "bit (flag_byte p) 1 = demand p" "bit (flag_byte p) 0 = multipoint p"
  "drop_bit 6 (flag_byte p) AND 0x03 = SessionState_as_u8 (state p)"
proof -
  show "bit (flag_byte p) 5 = poll p" "bit (flag_byte p) 4 = final_bit p" "bit (flag_byte p) 3 = control_plane_independent p"
    "bit (flag_byte p) 2 = auth_present p" "bit (flag_byte p) 1 = demand p" "bit (flag_byte p) 0 = multipoint p"
    by (auto simp: flag_byte_def bit_simps bit_u8_iff bit_u8_double)
  have "drop_bit 6 (flag_byte p) AND mask 2 = SessionState_as_u8 (state p)"
    by (rule bit_word_eqI) (auto simp: flag_byte_def bit_simps bit_u8_iff bit_u8_double dest: state_code_bits)
  then show "drop_bit 6 (flag_byte p) AND 0x03 = SessionState_as_u8 (state p)"
    by (simp add: mask_eq_exp_minus_1)
qed

text \<open>Authentication sections the decoder accepts: a password of 1 to 228 bytes, or a digest of the
  length of its type.\<close>

definition auth_wf :: "AuthSection \<Rightarrow> bool" where
  "auth_wf a =
     (case auth_type a of
        Reserved \<Rightarrow> False
      | SimplePassword \<Rightarrow> 1 \<le> length (auth_data a) \<and> length (auth_data a) \<le> 228 \<and> sequence_number a = 0
      | t \<Rightarrow> length (auth_data a) = digest_len t)"

definition packet_wf :: "ControlPacket \<Rightarrow> bool" where
  "packet_wf p = (unat (version p) < 8 \<and> (auth_present p \<longleftrightarrow> auth p \<noteq> None) \<and>
     (case auth p of None \<Rightarrow> True | Some a \<Rightarrow> auth_wf a))"

lemma fixed_array_id [simp]: "length d = n \<Longrightarrow> fixed_array n d = d"
  by (simp add: fixed_array_def)

lemma length_fixed_array [simp]: "length (fixed_array n d) = n"
  by (simp add: fixed_array_def)

lemma length_auth_bytes: "auth_wf a \<Longrightarrow> 4 \<le> length (auth_bytes a) \<and> length (auth_bytes a) \<le> 231"
  by (auto simp: auth_wf_def auth_bytes_def split: AuthType.splits)

lemma take4_be32: "take 4 (be32 a @ xs) = be32 a" "drop 4 (be32 a @ xs) = xs"
  by simp_all

lemma parse_auth_bytes:
  assumes "auth_wf a"
  shows "parse_auth_section (auth_bytes a) = Inr a"
proof (cases "auth_type a")
  case SimplePassword
  then have len: "length (auth_data a) + 3 < 2 ^ 8" "1 \<le> length (auth_data a)" "sequence_number a = 0"
    using assms by (auto simp: auth_wf_def)
  have "unat (word_of_nat (length (auth_data a) + 3) :: u8) = length (auth_data a) + 3"
    using len(1) by (simp only: unat_of_nat) simp
  with SimplePassword len show ?thesis
    by (auto simp: parse_auth_section_def auth_bytes_def AuthType_from_u8_def Let_def numeral_3_eq_3)
qed (use assms in \<open>simp_all add: parse_auth_section_def auth_bytes_def auth_wf_def AuthType_from_u8_def\<close>)

text \<open>The encoder with its length byte in place.\<close>

lemma to_bytes_layout:
  fixes p
  defines "tail \<equiv> (case auth p of None \<Rightarrow> [] | Some a \<Rightarrow> auth_bytes a)"
  shows "to_bytes p = [first_byte p, flag_byte p, detect_mult p, word_of_nat (24 + length tail)]
    @ be32 (my_discriminator p) @ be32 (your_discriminator p) @ be32 (desired_min_tx_interval p)
    @ be32 (required_min_rx_interval p) @ be32 (required_min_echo_rx_interval p) @ tail"
  by (simp add: to_bytes_def Let_def tail_def)

lemma take_drop_at: "length xs = i \<Longrightarrow> length ys = 4 \<Longrightarrow> take 4 (drop i (xs @ ys @ zs)) = ys"
  by simp

lemma from_to_bytes:
  assumes "packet_wf p"
  shows "from_bytes (to_bytes p) = Inr p"
proof -
  define tail where "tail = (case auth p of None \<Rightarrow> [] | Some a \<Rightarrow> auth_bytes a)"
  have tail: "length tail \<le> 231" "auth_present p \<Longrightarrow> 4 \<le> length tail" "\<not> auth_present p \<Longrightarrow> tail = []"
    using assms length_auth_bytes by (auto simp: tail_def packet_wf_def split: option.splits)
  have len: "unat (word_of_nat (24 + length tail) :: u8) = 24 + length tail"
    using tail(1) by (simp only: unat_of_nat) simp
  have au: "(if auth_present p then res_bind (parse_auth_section tail) (\<lambda>a. Inr (Some a)) else Inr None) = Inr (auth p)"
    using assms parse_auth_bytes by (auto simp: tail_def packet_wf_def split: option.splits)
  let ?b = "[first_byte p, flag_byte p, detect_mult p, word_of_nat (24 + length tail)]
    @ be32 (my_discriminator p) @ be32 (your_discriminator p) @ be32 (desired_min_tx_interval p)
    @ be32 (required_min_rx_interval p) @ be32 (required_min_echo_rx_interval p) @ tail"
  have nth: "?b ! 0 = first_byte p" "?b ! 1 = flag_byte p" "?b ! 2 = detect_mult p"
      "?b ! 3 = word_of_nat (24 + length tail)" "length ?b = 24 + length tail" "drop 24 ?b = tail"
    by (simp_all add: numeral_3_eq_3)
  have word: "take 4 (drop 4 ?b) = be32 (my_discriminator p)" "take 4 (drop 8 ?b) = be32 (your_discriminator p)"
      "take 4 (drop 12 ?b) = be32 (desired_min_tx_interval p)" "take 4 (drop 16 ?b) = be32 (required_min_rx_interval p)"
      "take 4 (drop 20 ?b) = be32 (required_min_echo_rx_interval p)"
    by simp_all
  have bit0: "flag_byte p AND 1 = 1 \<longleftrightarrow> multipoint p" using flag_test [of 0 "flag_byte p"] flag_byte_fields(6) by simp
  have "from_bytes ?b = Inr p"
    using assms tail len au
    unfolding from_bytes_def Let_def nth word flag_test flag_byte_fields
      bit0 from_be_be
    by (cases "auth p") (simp_all add: first_byte_fields packet_wf_def nth del: append_Cons)
  then show ?thesis unfolding to_bytes_layout tail_def .
qed

text \<open>
  C29: A control packet with a three-bit version, whose authentication section is present exactly
  when its flag says so and has a decodable length, is decoded from its encoding.
\<close>

theorem control_packet_round_trip: "packet_wf p \<Longrightarrow> from_bytes (to_bytes p) = Inr p"
  by (rule from_to_bytes)

definition sample_packet :: ControlPacket where
  "sample_packet = \<lparr>version = 1, diagnostic = PathDown, state = Up, poll = True, final_bit = False,
     control_plane_independent = True, auth_present = True, demand = False, multipoint = False, detect_mult = 3,
     my_discriminator = 17, your_discriminator = 0xFFFFFFFF, desired_min_tx_interval = 1000000,
     required_min_rx_interval = 50000, required_min_echo_rx_interval = 0,
     auth = Some \<lparr>auth_type = SimplePassword, key_id = 2, sequence_number = 0, auth_data = [1, 2, 3]\<rparr>\<rparr>"

theorem control_packet_round_trip_witness: "packet_wf sample_packet \<and> from_bytes (to_bytes sample_packet) = Inr sample_packet"
proof -
  have "packet_wf sample_packet" by (simp add: sample_packet_def packet_wf_def auth_wf_def)
  with control_packet_round_trip [OF this] show ?thesis by simp
qed

end
