(* ===== verification/Bfd_Session.thy ===== *)
theory Bfd_Session
  imports Bfd_Packet
begin

unbundle bit_operations_syntax

text \<open>
  One endpoint of a BFD session, \<^verbatim>\<open>tpt-bfd/src/session.rs\<close>: configuration, the state machine of
  packet reception, authentication, packet construction and the detection timer, and the loop
  body of the UDP transport, \<^verbatim>\<open>tpt-bfd/src/transport.rs\<close>. Time is a natural number of
  nanoseconds that the operations reading the clock take as the argument \<open>now\<close>; the hash of the
  \<^verbatim>\<open>sha1\<close> crate is the argument \<open>sha1\<close>. A method with \<open>&mut self\<close> returns the new session with
  its result.
\<close>

datatype Role = Active | Passive

record AuthConfig =
  ac_auth_type :: AuthType
  ac_key_id :: u8
  ac_key :: bytes

record SessionConfig =
  c_local_discriminator :: u32
  c_desired_min_tx_interval :: u32
  c_required_min_rx_interval :: u32
  c_detect_mult :: u8
  c_demand_mode :: bool
  c_control_plane_independent :: bool
  c_role :: Role
  c_auth :: "AuthConfig option"

definition validate :: "SessionConfig \<Rightarrow> BfdError + unit" where
  "validate c =
     (case c_auth c of
        Some a \<Rightarrow>
          (case ac_auth_type a of
             SimplePassword \<Rightarrow> Inr ()
           | KeyedSha1 \<Rightarrow> Inr ()
           | MeticulousKeyedSha1 \<Rightarrow> Inr ()
           | t \<Rightarrow> Inl (UnsupportedAuth (AuthType_code t)))
      | None \<Rightarrow> Inr ())"

datatype PacketResult = Discarded | Accepted "ControlPacket option"

record Session =
  session_state :: SessionState
  local_diag :: Diagnostic
  local_discr :: u32
  desired_min_tx :: u32
  required_min_rx :: u32
  s_detect_mult :: u8
  demand_mode :: bool
  cpi :: bool
  role :: Role
  s_auth :: "AuthConfig option"
  remote_discr :: u32
  remote_state :: SessionState
  remote_demand :: bool
  remote_min_rx :: u32
  remote_desired_min_tx :: u32
  remote_detect_mult :: u8
  last_rx :: "nat option"
  poll_sequence :: bool
  poll_start :: "nat option"
  xmit_auth_seq :: u32
  rcv_auth_seq :: u32
  auth_seq_known :: bool

text \<open>\<open>seed\<close> is the clock reading that initialises the transmitted sequence number.\<close>

definition Session_new :: "u32 \<Rightarrow> SessionConfig \<Rightarrow> BfdError + Session" where
  "Session_new seed c =
     res_bind (validate c) (\<lambda>_.
       Inr \<lparr>session_state = Down, local_diag = NoDiagnostic, local_discr = c_local_discriminator c,
            desired_min_tx = c_desired_min_tx_interval c, required_min_rx = c_required_min_rx_interval c,
            s_detect_mult = c_detect_mult c, demand_mode = c_demand_mode c,
            cpi = c_control_plane_independent c, role = c_role c, s_auth = c_auth c,
            remote_discr = 0, remote_state = Down, remote_demand = False, remote_min_rx = 1,
            remote_desired_min_tx = 0, remote_detect_mult = 0,
            last_rx = None, poll_sequence = False, poll_start = None,
            xmit_auth_seq = seed, rcv_auth_seq = 0, auth_seq_known = False\<rparr>)"

definition is_up :: "Session \<Rightarrow> bool" where
  "is_up s = (session_state s = Up)"

definition remote_demand_active :: "Session \<Rightarrow> bool" where
  "remote_demand_active s = (remote_demand s \<and> session_state s = Up \<and> remote_state s = Up)"

definition demand_bit :: "Session \<Rightarrow> bool" where
  "demand_bit s = (demand_mode s \<and> session_state s = Up \<and> remote_state s = Up)"

definition admin_down :: "Session \<Rightarrow> Session" where
  "admin_down s = s\<lparr>session_state := AdminDown, local_diag := AdministrativelyDown\<rparr>"

definition admin_up :: "Session \<Rightarrow> Session" where
  "admin_up s = (if session_state s = AdminDown then s\<lparr>session_state := Down, local_diag := NoDiagnostic\<rparr> else s)"

definition start_poll :: "nat \<Rightarrow> Session \<Rightarrow> Session" where
  "start_poll now s = s\<lparr>poll_sequence := True, poll_start := Some now\<rparr>"

section \<open>Packet construction\<close>

definition effective_desired_min_tx :: "Session \<Rightarrow> u32" where
  "effective_desired_min_tx s =
     (if session_state s = Up then desired_min_tx s else max (desired_min_tx s) 1000000)"

definition should_send_periodic :: "Session \<Rightarrow> bool" where
  "should_send_periodic s =
     (if role s = Passive \<and> remote_discr s = 0 then False
      else if remote_min_rx s = 0 then False
      else if remote_demand_active s \<and> \<not> poll_sequence s then False
      else True)"

text \<open>The closure of \<open>build_packet\<close> that advances the transmitted sequence number.\<close>

definition build_auth :: "Session \<Rightarrow> AuthSection option \<times> Session" where
  "build_auth s =
     (case s_auth s of
        None \<Rightarrow> (None, s)
      | Some cfg \<Rightarrow>
          let s' = (if is_keyed (ac_auth_type cfg) then s\<lparr>xmit_auth_seq := xmit_auth_seq s + 1\<rparr> else s)
          in (Some \<lparr>auth_type = ac_auth_type cfg, key_id = ac_key_id cfg,
                    sequence_number = (if is_keyed (ac_auth_type cfg) then xmit_auth_seq s' else 0),
                    auth_data = (if ac_auth_type cfg = SimplePassword then ac_key cfg else [])\<rparr>, s'))"

definition build_packet :: "bool \<Rightarrow> bool \<Rightarrow> Session \<Rightarrow> ControlPacket \<times> Session" where
  "build_packet p f s =
     (let d_bit = demand_mode s \<and> session_state s = Up \<and> remote_state s = Up;
          (au, s') = build_auth s
      in (\<lparr>version = BFD_VERSION, diagnostic = local_diag s', state = session_state s',
           poll = p, final_bit = f, control_plane_independent = cpi s', auth_present = (au \<noteq> None),
           demand = d_bit, multipoint = False, detect_mult = s_detect_mult s',
           my_discriminator = local_discr s', your_discriminator = remote_discr s',
           desired_min_tx_interval = effective_desired_min_tx s',
           required_min_rx_interval = required_min_rx s', required_min_echo_rx_interval = 0, auth = au\<rparr>, s'))"

definition next_periodic_packet :: "Session \<Rightarrow> ControlPacket option \<times> Session" where
  "next_periodic_packet s =
     (if \<not> should_send_periodic s then (None, s)
      else let (p, s') = build_packet (poll_sequence s) False s in (Some p, s'))"

text \<open>\<open>buf[off..off + n].copy_from_slice(xs)\<close>, where \<open>n = xs.len()\<close>; out of range it panics.\<close>

definition copy_at :: "nat \<Rightarrow> bytes \<Rightarrow> bytes \<Rightarrow> bytes option" where
  "copy_at off xs buf =
     (if off + length xs \<le> length buf then Some (take off buf @ xs @ drop (off + length xs) buf) else None)"

definition key_padded :: "nat \<Rightarrow> bytes \<Rightarrow> bytes" where
  "key_padded dl key = (let n = min (length key) dl in take n key @ replicate (dl - n) 0)"

definition encode_packet :: "(bytes \<Rightarrow> bytes) \<Rightarrow> Session \<Rightarrow> ControlPacket \<Rightarrow> bytes option" where
  "encode_packet sha1 s pkt =
     (case s_auth s of
        None \<Rightarrow> Some (to_bytes pkt)
      | Some cfg \<Rightarrow>
          if is_keyed (ac_auth_type cfg) then
            let off = 24 + 8 in
            Option.bind (copy_at off (key_padded (digest_len (ac_auth_type cfg)) (ac_key cfg)) (to_bytes pkt)) (\<lambda>buf.
              copy_at off (sha1 buf) buf)
          else Some (to_bytes pkt))"

section \<open>Reception\<close>

definition verify_auth :: "(bytes \<Rightarrow> bytes) \<Rightarrow> ControlPacket \<Rightarrow> bytes \<Rightarrow> Session \<Rightarrow> (BfdError failure + bool) \<times> Session" where
  "verify_auth sha1 pkt raw s =
     (case (s_auth s, auth pkt) of
        (Some cfg, Some sec) \<Rightarrow>
          if auth_type sec \<noteq> ac_auth_type cfg then (Inr False, s)
          else if auth_type sec = SimplePassword then (Inr (auth_data sec = ac_key cfg), s)
          else if is_keyed (auth_type sec) then
            let dl = digest_len (ac_auth_type cfg); off = 24 + 8 in
            if length raw < off + dl then (Inr False, s)
            else
              (case copy_at off (key_padded dl (ac_key cfg)) raw of
                 None \<Rightarrow> (Inl Panic, s)
               | Some buf \<Rightarrow>
                   if sha1 buf \<noteq> take (min dl (length (auth_data sec))) (auth_data sec) then (Inr False, s)
                   else
                     let seq = sequence_number sec in
                     if auth_seq_known s \<and>
                        (if ac_auth_type cfg = MeticulousKeyedSha1 then seq \<noteq> rcv_auth_seq s + 1
                         else seq < rcv_auth_seq s)
                     then (Inl (Err AuthSeqReplay), s)
                     else (Inr True, s\<lparr>rcv_auth_seq := seq, auth_seq_known := True\<rparr>))
          else (Inl (Err (UnsupportedAuth (AuthType_code (auth_type sec)))), s)
      | _ \<Rightarrow> (Inl Panic, s))"

definition packet_discarded :: "ControlPacket \<Rightarrow> Session \<Rightarrow> bool" where
  "packet_discarded pkt s =
     (version pkt \<noteq> BFD_VERSION \<or> detect_mult pkt = 0 \<or> multipoint pkt \<or> my_discriminator pkt = 0 \<or>
      your_discriminator pkt \<noteq> 0 \<and> your_discriminator pkt \<noteq> local_discr s \<or>
      your_discriminator pkt = 0 \<and> state pkt \<noteq> Down \<and> state pkt \<noteq> AdminDown)"

definition learn_remote :: "ControlPacket \<Rightarrow> Session \<Rightarrow> Session" where
  "learn_remote pkt s =
     s\<lparr>remote_discr := my_discriminator pkt, remote_state := state pkt, remote_demand := demand pkt,
       remote_min_rx := required_min_rx_interval pkt, remote_desired_min_tx := desired_min_tx_interval pkt,
       remote_detect_mult := detect_mult pkt\<rparr>"

definition state_step :: "ControlPacket \<Rightarrow> Session \<Rightarrow> Session" where
  "state_step pkt s =
     (if state pkt = AdminDown then
        (if session_state s \<noteq> Down
         then s\<lparr>local_diag := NeighborSignaledSessionDown, session_state := Down\<rparr> else s)
      else if session_state s = Down then
        (if state pkt = Down then s\<lparr>session_state := Init\<rparr>
         else if state pkt = Init then s\<lparr>session_state := Up\<rparr> else s)
      else if session_state s = Init then
        (if state pkt = Init \<or> state pkt = Up then s\<lparr>session_state := Up\<rparr> else s)
      else
        (if state pkt = Down
         then s\<lparr>local_diag := NeighborSignaledSessionDown, session_state := Down\<rparr> else s))"

definition process_packet :: "nat \<Rightarrow> ControlPacket \<Rightarrow> Session \<Rightarrow> PacketResult \<times> Session" where
  "process_packet now pkt s =
     (if packet_discarded pkt s then (Discarded, s)
      else
        let s1 = learn_remote pkt s;
            s2 = (if final_bit pkt \<and> poll_sequence s1 then s1\<lparr>poll_sequence := False, poll_start := None\<rparr> else s1)
        in
        if session_state s2 = AdminDown then (Accepted None, s2\<lparr>last_rx := Some now\<rparr>)
        else
          let s3 = state_step pkt s2;
              (respond, s4) = (if poll pkt then let (p, s') = build_packet False True s3 in (Some p, s') else (None, s3))
          in (Accepted respond, s4\<lparr>last_rx := Some now\<rparr>))"

definition process_bytes :: "(bytes \<Rightarrow> bytes) \<Rightarrow> nat \<Rightarrow> bytes \<Rightarrow> Session \<Rightarrow> (BfdError failure + ControlPacket option) \<times> Session" where
  "process_bytes sha1 now buf s =
     (case from_bytes buf of
        Inl _ \<Rightarrow> (Inr None, s)
      | Inr pkt \<Rightarrow>
          if auth_present pkt \<noteq> (s_auth s \<noteq> None) then (Inr None, s)
          else
            let (ok, s1) = (if auth_present pkt then verify_auth sha1 pkt buf s else (Inr True, s)) in
            case ok of
              Inl e \<Rightarrow> (Inl e, s1)
            | Inr False \<Rightarrow> (Inr None, s1)
            | Inr True \<Rightarrow>
                (case process_packet now pkt s1 of
                   (Discarded, s2) \<Rightarrow> (Inr None, s2)
                 | (Accepted respond, s2) \<Rightarrow> (Inr respond, s2)))"

section \<open>Timers\<close>

text \<open>\<open>Duration::from_micros\<close> in nanoseconds; the product of a \<open>u32\<close> and a \<open>u8\<close> fits a \<open>u64\<close>.\<close>

definition from_micros :: "nat \<Rightarrow> nat" where
  "from_micros us = us * 1000"

definition transmit_interval :: "Session \<Rightarrow> nat" where
  "transmit_interval s = from_micros (unat (max (effective_desired_min_tx s) (remote_min_rx s)))"

definition detection_time :: "Session \<Rightarrow> nat" where
  "detection_time s =
     (let (interval, mult) =
        (if remote_demand_active s
         then (max (effective_desired_min_tx s) (remote_min_rx s), s_detect_mult s)
         else (max (required_min_rx s) (remote_desired_min_tx s), remote_detect_mult s))
      in from_micros (unat interval * unat mult))"

definition declare_down :: "Diagnostic \<Rightarrow> Session \<Rightarrow> Session" where
  "declare_down d s = s\<lparr>session_state := Down, local_diag := d, remote_discr := 0\<rparr>"

text \<open>\<open>Instant::elapsed\<close> saturates at zero, as subtraction on natural numbers does.\<close>

definition check_timeout :: "nat \<Rightarrow> Session \<Rightarrow> bool \<times> Session" where
  "check_timeout now s =
     (if remote_demand_active s then
        (case (poll_sequence s, poll_start s) of
           (True, Some start) \<Rightarrow>
             if now - start \<ge> detection_time s
             then (True, (declare_down ControlDetectionTimeExpired s)\<lparr>poll_sequence := False, poll_start := None\<rparr>)
             else (False, s)
         | _ \<Rightarrow> (False, s))
      else if session_state s = Init \<or> session_state s = Up then
        (case last_rx s of
           Some t \<Rightarrow>
             if now - t \<ge> detection_time s then (True, declare_down ControlDetectionTimeExpired s) else (False, s)
         | None \<Rightarrow> (False, s))
      else (False, s))"

section \<open>The UDP transport\<close>

text \<open>
  The socket is what \<open>recv_from\<close> answers, \<open>RecvResult\<close>, and the predicate \<open>sends\<close> that says which
  datagrams \<open>send_to\<close> takes. The operations return the datagrams they sent. Every read of the
  clock is an argument.
\<close>

datatype RecvResult = Datagram bytes | WouldBlock | RecvFailed

record UdpTransport =
  t_session :: Session
  last_send :: nat

definition send_to :: "(bytes \<Rightarrow> bool) \<Rightarrow> bytes \<Rightarrow> nat \<Rightarrow> UdpTransport \<Rightarrow> (BfdError failure + unit) \<times> bytes list \<times> UdpTransport" where
  "send_to sends bs now t = (if sends bs then (Inr (), [bs], t\<lparr>last_send := now\<rparr>) else (Inl (Err Io), [], t))"

definition send_packet ::
  "(bytes \<Rightarrow> bytes) \<Rightarrow> (bytes \<Rightarrow> bool) \<Rightarrow> nat \<Rightarrow> UdpTransport \<Rightarrow> (BfdError failure + unit) \<times> bytes list \<times> UdpTransport" where
  "send_packet sha1 sends now t =
     (case next_periodic_packet (t_session t) of
        (None, s) \<Rightarrow> (Inr (), [], t\<lparr>t_session := s\<rparr>)
      | (Some pkt, s) \<Rightarrow>
          (case encode_packet sha1 s pkt of
             None \<Rightarrow> (Inl Panic, [], t\<lparr>t_session := s\<rparr>)
           | Some bs \<Rightarrow> send_to sends bs now (t\<lparr>t_session := s\<rparr>)))"

definition recv_packet ::
  "(bytes \<Rightarrow> bytes) \<Rightarrow> (bytes \<Rightarrow> bool) \<Rightarrow> nat \<Rightarrow> nat \<Rightarrow> RecvResult \<Rightarrow> UdpTransport
     \<Rightarrow> (BfdError failure + unit option) \<times> bytes list \<times> UdpTransport" where
  "recv_packet sha1 sends now_rx now_tx rx t =
     (case rx of
        Datagram buf \<Rightarrow>
          (case process_bytes sha1 now_rx (take 1500 buf) (t_session t) of
             (Inl e, s) \<Rightarrow> (Inl e, [], t\<lparr>t_session := s\<rparr>)
           | (Inr None, s) \<Rightarrow> (Inr (Some ()), [], t\<lparr>t_session := s\<rparr>)
           | (Inr (Some resp), s) \<Rightarrow>
               (case encode_packet sha1 s resp of
                  None \<Rightarrow> (Inl Panic, [], t\<lparr>t_session := s\<rparr>)
                | Some bs \<Rightarrow>
                    (case send_to sends bs now_tx (t\<lparr>t_session := s\<rparr>) of
                       (Inl e, out, t') \<Rightarrow> (Inl e, out, t')
                     | (Inr (), out, t') \<Rightarrow> (Inr (Some ()), out, t'))))
      | WouldBlock \<Rightarrow> (Inr None, [], t)
      | RecvFailed \<Rightarrow> (Inl (Err Io), [], t))"

record StepClock =
  clk_rx :: nat
  clk_response :: nat
  clk_interval :: nat
  clk_send :: nat
  clk_timeout :: nat

definition transport_step ::
  "(bytes \<Rightarrow> bytes) \<Rightarrow> (bytes \<Rightarrow> bool) \<Rightarrow> StepClock \<Rightarrow> RecvResult \<Rightarrow> UdpTransport
     \<Rightarrow> (BfdError failure + unit) \<times> bytes list \<times> UdpTransport" where
  "transport_step sha1 sends clk rx t =
     (case recv_packet sha1 sends (clk_rx clk) (clk_response clk) rx t of
        (Inl e, out, t1) \<Rightarrow> (Inl e, out, t1)
      | (Inr _, out, t1) \<Rightarrow>
          (case (if should_send_periodic (t_session t1) \<and>
                    clk_interval clk - last_send t1 \<ge> transmit_interval (t_session t1)
                 then send_packet sha1 sends (clk_send clk) t1 else (Inr (), [], t1)) of
             (Inl e, out2, t2) \<Rightarrow> (Inl e, out @ out2, t2)
           | (Inr _, out2, t2) \<Rightarrow>
               (Inr (), out @ out2, t2\<lparr>t_session := snd (check_timeout (clk_timeout clk) (t_session t2))\<rparr>)))"

text \<open>\<open>UdpTransport::run\<close>: one entry per iteration; the list ends where the stop flag is found set.\<close>

fun transport_run ::
  "(bytes \<Rightarrow> bytes) \<Rightarrow> (bytes \<Rightarrow> bool) \<Rightarrow> (StepClock \<times> RecvResult) list \<Rightarrow> UdpTransport
     \<Rightarrow> (BfdError failure + unit) \<times> bytes list \<times> UdpTransport" where
  "transport_run sha1 sends [] t = (Inr (), [], t)"
| "transport_run sha1 sends ((clk, rx) # es) t =
     (case transport_step sha1 sends clk rx t of
        (Inl e, out, t1) \<Rightarrow> (Inl e, out, t1)
      | (Inr _, out, t1) \<Rightarrow>
          (case transport_run sha1 sends es t1 of (r, out2, t2) \<Rightarrow> (r, out @ out2, t2)))"

section \<open>Signed packets\<close>

text \<open>A SHA-1 digest has 20 bytes. What \<open>encode_packet\<close> puts on the wire, as a packet: for the keyed types the digest of the packet
  with the padded key in place of the digest.\<close>

definition hash20 :: "(bytes \<Rightarrow> bytes) \<Rightarrow> bool" where
  "hash20 h \<longleftrightarrow> (\<forall>b. length (h b) = 20)"

lemma hash20D [simp]: "hash20 h \<Longrightarrow> length (h b) = 20"
  by (simp add: hash20_def)

definition with_digest :: "bytes \<Rightarrow> ControlPacket \<Rightarrow> ControlPacket" where
  "with_digest d p = p\<lparr>auth := map_option (\<lambda>a. a\<lparr>auth_data := d\<rparr>) (auth p)\<rparr>"

definition signed_pkt :: "(bytes \<Rightarrow> bytes) \<Rightarrow> AuthConfig option \<Rightarrow> ControlPacket \<Rightarrow> ControlPacket" where
  "signed_pkt sha1 ac p =
     (case ac of
        None \<Rightarrow> p
      | Some cfg \<Rightarrow>
          if is_keyed (ac_auth_type cfg)
          then with_digest (sha1 (to_bytes (with_digest (key_padded 20 (ac_key cfg)) p))) p else p)"

lemma with_digest_simps [simp]:
  "with_digest d (with_digest e p) = with_digest d p"
  "version (with_digest d p) = version p" "state (with_digest d p) = state p"
  "detect_mult (with_digest d p) = detect_mult p" "multipoint (with_digest d p) = multipoint p"
  "poll (with_digest d p) = poll p" "final_bit (with_digest d p) = final_bit p"
  "my_discriminator (with_digest d p) = my_discriminator p" "auth_present (with_digest d p) = auth_present p"
  "your_discriminator (with_digest d p) = your_discriminator p" "demand (with_digest d p) = demand p"
  "desired_min_tx_interval (with_digest d p) = desired_min_tx_interval p"
  "required_min_rx_interval (with_digest d p) = required_min_rx_interval p"
  by (simp_all add: with_digest_def option.map_comp comp_def)

lemma signed_simps [simp]:
  "version (signed_pkt h c p) = version p" "state (signed_pkt h c p) = state p"
  "detect_mult (signed_pkt h c p) = detect_mult p" "multipoint (signed_pkt h c p) = multipoint p"
  "poll (signed_pkt h c p) = poll p" "final_bit (signed_pkt h c p) = final_bit p"
  "my_discriminator (signed_pkt h c p) = my_discriminator p" "auth_present (signed_pkt h c p) = auth_present p"
  "your_discriminator (signed_pkt h c p) = your_discriminator p" "demand (signed_pkt h c p) = demand p"
  "desired_min_tx_interval (signed_pkt h c p) = desired_min_tx_interval p"
  "required_min_rx_interval (signed_pkt h c p) = required_min_rx_interval p"
  by (simp_all add: signed_pkt_def split: option.splits)

lemma length_key_padded [simp]: "length (key_padded n key) = n"
  by (simp add: key_padded_def Let_def)

lemma digest_len_keyed [simp]: "is_keyed t \<Longrightarrow> digest_len t = 20"
  by (auto simp: is_keyed_def)

lemma auth_bytes_keyed:
  "is_keyed (auth_type a) \<Longrightarrow>
   auth_bytes a = [AuthType_code (auth_type a), 28, key_id a, 0] @ be32 (sequence_number a) @ fixed_array 20 (auth_data a)"
  by (auto simp: auth_bytes_def is_keyed_def)

lemma to_bytes_keyed:
  assumes "auth p = Some a" and "is_keyed (auth_type a)"
  obtains pre where "length pre = 32" and "\<And>d. to_bytes (with_digest d p) = pre @ fixed_array 20 d"
    and "to_bytes p = pre @ fixed_array 20 (auth_data a)"
proof
  let ?pre = "[first_byte p, flag_byte p, detect_mult p, 52]
    @ be32 (my_discriminator p) @ be32 (your_discriminator p) @ be32 (desired_min_tx_interval p)
    @ be32 (required_min_rx_interval p) @ be32 (required_min_echo_rx_interval p)
    @ [AuthType_code (auth_type a), 28, key_id a, 0] @ be32 (sequence_number a)"
  show "length ?pre = 32" by simp
  have keep: "first_byte (with_digest d p) = first_byte p" "flag_byte (with_digest d p) = flag_byte p"
      "required_min_echo_rx_interval (with_digest d p) = required_min_echo_rx_interval p"
      "auth (with_digest d p) = Some (a\<lparr>auth_data := d\<rparr>)" for d
    using assms(1) by (simp_all add: first_byte_def flag_byte_def with_digest_def)
  show "to_bytes (with_digest d p) = ?pre @ fixed_array 20 d" for d
    using assms(2) by (simp add: to_bytes_layout keep auth_bytes_keyed)
  show "to_bytes p = ?pre @ fixed_array 20 (auth_data a)"
    using assms by (simp add: to_bytes_layout auth_bytes_keyed)
qed

lemma copy_digest:
  assumes "auth p = Some a" and "is_keyed (auth_type a)" and "length d = 20"
  shows "copy_at 32 d (to_bytes p) = Some (to_bytes (with_digest d p))"
proof -
  obtain pre where "length pre = 32" "to_bytes (with_digest d p) = pre @ fixed_array 20 d"
      "to_bytes p = pre @ fixed_array 20 (auth_data a)"
    using to_bytes_keyed [OF assms(1, 2)] by metis
  then show ?thesis using assms(3) by (simp add: copy_at_def)
qed

text \<open>Configurations that produce decodable packets, and the sections of the packets they build.\<close>

definition auth_cfg_ok :: "AuthConfig option \<Rightarrow> bool" where
  "auth_cfg_ok ac =
     (case ac of
        None \<Rightarrow> True
      | Some c \<Rightarrow> is_keyed (ac_auth_type c) \<or>
                  ac_auth_type c = SimplePassword \<and> 1 \<le> length (ac_key c) \<and> length (ac_key c) \<le> 228)"

definition auth_of :: "AuthConfig option \<Rightarrow> u32 \<Rightarrow> AuthSection option" where
  "auth_of ac seq =
     (case ac of
        None \<Rightarrow> None
      | Some c \<Rightarrow>
          Some \<lparr>auth_type = ac_auth_type c, key_id = ac_key_id c,
                sequence_number = (if is_keyed (ac_auth_type c) then seq else 0),
                auth_data = (if ac_auth_type c = SimplePassword then ac_key c else [])\<rparr>)"

definition auth_match :: "AuthConfig option \<Rightarrow> AuthConfig option \<Rightarrow> bool" where
  "auth_match x y =
     (case (x, y) of
        (None, None) \<Rightarrow> True
      | (Some a, Some b) \<Rightarrow> ac_auth_type a = ac_auth_type b \<and> ac_key a = ac_key b
      | _ \<Rightarrow> False)"

definition seq_accepted :: "u32 \<Rightarrow> Session \<Rightarrow> bool" where
  "seq_accepted seq y =
     (case s_auth y of
        None \<Rightarrow> True
      | Some c \<Rightarrow>
          is_keyed (ac_auth_type c) \<longrightarrow> auth_seq_known y \<longrightarrow>
            (if ac_auth_type c = MeticulousKeyedSha1 then seq = rcv_auth_seq y + 1 else rcv_auth_seq y \<le> seq))"

definition note_seq :: "u32 \<Rightarrow> Session \<Rightarrow> Session" where
  "note_seq seq y =
     (case s_auth y of
        None \<Rightarrow> y
      | Some c \<Rightarrow> if is_keyed (ac_auth_type c) then y\<lparr>rcv_auth_seq := seq, auth_seq_known := True\<rparr> else y)"

definition bump_seq :: "Session \<Rightarrow> Session" where
  "bump_seq s =
     (case s_auth s of
        None \<Rightarrow> s
      | Some c \<Rightarrow> if is_keyed (ac_auth_type c) then s\<lparr>xmit_auth_seq := xmit_auth_seq s + 1\<rparr> else s)"

lemma is_keyed_not_simple [simp]: "is_keyed t \<Longrightarrow> t \<noteq> SimplePassword" "\<not> is_keyed SimplePassword"
  by (auto simp: is_keyed_def)

lemma build_auth_eq: "build_auth s = (auth_of (s_auth s) (xmit_auth_seq s + 1), bump_seq s)"
  by (auto simp: build_auth_def auth_of_def bump_seq_def Let_def split: option.splits)

lemma bump_seq_simps [simp]:
  "session_state (bump_seq s) = session_state s" "local_diag (bump_seq s) = local_diag s"
  "local_discr (bump_seq s) = local_discr s" "s_detect_mult (bump_seq s) = s_detect_mult s"
  "desired_min_tx (bump_seq s) = desired_min_tx s" "required_min_rx (bump_seq s) = required_min_rx s"
  "cpi (bump_seq s) = cpi s" "role (bump_seq s) = role s" "s_auth (bump_seq s) = s_auth s"
  "remote_discr (bump_seq s) = remote_discr s" "remote_state (bump_seq s) = remote_state s"
  "remote_min_rx (bump_seq s) = remote_min_rx s" "remote_demand (bump_seq s) = remote_demand s"
  "remote_detect_mult (bump_seq s) = remote_detect_mult s" "last_rx (bump_seq s) = last_rx s"
  "poll_sequence (bump_seq s) = poll_sequence s" "poll_start (bump_seq s) = poll_start s"
  "auth_seq_known (bump_seq s) = auth_seq_known s" "rcv_auth_seq (bump_seq s) = rcv_auth_seq s"
  by (auto simp: bump_seq_def split: option.splits)

lemma note_seq_simps [simp]:
  "session_state (note_seq q s) = session_state s" "local_diag (note_seq q s) = local_diag s"
  "local_discr (note_seq q s) = local_discr s" "s_detect_mult (note_seq q s) = s_detect_mult s"
  "desired_min_tx (note_seq q s) = desired_min_tx s" "required_min_rx (note_seq q s) = required_min_rx s"
  "cpi (note_seq q s) = cpi s" "role (note_seq q s) = role s" "s_auth (note_seq q s) = s_auth s"
  "remote_discr (note_seq q s) = remote_discr s" "remote_state (note_seq q s) = remote_state s"
  "remote_min_rx (note_seq q s) = remote_min_rx s" "remote_demand (note_seq q s) = remote_demand s"
  "remote_detect_mult (note_seq q s) = remote_detect_mult s" "last_rx (note_seq q s) = last_rx s"
  "poll_sequence (note_seq q s) = poll_sequence s" "poll_start (note_seq q s) = poll_start s"
  "xmit_auth_seq (note_seq q s) = xmit_auth_seq s"
  by (auto simp: note_seq_def split: option.splits)

lemma build_packet_auth [simp]:
  "auth (fst (build_packet p f s)) = auth_of (s_auth s) (xmit_auth_seq s + 1)"
  "auth_present (fst (build_packet p f s)) = (s_auth s \<noteq> None)"
  "version (fst (build_packet p f s)) = BFD_VERSION"
  "snd (build_packet p f s) = bump_seq s"
  by (auto simp: build_packet_def build_auth_eq Let_def auth_of_def split: option.splits)

text \<open>A packet whose section comes from the configuration is signed, encoded and decoded intact.\<close>

lemma signed_packet:
  assumes "auth_cfg_ok (s_auth s)" and "hash20 h" and "auth p = auth_of (s_auth s) seq"
    and "version p = BFD_VERSION" and "auth_present p = (s_auth s \<noteq> None)"
  shows "encode_packet h s p = Some (to_bytes (signed_pkt h (s_auth s) p))"
    and "from_bytes (to_bytes (signed_pkt h (s_auth s) p)) = Inr (signed_pkt h (s_auth s) p)"
proof -
  show "encode_packet h s p = Some (to_bytes (signed_pkt h (s_auth s) p))"
  proof (cases "s_auth s")
    case (Some c)
    show ?thesis
    proof (cases "is_keyed (ac_auth_type c)")
      case True
      let ?a = "\<lparr>auth_type = ac_auth_type c, key_id = ac_key_id c, sequence_number = seq, auth_data = []\<rparr>"
      have a: "auth p = Some ?a" using assms(3) Some True by (simp add: auth_of_def)
      have d: "auth (with_digest e p) = Some (?a\<lparr>auth_data := e\<rparr>)" for e using a by (simp add: with_digest_def)
      show ?thesis
        using Some True a d assms(2) by (simp add: encode_packet_def signed_pkt_def copy_digest)
    qed (simp add: Some encode_packet_def signed_pkt_def)
  qed (simp add: encode_packet_def signed_pkt_def)
  have "packet_wf (signed_pkt h (s_auth s) p)"
    using assms by (cases "s_auth s")
      (auto simp: packet_wf_def signed_pkt_def with_digest_def auth_of_def auth_wf_def auth_cfg_ok_def is_keyed_def)
  then show "from_bytes (to_bytes (signed_pkt h (s_auth s) p)) = Inr (signed_pkt h (s_auth s) p)"
    by (rule from_to_bytes)
qed

lemma verify_signed:
  assumes "auth_cfg_ok (s_auth y)" and "hash20 h" and "auth_match x (s_auth y)"
    and "auth p = auth_of x seq" and "s_auth y = Some c"
  shows "verify_auth h (signed_pkt h x p) (to_bytes (signed_pkt h x p)) y =
    (if seq_accepted seq y then (Inr True, note_seq seq y) else (Inl (Err AuthSeqReplay), y))"
proof -
  obtain cx where x: "x = Some cx" "ac_auth_type cx = ac_auth_type c" "ac_key cx = ac_key c"
    using assms(3, 5) by (auto simp: auth_match_def split: option.splits)
  show ?thesis
  proof (cases "is_keyed (ac_auth_type c)")
    case True
    let ?a = "\<lparr>auth_type = ac_auth_type c, key_id = ac_key_id cx, sequence_number = seq, auth_data = []\<rparr>"
    let ?kp = "key_padded 20 (ac_key c)"
    have p: "auth p = Some ?a" using assms(4) x True by (simp add: auth_of_def)
    have s: "signed_pkt h x p = with_digest (h (to_bytes (with_digest ?kp p))) p"
      using x True by (simp add: signed_pkt_def)
    have d: "auth (with_digest e p) = Some (?a\<lparr>auth_data := e\<rparr>)" for e using p by (simp add: with_digest_def)
    have copy: "copy_at 32 ?kp (to_bytes (with_digest e p)) = Some (to_bytes (with_digest ?kp p))" for e
      using copy_digest [OF d [of e], of ?kp] True by simp
    have len: "52 \<le> length (to_bytes (with_digest e p))" for e
      using copy [of e] by (simp add: copy_at_def split: if_splits)
    show ?thesis
      using True assms(2, 5) len
      by (auto simp: s verify_auth_def d copy Let_def seq_accepted_def note_seq_def not_less)
  next
    case False
    then show ?thesis
      using assms x by (auto simp: verify_auth_def signed_pkt_def auth_of_def auth_cfg_ok_def seq_accepted_def note_seq_def)
  qed
qed

text \<open>A signed packet reaches the state machine of a peer with the same key, if its number is in order.\<close>

lemma process_signed:
  fixes x :: Session
  assumes "auth_cfg_ok (s_auth x)" and "auth_cfg_ok (s_auth y)" and "hash20 h"
    and "auth_match (s_auth x) (s_auth y)"
    and "auth p = auth_of (s_auth x) seq" and "version p = BFD_VERSION" and "auth_present p = (s_auth x \<noteq> None)"
  shows "seq_accepted seq y \<Longrightarrow> process_bytes h now (to_bytes (signed_pkt h (s_auth x) p)) y =
      (case process_packet now (signed_pkt h (s_auth x) p) (note_seq seq y) of
         (Discarded, z) \<Rightarrow> (Inr None, z) | (Accepted r, z) \<Rightarrow> (Inr r, z))"
    and "\<not> seq_accepted seq y \<Longrightarrow>
      process_bytes h now (to_bytes (signed_pkt h (s_auth x) p)) y = (Inl (Err AuthSeqReplay), y)"
proof -
  have same: "(s_auth x \<noteq> None) = (s_auth y \<noteq> None)"
    using assms(4) by (auto simp: auth_match_def split: option.splits)
  note dec = signed_packet(2) [OF assms(1, 3, 5, 6, 7)]
  show "process_bytes h now (to_bytes (signed_pkt h (s_auth x) p)) y =
      (case process_packet now (signed_pkt h (s_auth x) p) (note_seq seq y) of
         (Discarded, z) \<Rightarrow> (Inr None, z) | (Accepted r, z) \<Rightarrow> (Inr r, z))" if ok: "seq_accepted seq y"
  proof (cases "s_auth y")
    case None
    then show ?thesis using dec same assms(7) by (simp add: process_bytes_def note_seq_def)
  next
    case (Some c)
    then show ?thesis
      using dec same assms(7) ok verify_signed [OF assms(2, 3, 4, 5) Some] by (simp add: process_bytes_def)
  qed
  show "process_bytes h now (to_bytes (signed_pkt h (s_auth x) p)) y = (Inl (Err AuthSeqReplay), y)"
    if no: "\<not> seq_accepted seq y"
  proof (cases "s_auth y")
    case None
    then show ?thesis using no by (simp add: seq_accepted_def)
  next
    case (Some c)
    then show ?thesis
      using dec same assms(7) no verify_signed [OF assms(2, 3, 4, 5) Some] by (simp add: process_bytes_def)
  qed
qed

section \<open>Session establishment\<close>

text \<open>One periodic packet of \<open>x\<close>, over the wire, into \<open>y\<close>.\<close>

definition exchange :: "(bytes \<Rightarrow> bytes) \<Rightarrow> nat \<Rightarrow> Session \<times> Session \<Rightarrow> (Session \<times> Session) option" where
  "exchange h now =
     (\<lambda>(x, y). case next_periodic_packet x of
        (None, _) \<Rightarrow> None
      | (Some p, x') \<Rightarrow>
          (case encode_packet h x' p of None \<Rightarrow> None | Some bs \<Rightarrow> Some (x', snd (process_bytes h now bs y))))"

lemma exchange_eq:
  assumes "auth_cfg_ok (s_auth x)" and "auth_cfg_ok (s_auth y)" and "hash20 h"
    and "auth_match (s_auth x) (s_auth y)" and "should_send_periodic x" and "seq_accepted (xmit_auth_seq x + 1) y"
  shows "exchange h now (x, y) =
    Some (bump_seq x, snd (process_packet now (signed_pkt h (s_auth x) (fst (build_packet (poll_sequence x) False x)))
                             (note_seq (xmit_auth_seq x + 1) y)))"
proof -
  let ?p = "fst (build_packet (poll_sequence x) False x)"
  have enc: "encode_packet h (bump_seq x) ?p = Some (to_bytes (signed_pkt h (s_auth x) ?p))"
    using signed_packet(1) [of "bump_seq x" h ?p "xmit_auth_seq x + 1"] assms by simp
  have "snd (process_bytes h now (to_bytes (signed_pkt h (s_auth x) ?p)) y)
      = snd (process_packet now (signed_pkt h (s_auth x) ?p) (note_seq (xmit_auth_seq x + 1) y))"
    using process_signed(1) [of x y h ?p "xmit_auth_seq x + 1" now] assms
    by (simp split: prod.splits PacketResult.splits)
  then show ?thesis
    using assms(5) enc by (simp add: exchange_def next_periodic_packet_def split_beta)
qed

lemma process_plain:
  assumes "\<not> packet_discarded p y" and "\<not> poll p" and "\<not> final_bit p" and "session_state y \<noteq> AdminDown"
  shows "process_packet now p y = (Accepted None, (state_step p (learn_remote p y))\<lparr>last_rx := Some now\<rparr>)"
  using assms by (simp add: process_packet_def Let_def learn_remote_def)

definition cfg_ok :: "SessionConfig \<Rightarrow> bool" where
  "cfg_ok c = (c_local_discriminator c \<noteq> 0 \<and> c_detect_mult c \<noteq> 0 \<and> c_required_min_rx_interval c \<noteq> 0 \<and>
     auth_cfg_ok (c_auth c))"

lemma build_packet_fields [simp]:
  "state (fst (build_packet p f s)) = session_state s" "poll (fst (build_packet p f s)) = p"
  "final_bit (fst (build_packet p f s)) = f" "multipoint (fst (build_packet p f s)) = False"
  "detect_mult (fst (build_packet p f s)) = s_detect_mult s"
  "my_discriminator (fst (build_packet p f s)) = local_discr s"
  "your_discriminator (fst (build_packet p f s)) = remote_discr s"
  "required_min_rx_interval (fst (build_packet p f s)) = required_min_rx s"
  "demand (fst (build_packet p f s)) = demand_bit s"
  by (simp_all add: build_packet_def build_auth_eq Let_def demand_bit_def)

text \<open>The effect of one exchange between sessions that are not polling.\<close>

definition met :: "nat \<Rightarrow> Session \<Rightarrow> Session \<Rightarrow> Session \<Rightarrow> bool" where
  "met now x y z \<longleftrightarrow>
     s_auth z = s_auth y \<and> local_discr z = local_discr y \<and> s_detect_mult z = s_detect_mult y \<and>
     required_min_rx z = required_min_rx y \<and> role z = role y \<and> \<not> poll_sequence z \<and>
     xmit_auth_seq z = xmit_auth_seq y \<and> remote_discr z = local_discr x \<and>
     remote_state z = session_state x \<and> remote_min_rx z = required_min_rx x \<and> last_rx z = Some now \<and>
     (case s_auth y of
        None \<Rightarrow> True
      | Some c \<Rightarrow> is_keyed (ac_auth_type c) \<longrightarrow> auth_seq_known z \<and> rcv_auth_seq z = xmit_auth_seq x + 1)"

lemma exchange_plain:
  assumes "auth_cfg_ok (s_auth x)" and "auth_cfg_ok (s_auth y)" and "hash20 h"
    and "auth_match (s_auth x) (s_auth y)" and "should_send_periodic x" and "seq_accepted (xmit_auth_seq x + 1) y"
    and "\<not> poll_sequence x" and "\<not> poll_sequence y" and "s_detect_mult x \<noteq> 0" and "local_discr x \<noteq> 0"
    and "if remote_discr x = 0 then session_state x = Down else remote_discr x = local_discr y"
    and "(session_state x, session_state y, st) \<in> {(Down, Down, Init), (Init, Down, Up), (Up, Init, Up)}"
  obtains z where "exchange h now (x, y) = Some (bump_seq x, z)" and "met now x y z" and "session_state z = st"
proof -
  let ?p = "signed_pkt h (s_auth x) (fst (build_packet (poll_sequence x) False x))"
  let ?y = "note_seq (xmit_auth_seq x + 1) y"
  have "\<not> packet_discarded ?p ?y"
    using assms(9-12) by (auto simp: packet_discarded_def split: if_splits)
  moreover have "session_state ?y \<noteq> AdminDown" using assms(12) by auto
  ultimately have "process_packet now ?p ?y = (Accepted None, (state_step ?p (learn_remote ?p ?y))\<lparr>last_rx := Some now\<rparr>)"
    using assms(7) by (intro process_plain) simp_all
  moreover have "met now x y ((state_step ?p (learn_remote ?p ?y))\<lparr>last_rx := Some now\<rparr>)"
    using assms(8, 12)
    by (auto simp: met_def state_step_def learn_remote_def note_seq_def split: option.splits)
  moreover have "session_state (state_step ?p (learn_remote ?p ?y)) = st"
    using assms(12) by (auto simp: state_step_def learn_remote_def)
  ultimately show ?thesis
    using that exchange_eq [OF assms(1-6)] by simp
qed

lemma seq_accepted_fresh: "\<not> auth_seq_known y \<Longrightarrow> seq_accepted q y"
  by (simp add: seq_accepted_def split: option.splits)

lemma seq_accepted_next:
  assumes "met now x y z" and "xmit_auth_seq x \<noteq> - 2" and "auth_match (s_auth x) (s_auth y)"
  shows "seq_accepted (xmit_auth_seq (bump_seq x) + 1) z"
proof -
  have "q + 1 \<le> q + 2" if "q \<noteq> - 2" for q :: u32
    using that by (uint_arith; auto)
  from this [OF assms(2)] show ?thesis
    using assms(1, 3)
    by (auto simp: seq_accepted_def met_def bump_seq_def auth_match_def add.assoc split: option.splits)
qed

text \<open>
  C16: Two new sessions with nonzero discriminators, multipliers and receive intervals, the same
  authentication type and key, and an active first system come up: the first system's packet,
  the second's answer and the first's next packet, each encoded, authenticated and decoded,
  leave both \<open>Up\<close> with each other's discriminator. The sequence number of the first system must
  not wrap between its two packets.
\<close>

theorem session_establishes:
  assumes "Session_new seed1 c1 = Inr a" and "Session_new seed2 c2 = Inr b" and "cfg_ok c1" and "cfg_ok c2"
    and "auth_match (c_auth c1) (c_auth c2)" and "c_role c1 = Active" and "hash20 h" and "seed1 \<noteq> - 2"
  shows "\<exists>a1 b1 a2 b2 a3 b3.
    exchange h t1 (a, b) = Some (a1, b1) \<and> exchange h t2 (b1, a1) = Some (b2, a2) \<and>
    exchange h t3 (a2, b2) = Some (a3, b3) \<and> is_up a3 \<and> is_up b3 \<and>
    remote_discr a3 = c_local_discriminator c2 \<and> remote_discr b3 = c_local_discriminator c1"
proof -
  have a: "session_state a = Down" "s_auth a = c_auth c1" "role a = Active" "remote_discr a = 0" "remote_min_rx a = 1"
      "local_discr a = c_local_discriminator c1" "required_min_rx a = c_required_min_rx_interval c1"
      "s_detect_mult a = c_detect_mult c1" "xmit_auth_seq a = seed1" "\<not> auth_seq_known a" "\<not> poll_sequence a"
    using assms(1, 6) by (auto simp: Session_new_def res_bind_Inr_iff)
  have b: "session_state b = Down" "s_auth b = c_auth c2" "local_discr b = c_local_discriminator c2"
      "required_min_rx b = c_required_min_rx_interval c2" "s_detect_mult b = c_detect_mult c2"
      "\<not> auth_seq_known b" "\<not> poll_sequence b"
    using assms(2) by (auto simp: Session_new_def res_bind_Inr_iff)
  note c = assms(3, 4) [unfolded cfg_ok_def] assms(5, 7)
  have sym: "auth_match (c_auth c2) (c_auth c1)"
    using assms(5) by (auto simp: auth_match_def split: option.splits)
  obtain b1 where e1: "exchange h t1 (a, b) = Some (bump_seq a, b1)" and m1: "met t1 a b b1" and s1: "session_state b1 = Init"
    using c by (auto intro: exchange_plain [of a b h Init t1]
        simp: a b seq_accepted_fresh should_send_periodic_def remote_demand_active_def)
  have m1': "s_auth b1 = c_auth c2" "local_discr b1 = c_local_discriminator c2" "\<not> poll_sequence b1"
      "s_detect_mult b1 = c_detect_mult c2" "required_min_rx b1 = c_required_min_rx_interval c2"
      "remote_discr b1 = c_local_discriminator c1" "remote_min_rx b1 = c_required_min_rx_interval c1"
    using m1 by (auto simp: met_def a b)
  obtain a2 where e2: "exchange h t2 (b1, bump_seq a) = Some (bump_seq b1, a2)" and m2: "met t2 b1 (bump_seq a) a2"
      and s2: "session_state a2 = Up"
    using c sym by (auto intro: exchange_plain [of b1 "bump_seq a" h Up t2]
        simp: a m1' s1 seq_accepted_fresh should_send_periodic_def remote_demand_active_def)
  have m2': "s_auth a2 = c_auth c1" "local_discr a2 = c_local_discriminator c1" "\<not> poll_sequence a2"
      "s_detect_mult a2 = c_detect_mult c1" "remote_discr a2 = c_local_discriminator c2"
      "remote_min_rx a2 = c_required_min_rx_interval c2" "remote_state a2 = Init"
      "xmit_auth_seq a2 = xmit_auth_seq (bump_seq a)"
    using m2 by (auto simp: met_def a m1' s1)
  have "seq_accepted (xmit_auth_seq a2 + 1) b1"
    using seq_accepted_next [OF m1] assms(5, 8) by (simp add: a b m2')
  then have q: "seq_accepted (xmit_auth_seq a2 + 1) (bump_seq b1)"
    by (auto simp: seq_accepted_def split: option.splits)
  obtain b3 where e3: "exchange h t3 (a2, bump_seq b1) = Some (bump_seq a2, b3)" and m3: "met t3 a2 (bump_seq b1) b3"
      and s3: "session_state b3 = Up"
    using c q by (auto intro: exchange_plain [of a2 "bump_seq b1" h Up t3]
        simp: m1' m2' s1 s2 should_send_periodic_def remote_demand_active_def)
  show ?thesis
    using e1 e2 e3 s2 s3 m3 by (auto simp: is_up_def m2' met_def)
qed

text \<open>A concrete pair with meticulous authentication; the hash is a stand-in of the right length.\<close>

definition sum_hash :: "bytes \<Rightarrow> bytes" where
  "sum_hash b = replicate 20 (sum_list b)"

definition sample_cfg :: "u32 \<Rightarrow> Role \<Rightarrow> SessionConfig" where
  "sample_cfg d r =
     \<lparr>c_local_discriminator = d, c_desired_min_tx_interval = 50000, c_required_min_rx_interval = 50000,
      c_detect_mult = 3, c_demand_mode = False, c_control_plane_independent = False, c_role = r,
      c_auth = Some \<lparr>ac_auth_type = MeticulousKeyedSha1, ac_key_id = 1, ac_key = [1, 2, 3]\<rparr>\<rparr>"

definition sample_session :: "u32 \<Rightarrow> Role \<Rightarrow> Session" where
  "sample_session d r = (case Session_new 7 (sample_cfg d r) of Inr s \<Rightarrow> s)"

lemma sample_session: "Session_new 7 (sample_cfg d r) = Inr (sample_session d r)"
  by (simp add: sample_session_def sample_cfg_def Session_new_def validate_def)

lemma sample_cfg_ok:
  "d \<noteq> 0 \<Longrightarrow> cfg_ok (sample_cfg d r)" "auth_match (c_auth (sample_cfg d r)) (c_auth (sample_cfg e q))"
  "c_role (sample_cfg d r) = r" "hash20 sum_hash" "c_local_discriminator (sample_cfg d r) = d"
  by (simp_all add: sample_cfg_def cfg_ok_def auth_match_def auth_cfg_ok_def is_keyed_def hash20_def sum_hash_def)

theorem session_establishes_witness:
  "\<exists>a1 b1 a2 b2 a3 b3.
    exchange sum_hash 10 (sample_session 1 Active, sample_session 2 Passive) = Some (a1, b1) \<and>
    exchange sum_hash 20 (b1, a1) = Some (b2, a2) \<and> exchange sum_hash 30 (a2, b2) = Some (a3, b3) \<and>
    is_up a3 \<and> is_up b3 \<and> remote_discr a3 = 2 \<and> remote_discr b3 = 1"
  using session_establishes [OF sample_session [of 1 Active] sample_session [of 2 Passive] sample_cfg_ok(1) sample_cfg_ok(1)
      sample_cfg_ok(2) sample_cfg_ok(3) sample_cfg_ok(4), of 10 20 30]
  by (simp add: sample_cfg_ok)

section \<open>Invariant of a session\<close>

text \<open>Every public operation that changes a session, as a step relation.\<close>

inductive bfd_step :: "(bytes \<Rightarrow> bytes) \<Rightarrow> Session \<Rightarrow> Session \<Rightarrow> bool" for h where
  rx_bytes: "bfd_step h s (snd (process_bytes h now buf s))"
| rx_packet: "bfd_step h s (snd (process_packet now p s))"
| tx: "bfd_step h s (snd (next_periodic_packet s))"
| timer: "bfd_step h s (snd (check_timeout now s))"
| go_down: "bfd_step h s (admin_down s)"
| go_up: "bfd_step h s (admin_up s)"
| polling: "bfd_step h s (start_poll now s)"

inductive bfd_reachable :: "(bytes \<Rightarrow> bytes) \<Rightarrow> Session \<Rightarrow> bool" for h where
  fresh: "Session_new seed c = Inr s \<Longrightarrow> bfd_reachable h s"
| move: "bfd_reachable h s \<Longrightarrow> bfd_step h s t \<Longrightarrow> bfd_reachable h t"

definition sess_inv :: "Session \<Rightarrow> bool" where
  "sess_inv s \<longleftrightarrow>
     (session_state s = Up \<longrightarrow> remote_state s \<in> {Init, Up}) \<and>
     (session_state s = Init \<longrightarrow> remote_state s = Down) \<and>
     (session_state s \<in> {Init, Up} \<longrightarrow>
        remote_discr s \<noteq> 0 \<and> last_rx s \<noteq> None \<and> remote_detect_mult s \<noteq> 0) \<and>
     (poll_sequence s \<longleftrightarrow> poll_start s \<noteq> None)"

lemma sess_inv_auth:
  "sess_inv (bump_seq s) = sess_inv s" "sess_inv (note_seq q s) = sess_inv s"
  "sess_inv (s\<lparr>rcv_auth_seq := q, auth_seq_known := k\<rparr>) = sess_inv s"
  by (simp_all add: sess_inv_def)

lemma process_packet_inv:
  assumes "sess_inv s"
  shows "sess_inv (snd (process_packet now p s))"
proof (cases "packet_discarded p s")
  case False
  let ?t = "let s1 = learn_remote p s in
    if final_bit p \<and> poll_sequence s1 then s1\<lparr>poll_sequence := False, poll_start := None\<rparr> else s1"
  have t: "sess_inv ((state_step p ?t)\<lparr>last_rx := Some now\<rparr>)" if "session_state ?t \<noteq> AdminDown"
    using assms False that
    by (cases "session_state s"; cases "state p")
      (auto simp: sess_inv_def learn_remote_def state_step_def packet_discarded_def Let_def)
  have d: "sess_inv (?t\<lparr>last_rx := Some now\<rparr>)" if "session_state ?t = AdminDown"
    using assms that by (auto simp: sess_inv_def learn_remote_def Let_def)
  have b: "(bump_seq z)\<lparr>last_rx := Some now\<rparr> = bump_seq (z\<lparr>last_rx := Some now\<rparr>)" for z
    by (simp add: bump_seq_def split: option.splits)
  show ?thesis
    using False t d by (auto simp: process_packet_def Let_def split_beta b sess_inv_auth)
qed (simp add: assms process_packet_def)

lemma verify_auth_state:
  "snd (verify_auth h p raw s) = s \<or> (\<exists>q. snd (verify_auth h p raw s) = s\<lparr>rcv_auth_seq := q, auth_seq_known := True\<rparr>)"
  by (auto simp: verify_auth_def Let_def split: option.splits)

lemma bfd_step_inv: "bfd_step h s t \<Longrightarrow> sess_inv s \<Longrightarrow> sess_inv t"
proof (induction rule: bfd_step.induct)
  case (rx_bytes s now buf)
  have v: "sess_inv (snd (verify_auth h p buf s))" for p
    using verify_auth_state [of h p buf s] rx_bytes by (auto simp: sess_inv_auth)
  then have "sess_inv (snd (process_packet now p (snd (verify_auth h p buf s))))" for p
    by (rule process_packet_inv)
  then show ?case
    using rx_bytes v process_packet_inv
    by (auto simp: process_bytes_def split_beta split: sum.splits bool.splits PacketResult.splits)
next
  case (rx_packet s now p)
  then show ?case by (rule process_packet_inv)
next
  case (tx s)
  then show ?case by (simp add: next_periodic_packet_def split_beta sess_inv_auth)
qed (auto simp: sess_inv_def check_timeout_def declare_down_def admin_down_def admin_up_def start_poll_def
      split: option.splits)

lemma reachable_inv: "bfd_reachable h s \<Longrightarrow> sess_inv s"
proof (induction rule: bfd_reachable.induct)
  case (fresh seed c s)
  then show ?case by (auto simp: Session_new_def res_bind_Inr_iff sess_inv_def)
next
  case (move s t)
  then show ?case using bfd_step_inv by blast
qed


text \<open>The sample session after a first packet of its peer.\<close>

definition hello :: ControlPacket where
  "hello = \<lparr>version = 1, diagnostic = NoDiagnostic, state = Down, poll = False, final_bit = False,
     control_plane_independent = False, auth_present = False, demand = False, multipoint = False, detect_mult = 3,
     my_discriminator = 9, your_discriminator = 0, desired_min_tx_interval = 1000000,
     required_min_rx_interval = 50000, required_min_echo_rx_interval = 0, auth = None\<rparr>"

definition greeted :: Session where
  "greeted = snd (process_packet 100 hello (sample_session 1 Active))"

lemma greeted_reachable: "bfd_reachable sum_hash greeted"
  unfolding greeted_def
  by (rule bfd_reachable.move [OF bfd_reachable.fresh [OF sample_session] bfd_step.rx_packet])

lemma greeted_state: "session_state greeted = Init" "remote_discr greeted = 9" "last_rx greeted = Some 100"
  "detection_time greeted = 3000000000"
  by (simp_all add: greeted_def hello_def sample_session_def sample_cfg_def Session_new_def validate_def process_packet_def
      packet_discarded_def learn_remote_def state_step_def detection_time_def remote_demand_active_def
      from_micros_def Let_def max_def)


section \<open>What brings a session up\<close>

definition authentic :: "(bytes \<Rightarrow> bytes) \<Rightarrow> AuthConfig option \<Rightarrow> bytes \<Rightarrow> ControlPacket \<Rightarrow> bool" where
  "authentic h ac buf p =
     (case (ac, auth p) of
        (None, None) \<Rightarrow> True
      | (Some c, Some a) \<Rightarrow> auth_type a = ac_auth_type c \<and>
          (if is_keyed (ac_auth_type c)
           then map_option h (copy_at 32 (key_padded 20 (ac_key c)) buf) = Some (take 20 (auth_data a))
           else auth_data a = ac_key c)
      | _ \<Rightarrow> False)"

lemma from_bytes_auth: "from_bytes buf = Inr p \<Longrightarrow> auth_present p = (auth p \<noteq> None)"
  by (auto simp: from_bytes_def res_bind_Inr_iff Let_def split: if_splits)

lemma take_min_length: "take (min n (length xs)) xs = take n xs"
  by (simp add: min_def)

lemma verify_auth_authentic:
  assumes "verify_auth h p buf s = (Inr True, s')"
  shows "authentic h (s_auth s) buf p"
  using assms
  by (auto simp: verify_auth_def authentic_def Let_def take_min_length split: option.splits if_splits)

lemma process_packet_up:
  assumes "is_up (snd (process_packet now p s))" and "\<not> is_up s"
  shows "\<not> packet_discarded p s \<and> state p \<in> {Init, Up} \<and> session_state s \<in> {Down, Init} \<and>
    remote_discr (snd (process_packet now p s)) = my_discriminator p"
  using assms
  by (cases "session_state s"; cases "state p")
    (auto simp: process_packet_def is_up_def Let_def split_beta learn_remote_def state_step_def split: if_splits)

lemma process_bytes_cases:
  obtains "process_bytes h now buf s = (Inr None, s)"
  | p e s1 where "from_bytes buf = Inr p" "verify_auth h p buf s = (e, s1)" "snd (process_bytes h now buf s) = s1" "e \<noteq> Inr True"
  | p s1 where "from_bytes buf = Inr p" "auth_present p = (s_auth s \<noteq> None)"
      "(if auth_present p then verify_auth h p buf s else (Inr True, s)) = (Inr True, s1)"
      "snd (process_bytes h now buf s) = snd (process_packet now p s1)"
proof (cases "from_bytes buf")
  case (Inr p)
  obtain e s1 where v: "(if auth_present p then verify_auth h p buf s else (Inr True, s)) = (e, s1)" by fastforce
  show ?thesis
  proof (cases "auth_present p = (s_auth s \<noteq> None)")
    case True
    show ?thesis
    proof (cases "e = Inr True")
      case True
      then show ?thesis
        using that(3) [of p s1] v Inr \<open>auth_present p = _\<close>
        by (auto simp: process_bytes_def split_beta split: PacketResult.splits)
    next
      case False
      then show ?thesis
        using that(2) [of p e s1] v Inr \<open>auth_present p = _\<close>
        by (auto simp: process_bytes_def split: sum.splits bool.splits if_splits)
    qed
  qed (use that(1) Inr in \<open>simp add: process_bytes_def\<close>)
qed (use that(1) in \<open>simp add: process_bytes_def\<close>)

text \<open>
  C9: A received datagram takes a session into \<open>Up\<close> only as the next step of the three-way
  handshake: it decodes to a packet of the right version that names this session's nonzero
  discriminator, reports \<open>Init\<close> or \<open>Up\<close>, and meets a session that is \<open>Down\<close> or \<open>Init\<close>; with
  authentication configured its section carries the configured type and the password, or the
  digest of the datagram with the key in place.
\<close>

theorem up_requires_handshake:
  assumes "is_up (snd (process_bytes h now buf s))" and "\<not> is_up s"
  shows "\<exists>p. from_bytes buf = Inr p \<and> version p = BFD_VERSION \<and> state p \<in> {Init, Up} \<and>
    session_state s \<in> {Down, Init} \<and> your_discriminator p = local_discr s \<and> local_discr s \<noteq> 0 \<and>
    my_discriminator p \<noteq> 0 \<and> remote_discr (snd (process_bytes h now buf s)) = my_discriminator p \<and>
    authentic h (s_auth s) buf p"
proof (cases rule: process_bytes_cases [of h now buf s])
  case (3 p s1)
  have s1: "s1 = s \<or> (\<exists>q. s1 = s\<lparr>rcv_auth_seq := q, auth_seq_known := True\<rparr>)"
    using 3(3) verify_auth_state [of h p buf s] by (auto split: if_splits)
  have up: "is_up (snd (process_packet now p s1))" "\<not> is_up s1"
    using assms 3(4) s1 by (auto simp: is_up_def)
  have "authentic h (s_auth s) buf p"
    using 3(1-3) from_bytes_auth [OF 3(1)] verify_auth_authentic [of h p buf s s1]
    by (auto simp: authentic_def split: if_splits)
  then show ?thesis
    using process_packet_up [OF up] s1 3(1, 4) by (auto simp: packet_discarded_def)
next
  case (2 p e s1)
  then show ?thesis using assms verify_auth_state [of h p buf s] by (auto simp: is_up_def)
qed (use assms in \<open>simp add: is_up_def\<close>)

definition init_reply :: ControlPacket where
  "init_reply = hello\<lparr>state := Init, your_discriminator := 1\<rparr>"

definition open_session :: Session where
  "open_session = (sample_session 1 Active)\<lparr>s_auth := None\<rparr>"

theorem up_requires_handshake_witness:
  "\<exists>p. from_bytes (to_bytes init_reply) = Inr p \<and> version p = BFD_VERSION \<and> state p \<in> {Init, Up} \<and>
    session_state open_session \<in> {Down, Init} \<and> your_discriminator p = 1 \<and> my_discriminator p \<noteq> 0 \<and>
    authentic sum_hash None (to_bytes init_reply) p"
proof -
  have "packet_wf init_reply" by (simp add: init_reply_def hello_def packet_wf_def)
  note dec = from_to_bytes [OF this]
  have up: "is_up (snd (process_bytes sum_hash 5 (to_bytes init_reply) open_session))" "\<not> is_up open_session"
    unfolding process_bytes_def dec
    by (simp_all add: init_reply_def hello_def open_session_def sample_session_def sample_cfg_def Session_new_def
        validate_def is_up_def process_packet_def packet_discarded_def learn_remote_def state_step_def)
  have "s_auth open_session = None" "local_discr open_session = 1"
    by (simp_all add: open_session_def sample_session_def sample_cfg_def Session_new_def validate_def)
  with up_requires_handshake [OF up] show ?thesis by auto
qed

section \<open>Lost packets under meticulous authentication\<close>

text \<open>
  A session with meticulous authentication that missed one packet of its peer rejects the next
  one: a genuine, correctly signed packet whose number is not the successor of the last accepted
  one gives \<open>AuthSeqReplay\<close> and leaves the session as it was, so every later packet is rejected
  too, and the transport loop that receives it ends with that error.
\<close>

theorem lost_packet_stops_transport:
  assumes "auth_cfg_ok (s_auth x)" and "hash20 h" and "auth_match (s_auth x) (s_auth y)"
    and "s_auth y = Some c" and "ac_auth_type c = MeticulousKeyedSha1" and "auth_seq_known y"
    and "should_send_periodic x" and "xmit_auth_seq x \<noteq> rcv_auth_seq y"
  shows "\<exists>p x' bs. next_periodic_packet x = (Some p, x') \<and> encode_packet h x' p = Some bs \<and>
    process_bytes h now bs y = (Inl (Err AuthSeqReplay), y) \<and>
    transport_run h sends ((clk, Datagram bs) # es) \<lparr>t_session = y, last_send = l\<rparr>
      = (Inl (Err AuthSeqReplay), [], \<lparr>t_session = y, last_send = l\<rparr>)"
proof -
  obtain cx where x: "s_auth x = Some cx" "ac_auth_type cx = MeticulousKeyedSha1" "ac_key cx = ac_key c"
    using assms(3-5) by (auto simp: auth_match_def split: option.splits)
  let ?p = "fst (build_packet (poll_sequence x) False x)"
  let ?bs = "to_bytes (signed_pkt h (s_auth x) ?p)"
  have y: "auth_cfg_ok (s_auth y)" using assms(4, 5) by (simp add: auth_cfg_ok_def is_keyed_def)
  have enc: "encode_packet h (bump_seq x) ?p = Some ?bs"
    using signed_packet(1) [of "bump_seq x" h ?p "xmit_auth_seq x + 1"] assms(1, 2) by simp
  have rej: "process_bytes h now ?bs y = (Inl (Err AuthSeqReplay), y)" for now
    using process_signed(2) [of x y h ?p "xmit_auth_seq x + 1" now] assms y
    by (simp add: seq_accepted_def is_keyed_def)
  have "length ?bs = 52"
    by (simp add: to_bytes_layout auth_bytes_keyed signed_pkt_def with_digest_def auth_of_def x is_keyed_def)
  then have "transport_step h sends clk (Datagram ?bs) \<lparr>t_session = y, last_send = l\<rparr>
      = (Inl (Err AuthSeqReplay), [], \<lparr>t_session = y, last_send = l\<rparr>)"
    by (simp add: transport_step_def recv_packet_def rej)
  then show ?thesis
    using assms(7) enc rej by (simp add: next_periodic_packet_def split_beta)
qed

theorem lost_packet_stops_transport_witness:
  "\<exists>p x' bs. next_periodic_packet (sample_session 1 Active) = (Some p, x') \<and> encode_packet sum_hash x' p = Some bs \<and>
    process_bytes sum_hash 0 bs ((sample_session 2 Passive)\<lparr>auth_seq_known := True, rcv_auth_seq := 6\<rparr>)
      = (Inl (Err AuthSeqReplay), (sample_session 2 Passive)\<lparr>auth_seq_known := True, rcv_auth_seq := 6\<rparr>)"
proof -
  let ?c = "\<lparr>ac_auth_type = MeticulousKeyedSha1, ac_key_id = 1, ac_key = [1, 2, 3]\<rparr>"
  have s: "s_auth (sample_session d r) = Some ?c" "xmit_auth_seq (sample_session d r) = 7"
      "remote_min_rx (sample_session d r) = 1" "role (sample_session d r) = r" "session_state (sample_session d r) = Down" for d r
    by (simp_all add: sample_session_def sample_cfg_def Session_new_def validate_def)
  show ?thesis
    using lost_packet_stops_transport [of "sample_session 1 Active" sum_hash
        "(sample_session 2 Passive)\<lparr>auth_seq_known := True, rcv_auth_seq := 6\<rparr>" ?c 0 "\<lambda>_. True"
        "\<lparr>clk_rx = 0, clk_response = 0, clk_interval = 0, clk_send = 0, clk_timeout = 0\<rparr>" "[]" 0]
    by (auto simp del: transport_run.simps simp: s auth_cfg_ok_def is_keyed_def auth_match_def should_send_periodic_def remote_demand_active_def sample_cfg_ok)
qed

end
