(* ===== verification/Bgp_Reader.thy ===== *)
theory Bgp_Reader
  imports Prelude
begin

unbundle bit_operations_syntax

text \<open>
  The decoding errors (\<^verbatim>\<open>tpt-bgp/src/error.rs\<close>) and the bounds-checked reader of
  \<^verbatim>\<open>tpt-bgp/src/wire.rs\<close>, which provides the interface \<open>sized_reader\<close>. An error of the decoder is
  \<open>Err e\<close>; \<open>Panic\<close> is kept for the panics of the code.
\<close>

datatype DecodeError =
    TruncatedHeader nat
  | LengthMismatch nat nat
  | UnknownMessageType u8
  | TruncatedField nat nat nat
  | UnsupportedVersion u8
  | OpenParamsTruncated
  | MalformedCapability u8 u8
  | IllegalAttributeFlags u8
  | PathAttributesTruncated
  | UnsupportedAfiSafi u16 u8
  | UnknownNotification u8 u8

record BgpReader =
  rd_d :: bytes
  rd_off :: nat
  rd_len :: nat

type_synonym 'a bgp_parser = "(BgpReader, DecodeError failure, 'a) parser"

definition bgp_new :: "bytes \<Rightarrow> BgpReader" where
  "bgp_new d = \<lparr>rd_d = d, rd_off = 0, rd_len = length d\<rparr>"

definition bgp_remaining :: "BgpReader \<Rightarrow> nat" where
  "bgp_remaining r = length (rd_d r) - rd_off r"

definition truncated :: "nat \<Rightarrow> BgpReader \<Rightarrow> DecodeError" where
  "truncated n r = TruncatedField n (rd_off r) (rd_len r)"

definition bgp_u8 :: "u8 bgp_parser" where
  "bgp_u8 r =
     (if rd_off r < length (rd_d r) then Inr (rd_d r ! rd_off r, r\<lparr>rd_off := rd_off r + 1\<rparr>)
      else Inl (Err (truncated 1 r)))"

definition bgp_u16 :: "u16 bgp_parser" where
  "bgp_u16 r =
     (if bgp_remaining r < 2 then Inl (Err (truncated 2 r))
      else Inr (from_be [rd_d r ! rd_off r, rd_d r ! (rd_off r + 1)], r\<lparr>rd_off := rd_off r + 2\<rparr>))"

definition bgp_u32 :: "u32 bgp_parser" where
  "bgp_u32 r =
     (if bgp_remaining r < 4 then Inl (Err (truncated 4 r))
      else Inr (from_be [rd_d r ! rd_off r, rd_d r ! (rd_off r + 1), rd_d r ! (rd_off r + 2), rd_d r ! (rd_off r + 3)],
                r\<lparr>rd_off := rd_off r + 4\<rparr>))"

definition bgp_take :: "nat \<Rightarrow> bytes bgp_parser" where
  "bgp_take n r =
     (if bgp_remaining r < n then Inl (Err (truncated n r))
      else Inr (take n (drop (rd_off r) (rd_d r)), r\<lparr>rd_off := rd_off r + n\<rparr>))"

text \<open>A parser run on a fresh reader over bytes already taken.\<close>

definition on_slice :: "'a bgp_parser \<Rightarrow> bytes \<Rightarrow> 'a bgp_parser" where
  "on_slice p bs = liftp (case p (bgp_new bs) of Inl e \<Rightarrow> Inl e | Inr (x, _) \<Rightarrow> Inr x)"

abbreviation while_bgp :: "'a bgp_parser \<Rightarrow> 'a list bgp_parser" where
  "while_bgp \<equiv> while_left bgp_remaining"

section \<open>The reader interface\<close>

definition bgp_rest :: "BgpReader \<Rightarrow> bytes" where
  "bgp_rest r = drop (rd_off r) (rd_d r)"

definition bgp_adv :: "nat \<Rightarrow> BgpReader \<Rightarrow> BgpReader" where
  "bgp_adv n r = r\<lparr>rd_off := rd_off r + n\<rparr>"

interpretation bgp: sized_reader bgp_rest bgp_adv bgp_take truncated bgp_remaining
  by unfold_locales
    (auto simp: bgp_rest_def bgp_adv_def bgp_take_def bgp_remaining_def add.commute add.left_commute)

lemma bgp_rest_new [simp]: "bgp_rest (bgp_new bs) = bs"
  by (simp add: bgp_rest_def bgp_new_def)

lemma nth_as_take:
  "i + 1 < length xs \<Longrightarrow> [xs ! i, xs ! (i + 1)] = take 2 (drop i xs)"
  "i + 3 < length xs \<Longrightarrow> [xs ! i, xs ! (i + 1), xs ! (i + 2), xs ! (i + 3)] = take 4 (drop i xs)"
  by (simp_all add: list_eq_iff_nth_eq less_Suc_eq numeral_eq_Suc)

lemma bgp_u8_take: "bgp_u8 = bindp (bgp_take 1) (\<lambda>bs. retp (hd bs))"
  by (rule ext) (auto simp: bgp_u8_def bindp_def bgp_take_def bgp_remaining_def hd_drop_conv_nth)

lemma bgp_u16_take: "bgp_u16 = bindp (bgp_take 2) (\<lambda>bs. retp (from_be bs))"
proof (rule ext)
  fix r
  show "bgp_u16 r = bindp (bgp_take 2) (\<lambda>bs. retp (from_be bs)) r"
    using nth_as_take(1) [of "rd_off r" "rd_d r"]
    by (auto simp: bgp_u16_def bindp_def bgp_take_def bgp_remaining_def)
qed

lemma bgp_u32_take: "bgp_u32 = bindp (bgp_take 4) (\<lambda>bs. retp (from_be bs))"
proof (rule ext)
  fix r
  show "bgp_u32 r = bindp (bgp_take 4) (\<lambda>bs. retp (from_be bs)) r"
    using nth_as_take(2) [of "rd_off r" "rd_d r"]
    by (auto simp: bgp_u32_def bindp_def bgp_take_def bgp_remaining_def)
qed

lemma bgp_parses_u8 [parse_intros]: "bgp.parses bgp_u8 [b] b"
  unfolding bgp_u8_take by (rule bgp.parses_bind_ret [OF bgp.parses_rd]) simp_all

lemma bgp_parses_u16 [parse_intros]: "bgp.parses bgp_u16 (be16 v) v"
  unfolding bgp_u16_take by (rule bgp.parses_bind_ret [OF bgp.parses_rd]) simp_all

lemma bgp_parses_u32 [parse_intros]: "bgp.parses bgp_u32 (be32 v) v"
  unfolding bgp_u32_take by (rule bgp.parses_bind_ret [OF bgp.parses_rd]) simp_all

lemma bgp_parses_take [parse_intros]: "length bs = n \<Longrightarrow> bgp.parses (bgp_take n) bs bs"
  by (rule bgp.parses_rd)

lemma bgp_parses_slice:
  "bgp.parses_all p bs x \<Longrightarrow> on_slice p bs = retp x"
  by (rule ext) (simp add: on_slice_def bgp.parses_allD)

lemma safe_on_slice [safe_intros]: "safe_p bgp_remaining p \<Longrightarrow> safe_p bgp_remaining (on_slice p bs)"
  unfolding on_slice_def by (rule safe_lift) (auto simp: safe_p_def split: sum.splits)

lemma safe_bgp [safe_intros]:
  "safe_p bgp_remaining bgp_u8" "safe_p bgp_remaining bgp_u16" "safe_p bgp_remaining bgp_u32"
  "safe_p bgp_remaining (bgp_take n)"
  by (auto simp: bgp_u8_take bgp_u16_take bgp_u32_take intro!: safe_intros bgp.safe_rd)

lemma eats_bgp: "eats bgp_remaining bgp_u8"
  unfolding bgp_u8_take by (intro eats_bind bgp.eats_rd safe_intros) simp

end
