(* ===== verification/Bgp_Attributes.thy ===== *)
theory Bgp_Attributes
  imports Bgp_Reader
begin

unbundle bit_operations_syntax

text \<open>
  Prefixes, AS paths and path attributes of \<^verbatim>\<open>tpt-bgp/src/attributes.rs\<close>, with their encoders and
  decoders. An encoder is \<open>None\<close> where the code would panic: the slice of a prefix whose length
  exceeds its address.
\<close>

abbreviation AS_TRANS :: u32 where "AS_TRANS \<equiv> 23456"

datatype Asn = Asn (asn_val: u32)

definition fits_16bit :: "Asn \<Rightarrow> bool" where
  "fits_16bit a = (asn_val a \<le> 0xFFFF)"

abbreviation is_trans :: "Asn \<Rightarrow> bool" where
  "is_trans a \<equiv> (asn_val a = AS_TRANS)"

definition to_16bit :: "Asn \<Rightarrow> u16" where
  "to_16bit a = ucast (asn_val a)"

section \<open>Prefixes\<close>

definition mask_byte :: "nat \<Rightarrow> nat \<Rightarrow> u8 \<Rightarrow> u8" where
  "mask_byte bits i byte =
     (let byte_start = i * 8 in
      if byte_start \<ge> bits then 0
      else if byte_start + 8 > bits then
        (let keep = 8 - (bits - byte_start) in byte AND push_bit (8 - keep) 0xFF)
      else byte)"

definition mask_in_place :: "bytes \<Rightarrow> u8 \<Rightarrow> bytes" where
  "mask_in_place addr len = map (\<lambda>(i, byte). mask_byte (unat len) i byte) (enumerate 0 addr)"

record Ipv4Prefix =
  p4_addr :: bytes
  p4_len :: u8

record Ipv6Prefix =
  p6_addr :: bytes
  p6_len :: u8

definition Ipv4Prefix_new :: "bytes \<Rightarrow> u8 \<Rightarrow> Ipv4Prefix" where
  "Ipv4Prefix_new addr len = \<lparr>p4_addr = mask_in_place addr len, p4_len = len\<rparr>"

definition Ipv6Prefix_new :: "bytes \<Rightarrow> u8 \<Rightarrow> Ipv6Prefix" where
  "Ipv6Prefix_new addr len = \<lparr>p6_addr = mask_in_place addr len, p6_len = len\<rparr>"

abbreviation Ipv4Prefix_afi :: u16 where "Ipv4Prefix_afi \<equiv> 1"
abbreviation Ipv6Prefix_afi :: u16 where "Ipv6Prefix_afi \<equiv> 2"

datatype Prefix = V4 Ipv4Prefix | V6 Ipv6Prefix

fun Prefix_afi :: "Prefix \<Rightarrow> u16" where
  "Prefix_afi (V4 _) = Ipv4Prefix_afi"
| "Prefix_afi (V6 _) = Ipv6Prefix_afi"

fun Prefix_len :: "Prefix \<Rightarrow> u8" where
  "Prefix_len (V4 p) = p4_len p"
| "Prefix_len (V6 p) = p6_len p"

fun Prefix_octets :: "Prefix \<Rightarrow> bytes" where
  "Prefix_octets (V4 p) = p4_addr p"
| "Prefix_octets (V6 p) = p6_addr p"

fun Prefix_addr_len :: "Prefix \<Rightarrow> nat" where
  "Prefix_addr_len (V4 _) = 4"
| "Prefix_addr_len (V6 _) = 16"

definition nbytes :: "u8 \<Rightarrow> nat" where
  "nbytes len = (unat len + 7) div 8"

definition encode_prefix_bits :: "bytes \<Rightarrow> u8 \<Rightarrow> bytes option" where
  "encode_prefix_bits addr len =
     (if nbytes len \<le> length addr then Some (len # take (nbytes len) addr) else None)"

definition decode_prefix :: "nat \<Rightarrow> Prefix bgp_parser" where
  "decode_prefix addr_len =
     bindp bgp_u8 (\<lambda>len.
       if unat len > addr_len * 8 then failp (\<lambda>r. Err (truncated 1 r))
       else
         bindp (repeat_p (min (nbytes len) addr_len) bgp_u8) (\<lambda>bs.
           let addr = bs @ replicate (addr_len - length bs) 0 in
           if addr_len = 4 then retp (V4 \<lparr>p4_addr = addr, p4_len = len\<rparr>)
           else retp (V6 \<lparr>p6_addr = addr, p6_len = len\<rparr>)))"

section \<open>Origin and AS path\<close>

datatype Origin = Igp | Egp | Incomplete

definition Origin_from_u8 :: "u8 \<Rightarrow> Origin option" where
  "Origin_from_u8 v = (if v = 0 then Some Igp else if v = 1 then Some Egp else if v = 2 then Some Incomplete else None)"

fun Origin_to_u8 :: "Origin \<Rightarrow> u8" where
  "Origin_to_u8 Igp = 0"
| "Origin_to_u8 Egp = 1"
| "Origin_to_u8 Incomplete = 2"

datatype AsPathSegmentType = SegSet | SegSequence

definition SegmentType_from_u8 :: "u8 \<Rightarrow> AsPathSegmentType option" where
  "SegmentType_from_u8 v = (if v = 1 then Some SegSet else if v = 2 then Some SegSequence else None)"

fun SegmentType_to_u8 :: "AsPathSegmentType \<Rightarrow> u8" where
  "SegmentType_to_u8 SegSet = 1"
| "SegmentType_to_u8 SegSequence = 2"

record AsPathSegment =
  segment_type :: AsPathSegmentType
  seg_asns :: "Asn list"

record AsPath =
  segments :: "AsPathSegment list"

definition AsPath_default :: AsPath where
  "AsPath_default = \<lparr>segments = []\<rparr>"

definition AsPath_asns :: "AsPath \<Rightarrow> Asn list" where
  "AsPath_asns p = concat (map seg_asns (segments p))"

definition path_length :: "AsPath \<Rightarrow> nat" where
  "path_length p = length (segments p)"

definition first_asn :: "AsPath \<Rightarrow> Asn option" where
  "first_asn p =
     (case segments p of [] \<Rightarrow> None | s # _ \<Rightarrow> (case seg_asns s of [] \<Rightarrow> None | a # _ \<Rightarrow> Some a))"

definition encode_asn :: "bool \<Rightarrow> Asn \<Rightarrow> bytes" where
  "encode_asn as4 a = (if as4 then be32 (asn_val a) else be16 (to_16bit a))"

definition encode_segment :: "bool \<Rightarrow> AsPathSegment \<Rightarrow> bytes" where
  "encode_segment as4 seg =
     [SegmentType_to_u8 (segment_type seg), word_of_nat (length (seg_asns seg))]
     @ concat (map (encode_asn as4) (seg_asns seg))"

definition AsPath_encode_value :: "bool \<Rightarrow> AsPath \<Rightarrow> bytes" where
  "AsPath_encode_value as4 p = concat (map (encode_segment as4) (segments p))"

definition decode_asn :: "bool \<Rightarrow> Asn bgp_parser" where
  "decode_asn as4 =
     (if as4 then bindp bgp_u32 (\<lambda>v. retp (Asn v)) else bindp bgp_u16 (\<lambda>v. retp (Asn (ucast v))))"

definition decode_segment :: "bool \<Rightarrow> AsPathSegment bgp_parser" where
  "decode_segment as4 =
     bindp bgp_u8 (\<lambda>t.
       case SegmentType_from_u8 t of
         None \<Rightarrow> failp (\<lambda>r. Err (truncated 1 r))
       | Some st \<Rightarrow>
           bindp bgp_u8 (\<lambda>count.
           bindp (repeat_p (unat count) (decode_asn as4)) (\<lambda>asns.
             retp \<lparr>segment_type = st, seg_asns = asns\<rparr>)))"

definition AsPath_decode_value :: "bool \<Rightarrow> AsPath bgp_parser" where
  "AsPath_decode_value as4 = bindp (while_bgp (decode_segment as4)) (\<lambda>segs. retp \<lparr>segments = segs\<rparr>)"

section \<open>Path attributes\<close>

record Aggregator =
  agg_asn :: Asn
  agg_addr :: bytes

datatype NextHop = Ipv4 bytes | Ipv6 bytes | Ipv6LinkLocal bytes bytes | Other bytes

fun NextHop_encode :: "NextHop \<Rightarrow> bytes" where
  "NextHop_encode (Ipv4 a) = a"
| "NextHop_encode (Ipv6 a) = a"
| "NextHop_encode (Ipv6LinkLocal g l) = g @ l"
| "NextHop_encode (Other v) = v"

fun encoded_len :: "NextHop \<Rightarrow> nat" where
  "encoded_len (Ipv4 _) = 4"
| "encoded_len (Ipv6 _) = 16"
| "encoded_len (Ipv6LinkLocal _ _) = 32"
| "encoded_len (Other v) = length v"

definition NextHop_decode :: "bytes \<Rightarrow> NextHop" where
  "NextHop_decode bs =
     (if length bs = 4 then Ipv4 bs
      else if length bs = 16 then Ipv6 bs
      else if length bs = 32 then Ipv6LinkLocal (take 16 bs) (drop 16 bs)
      else Other bs)"

record MpReachNlri =
  mr_afi :: u16
  mr_safi :: u8
  mr_next_hop :: NextHop
  mr_nlri :: "Prefix list"

record MpUnreachNlri =
  mu_afi :: u16
  mu_safi :: u8
  mu_withdrawn :: "Prefix list"

datatype PathAttribute =
    AttrOrigin Origin
  | AttrAsPath AsPath
  | AttrNextHop bytes
  | MultiExitDisc u32
  | LocalPref u32
  | AtomicAggregate
  | AttrAggregator Aggregator
  | Community u32
  | OriginatorId bytes
  | ClusterList "bytes list"
  | AttrMpReach MpReachNlri
  | AttrMpUnreach MpUnreachNlri
  | AttrUnknown u8 bool bytes

fun type_code :: "PathAttribute \<Rightarrow> u8" where
  "type_code (AttrOrigin _) = 1"
| "type_code (AttrAsPath _) = 2"
| "type_code (AttrNextHop _) = 3"
| "type_code (MultiExitDisc _) = 4"
| "type_code (LocalPref _) = 5"
| "type_code AtomicAggregate = 6"
| "type_code (AttrAggregator _) = 7"
| "type_code (Community _) = 8"
| "type_code (OriginatorId _) = 9"
| "type_code (ClusterList _) = 10"
| "type_code (AttrMpReach _) = 14"
| "type_code (AttrMpUnreach _) = 15"
| "type_code (AttrUnknown c _ _) = c"

abbreviation OPTIONAL :: u8 where "OPTIONAL \<equiv> 0x80"
abbreviation TRANSITIVE :: u8 where "TRANSITIVE \<equiv> 0x40"

fun default_flags :: "PathAttribute \<Rightarrow> u8" where
  "default_flags (AttrOrigin _) = TRANSITIVE"
| "default_flags (AttrAsPath _) = TRANSITIVE"
| "default_flags (AttrNextHop _) = TRANSITIVE"
| "default_flags (LocalPref _) = TRANSITIVE"
| "default_flags AtomicAggregate = TRANSITIVE"
| "default_flags (AttrAggregator _) = OPTIONAL OR TRANSITIVE"
| "default_flags (Community _) = OPTIONAL OR TRANSITIVE"
| "default_flags (MultiExitDisc _) = OPTIONAL"
| "default_flags (OriginatorId _) = OPTIONAL"
| "default_flags (ClusterList _) = OPTIONAL"
| "default_flags (AttrMpReach _) = OPTIONAL"
| "default_flags (AttrMpUnreach _) = OPTIONAL"
| "default_flags (AttrUnknown _ t _) = (if t then OPTIONAL OR TRANSITIVE else OPTIONAL)"

text \<open>A loop that appends encodings, any of which may panic.\<close>

fun append_all :: "bytes option list \<Rightarrow> bytes option" where
  "append_all [] = Some []"
| "append_all (None # _) = None"
| "append_all (Some b # bs) = map_option ((@) b) (append_all bs)"

definition encode_prefixes :: "Prefix list \<Rightarrow> bytes option" where
  "encode_prefixes ps = append_all (map (\<lambda>p. encode_prefix_bits (Prefix_octets p) (Prefix_len p)) ps)"

definition encode_mp_reach :: "MpReachNlri \<Rightarrow> bytes option" where
  "encode_mp_reach m =
     map_option (\<lambda>ps. be16 (mr_afi m) @ [mr_safi m, word_of_nat (encoded_len (mr_next_hop m))]
                      @ NextHop_encode (mr_next_hop m) @ [0] @ ps)
       (encode_prefixes (mr_nlri m))"

definition decode_mp_reach :: "MpReachNlri bgp_parser" where
  "decode_mp_reach =
     bindp bgp_u16 (\<lambda>afi.
     bindp bgp_u8 (\<lambda>safi.
     bindp bgp_u8 (\<lambda>nh_len.
     bindp (bgp_take (unat nh_len)) (\<lambda>nh.
     bindp bgp_u8 (\<lambda>_.
     bindp (while_bgp (decode_prefix (if afi = Ipv6Prefix_afi then 16 else 4))) (\<lambda>nlri.
       retp \<lparr>mr_afi = afi, mr_safi = safi, mr_next_hop = NextHop_decode nh, mr_nlri = nlri\<rparr>))))))"

definition encode_mp_unreach :: "MpUnreachNlri \<Rightarrow> bytes option" where
  "encode_mp_unreach m =
     map_option (\<lambda>ps. be16 (mu_afi m) @ [mu_safi m] @ ps) (encode_prefixes (mu_withdrawn m))"

definition decode_mp_unreach :: "MpUnreachNlri bgp_parser" where
  "decode_mp_unreach =
     bindp bgp_u16 (\<lambda>afi.
     bindp bgp_u8 (\<lambda>safi.
     bindp (while_bgp (decode_prefix (if afi = Ipv6Prefix_afi then 16 else 4))) (\<lambda>withdrawn.
       retp \<lparr>mu_afi = afi, mu_safi = safi, mu_withdrawn = withdrawn\<rparr>)))"

fun attribute_value :: "bool \<Rightarrow> PathAttribute \<Rightarrow> bytes option" where
  "attribute_value as4 (AttrOrigin o1) = Some [Origin_to_u8 o1]"
| "attribute_value as4 (AttrAsPath p) = Some (AsPath_encode_value as4 p)"
| "attribute_value as4 (AttrNextHop a) = Some a"
| "attribute_value as4 (MultiExitDisc v) = Some (be32 v)"
| "attribute_value as4 (LocalPref v) = Some (be32 v)"
| "attribute_value as4 AtomicAggregate = Some []"
| "attribute_value as4 (AttrAggregator g) = Some (encode_asn as4 (agg_asn g) @ agg_addr g)"
| "attribute_value as4 (Community v) = Some (be32 v)"
| "attribute_value as4 (OriginatorId a) = Some a"
| "attribute_value as4 (ClusterList l) = Some (concat l)"
| "attribute_value as4 (AttrMpReach m) = encode_mp_reach m"
| "attribute_value as4 (AttrMpUnreach m) = encode_mp_unreach m"
| "attribute_value as4 (AttrUnknown _ _ v) = Some v"

definition PathAttribute_encode :: "bool \<Rightarrow> PathAttribute \<Rightarrow> bytes option" where
  "PathAttribute_encode as4 a =
     map_option (\<lambda>value.
         let flags = (if length value > 255 then default_flags a OR 0x10 else default_flags a)
         in [flags, type_code a]
            @ (if flags AND 0x10 \<noteq> 0 then be16 (word_of_nat (length value)) else [word_of_nat (length value)])
            @ value)
       (attribute_value as4 a)"

text \<open>The loop of \<open>CLUSTER_LIST\<close>, \<open>while vr.remaining() >= 4\<close>; a remainder below four bytes stays unread.\<close>

definition decode_cluster_list :: "bytes list bgp_parser" where
  "decode_cluster_list = while_left (\<lambda>r. bgp_remaining r div 4) (bgp_take 4)"

definition decode_attribute_value :: "bool \<Rightarrow> u8 \<Rightarrow> u8 \<Rightarrow> bytes \<Rightarrow> PathAttribute bgp_parser" where
  "decode_attribute_value as4 flags tc value =
     (if tc = 1 then
        bindp bgp_u8 (\<lambda>v.
          case Origin_from_u8 v of
            None \<Rightarrow> failp (\<lambda>r. Err (truncated 1 r))
          | Some x \<Rightarrow> retp (AttrOrigin x))
      else if tc = 2 then bindp (AsPath_decode_value as4) (\<lambda>p. retp (AttrAsPath p))
      else if tc = 3 then bindp (bgp_take 4) (\<lambda>a. retp (AttrNextHop a))
      else if tc = 4 then bindp bgp_u32 (\<lambda>v. retp (MultiExitDisc v))
      else if tc = 5 then bindp bgp_u32 (\<lambda>v. retp (LocalPref v))
      else if tc = 6 then retp AtomicAggregate
      else if tc = 7 then
        bindp (decode_asn as4) (\<lambda>asn. bindp (bgp_take 4) (\<lambda>a. retp (AttrAggregator \<lparr>agg_asn = asn, agg_addr = a\<rparr>)))
      else if tc = 8 then bindp bgp_u32 (\<lambda>v. retp (Community v))
      else if tc = 9 then bindp (bgp_take 4) (\<lambda>a. retp (OriginatorId a))
      else if tc = 10 then bindp decode_cluster_list (\<lambda>l. retp (ClusterList l))
      else if tc = 14 then bindp decode_mp_reach (\<lambda>m. retp (AttrMpReach m))
      else if tc = 15 then bindp decode_mp_unreach (\<lambda>m. retp (AttrMpUnreach m))
      else retp (AttrUnknown tc (flags AND 0x40 \<noteq> 0) value))"

definition PathAttribute_decode :: "bool \<Rightarrow> PathAttribute bgp_parser" where
  "PathAttribute_decode as4 =
     bindp bgp_u8 (\<lambda>flags.
     bindp bgp_u8 (\<lambda>tc.
     bindp (if flags AND 0x10 \<noteq> 0 then bindp bgp_u16 (\<lambda>n. retp (unat n)) else bindp bgp_u8 (\<lambda>n. retp (unat n))) (\<lambda>len.
     bindp (bgp_take len) (\<lambda>value. on_slice (decode_attribute_value as4 flags tc value) value))))"

section \<open>The decoder does not panic\<close>

lemma safe_prefix [safe_intros]: "safe_p bgp_remaining (decode_prefix n)"
  unfolding decode_prefix_def Let_def by (intro safe_intros) simp_all

lemma eats_prefix: "eats bgp_remaining (decode_prefix n)"
  unfolding decode_prefix_def Let_def by (intro eats_bind eats_bgp safe_intros) simp_all

lemma safe_asn [safe_intros]: "safe_p bgp_remaining (decode_asn as4)"
  unfolding decode_asn_def by (intro safe_intros)

lemma eats_segment: "eats bgp_remaining (decode_segment as4)"
  unfolding decode_segment_def
  by (intro eats_bind eats_bgp) (auto split: option.split intro!: safe_intros)

lemma safe_cluster_list [safe_intros]: "safe_p bgp_remaining decode_cluster_list"
  unfolding decode_cluster_list_def
proof (rule safe_while_measure)
  show "eats (\<lambda>r. bgp_remaining r div 4) (bgp_take 4)"
    by (auto simp: eats_def bgp_take_def bgp_remaining_def)
qed (rule safe_intros)

lemma safe_mp [safe_intros]: "safe_p bgp_remaining decode_mp_reach" "safe_p bgp_remaining decode_mp_unreach"
  unfolding decode_mp_reach_def decode_mp_unreach_def by (intro safe_intros eats_prefix)+

lemma safe_attribute_value [safe_intros]: "safe_p bgp_remaining (decode_attribute_value as4 flags tc value)"
  unfolding decode_attribute_value_def AsPath_decode_value_def
  by (auto intro!: safe_intros eats_segment split: option.split simp del: retp_simp failp_simp)

lemma eats_attribute: "eats bgp_remaining (PathAttribute_decode as4)"
  unfolding PathAttribute_decode_def by (intro eats_bind eats_bgp safe_intros)

section \<open>Round trip\<close>

definition prefix_wf :: "nat \<Rightarrow> Prefix \<Rightarrow> bool" where
  "prefix_wf n p \<longleftrightarrow> Prefix_addr_len p = n \<and> length (Prefix_octets p) = n \<and> unat (Prefix_len p) \<le> 8 * n \<and>
     drop (nbytes (Prefix_len p)) (Prefix_octets p) = replicate (n - nbytes (Prefix_len p)) 0"

definition asn_wf :: "bool \<Rightarrow> Asn \<Rightarrow> bool" where
  "asn_wf as4 a \<longleftrightarrow> as4 \<or> fits_16bit a"

definition segment_wf :: "bool \<Rightarrow> AsPathSegment \<Rightarrow> bool" where
  "segment_wf as4 s \<longleftrightarrow> length (seg_asns s) < 256 \<and> list_all (asn_wf as4) (seg_asns s)"

fun next_hop_wf :: "NextHop \<Rightarrow> bool" where
  "next_hop_wf (Ipv4 a) \<longleftrightarrow> arr 4 a"
| "next_hop_wf (Ipv6 a) \<longleftrightarrow> arr 16 a"
| "next_hop_wf (Ipv6LinkLocal g l) \<longleftrightarrow> arr 16 g \<and> arr 16 l"
| "next_hop_wf (Other v) \<longleftrightarrow> length v < 256 \<and> length v \<notin> {4, 16, 32}"

definition family_len :: "u16 \<Rightarrow> nat" where
  "family_len afi = (if afi = Ipv6Prefix_afi then 16 else 4)"

lemma family_len_in: "family_len afi \<in> {4, 16}"
  by (simp add: family_len_def)

text \<open>Attributes the codec can represent: lengths that fit their fields, addresses of the right size, prefixes
  without bits beyond their last encoded byte, and unknown attributes that carry no known type code.\<close>

fun attr_wf :: "bool \<Rightarrow> PathAttribute \<Rightarrow> bool" where
  "attr_wf as4 (AttrAsPath p) \<longleftrightarrow> list_all (segment_wf as4) (segments p)"
| "attr_wf as4 (AttrNextHop a) \<longleftrightarrow> arr 4 a"
| "attr_wf as4 (AttrAggregator g) \<longleftrightarrow> asn_wf as4 (agg_asn g) \<and> arr 4 (agg_addr g)"
| "attr_wf as4 (OriginatorId a) \<longleftrightarrow> arr 4 a"
| "attr_wf as4 (ClusterList l) \<longleftrightarrow> list_all (arr 4) l"
| "attr_wf as4 (AttrMpReach m) \<longleftrightarrow> next_hop_wf (mr_next_hop m) \<and> list_all (prefix_wf (family_len (mr_afi m))) (mr_nlri m)"
| "attr_wf as4 (AttrMpUnreach m) \<longleftrightarrow> list_all (prefix_wf (family_len (mu_afi m))) (mu_withdrawn m)"
| "attr_wf as4 (AttrUnknown c t v) \<longleftrightarrow> c \<notin> {1, 2, 3, 4, 5, 6, 7, 8, 9, 10, 14, 15}"
| "attr_wf as4 _ \<longleftrightarrow> True"

definition attr_ok :: "bool \<Rightarrow> PathAttribute \<Rightarrow> bool" where
  "attr_ok as4 a \<longleftrightarrow> attr_wf as4 a \<and> (case attribute_value as4 a of None \<Rightarrow> True | Some v \<Rightarrow> length v < 65536)"

lemma nbytes_le: "unat len \<le> 8 * n \<Longrightarrow> nbytes len \<le> n"
  by (simp add: nbytes_def)

lemma parses_bytes: "n = length bs \<Longrightarrow> bgp.parses (repeat_p n bgp_u8) bs bs"
proof -
  have "list_all2 (\<lambda>cs b. bgp.parses bgp_u8 cs b) (map (\<lambda>b. [b]) bs) bs"
    by (simp add: list_all2_conv_all_nth bgp_parses_u8)
  from bgp.parses_repeat [OF this] show "n = length bs \<Longrightarrow> ?thesis" by simp
qed

lemma parses_prefix:
  assumes "prefix_wf n p" and "n \<in> {4, 16}"
  shows "encode_prefix_bits (Prefix_octets p) (Prefix_len p) = Some (Prefix_len p # take (nbytes (Prefix_len p)) (Prefix_octets p))"
    and "bgp.parses (decode_prefix n) (Prefix_len p # take (nbytes (Prefix_len p)) (Prefix_octets p)) p"
proof -
  let ?l = "Prefix_len p" and ?k = "nbytes (Prefix_len p)" and ?a = "Prefix_octets p"
  have len: "length ?a = n" "?k \<le> n" and le: "\<not> unat ?l > n * 8" and drop: "drop ?k ?a = replicate (n - ?k) 0"
    using assms nbytes_le by (auto simp: prefix_wf_def)
  then have tail: "take ?k ?a @ replicate (n - ?k) 0 = ?a" by (metis append_take_drop_id)
  have length_k: "length (take ?k ?a) = ?k" using len by simp
  show "encode_prefix_bits ?a ?l = Some (?l # take ?k ?a)"
    using len by (simp add: encode_prefix_bits_def)
  have eq: "(if n = 4 then retp (V4 \<lparr>p4_addr = ?a, p4_len = ?l\<rparr>) else retp (V6 \<lparr>p6_addr = ?a, p6_len = ?l\<rparr>)) = retp p"
    using assms by (cases p) (auto simp: prefix_wf_def)
  have "bgp.parses (decode_prefix n) ([?l] @ take ?k ?a @ []) p"
    unfolding decode_prefix_def
  proof (rule bgp.parses_bind [OF bgp_parses_u8])
    show "bgp.parses (if unat ?l > n * 8 then failp (\<lambda>r. Err (truncated 1 r)) else
        bindp (repeat_p (min ?k n) bgp_u8) (\<lambda>bs. let addr = bs @ replicate (n - length bs) 0 in
          if n = 4 then retp (V4 \<lparr>p4_addr = addr, p4_len = ?l\<rparr>) else retp (V6 \<lparr>p6_addr = addr, p6_len = ?l\<rparr>)))
       (take ?k ?a @ []) p"
      unfolding if_not_P [OF le]
    proof (rule bgp.parses_bind [OF parses_bytes])
      show "min ?k n = length (take ?k ?a)" using len by simp
      show "bgp.parses (let addr = take ?k ?a @ replicate (n - length (take ?k ?a)) 0 in
          if n = 4 then retp (V4 \<lparr>p4_addr = addr, p4_len = ?l\<rparr>) else retp (V6 \<lparr>p6_addr = addr, p6_len = ?l\<rparr>)) [] p"
        unfolding Let_def length_k tail eq by (rule bgp.parses_ret)
    qed
  qed
  then show "bgp.parses (decode_prefix n) (?l # take ?k ?a) p" by simp
qed

lemma append_all_Some: "append_all (map (\<lambda>x. Some (f x)) xs) = Some (concat (map f xs))"
  by (induction xs) simp_all

text \<open>A list of prefixes, to the end of the input.\<close>

lemma parses_prefixes:
  assumes "list_all (prefix_wf n) ps" and "n \<in> {4, 16}"
  obtains bs where "encode_prefixes ps = Some bs" and "bgp.parses_all (while_bgp (decode_prefix n)) bs ps"
proof
  let ?e = "\<lambda>p. Prefix_len p # take (nbytes (Prefix_len p)) (Prefix_octets p)"
  have "map (\<lambda>p. encode_prefix_bits (Prefix_octets p) (Prefix_len p)) ps = map (\<lambda>p. Some (?e p)) ps"
    using assms parses_prefix(1) by (auto simp: list_all_iff)
  then show "encode_prefixes ps = Some (concat (map ?e ps))"
    by (simp only: encode_prefixes_def append_all_Some)
  have "list_all2 (\<lambda>bs p. bgp.parses (decode_prefix n) bs p \<and> bs \<noteq> []) (map ?e ps) ps"
    using assms parses_prefix(2) by (auto simp: list_all_length list_all2_conv_all_nth)
  then show "bgp.parses_all (while_bgp (decode_prefix n)) (concat (map ?e ps)) ps"
    by (rule bgp.parses_while)
qed

lemma parses_asn [parse_intros]: "asn_wf as4 a \<Longrightarrow> bgp.parses (decode_asn as4) (encode_asn as4 a) a"
proof (cases as4)
  case True
  then show ?thesis
    by (auto simp: decode_asn_def encode_asn_def intro!: bgp.parses_bind_ret bgp_parses_u32)
next
  case False
  assume "asn_wf as4 a"
  then have "asn_val a \<le> 0xFFFF" using False by (simp add: asn_wf_def fits_16bit_def)
  then have "unat (asn_val a) < 2 ^ 16" by (simp add: word_le_nat_alt)
  then have "(ucast (to_16bit a) :: u32) = asn_val a"
    by (auto intro!: unsigned_word_eqI simp: to_16bit_def unsigned_ucast_eq take_bit_small)
  then show ?thesis
    using False by (auto simp: decode_asn_def encode_asn_def intro!: bgp.parses_bind_ret bgp_parses_u16)
qed

lemma segment_type_round_trip [simp]: "SegmentType_from_u8 (SegmentType_to_u8 t) = Some t"
  by (cases t) (simp_all add: SegmentType_from_u8_def)

lemma origin_round_trip [simp]: "Origin_from_u8 (Origin_to_u8 x) = Some x"
  by (cases x) (simp_all add: Origin_from_u8_def)

lemma parses_segment:
  assumes "segment_wf as4 s"
  shows "bgp.parses (decode_segment as4) (encode_segment as4 s) s"
proof -
  have "list_all2 (bgp.parses (decode_asn as4)) (map (encode_asn as4) (seg_asns s)) (seg_asns s)"
    using assms parses_asn by (simp add: segment_wf_def list_all_length list_all2_conv_all_nth)
  from bgp.parses_repeat [OF this]
  have asns: "bgp.parses (repeat_p (unat (word_of_nat (length (seg_asns s)) :: u8)) (decode_asn as4))
      (concat (map (encode_asn as4) (seg_asns s))) (seg_asns s)"
    using assms unat_of_nat_small [where 'a = 8, of "length (seg_asns s)"] by (simp add: segment_wf_def)
  have "bgp.parses (decode_segment as4) ([SegmentType_to_u8 (segment_type s)] @ [word_of_nat (length (seg_asns s))]
      @ concat (map (encode_asn as4) (seg_asns s))) s"
    unfolding decode_segment_def
    by (rule bgp.parses_bind [OF bgp_parses_u8], simp only: segment_type_round_trip option.case,
        rule bgp.parses_bind [OF bgp_parses_u8], rule bgp.parses_bind_ret [OF asns]) simp
  then show ?thesis by (simp add: encode_segment_def)
qed

lemma parses_as_path:
  assumes "list_all (segment_wf as4) (segments p)"
  shows "bgp.parses_all (AsPath_decode_value as4) (AsPath_encode_value as4 p) p"
proof -
  have "list_all2 (\<lambda>bs s. bgp.parses (decode_segment as4) bs s \<and> bs \<noteq> []) (map (encode_segment as4) (segments p)) (segments p)"
    using assms parses_segment by (auto simp: list_all_length list_all2_conv_all_nth encode_segment_def)
  from bgp.parses_while [OF this]
  have "bgp.parses_all (while_bgp (decode_segment as4)) (AsPath_encode_value as4 p) (segments p)"
    by (simp add: AsPath_encode_value_def)
  then show ?thesis
    unfolding AsPath_decode_value_def by (rule bgp.parses_all_bind_ret) simp
qed

lemma next_hop_round_trip:
  "next_hop_wf h \<Longrightarrow> NextHop_decode (NextHop_encode h) = h \<and> length (NextHop_encode h) = encoded_len h \<and> encoded_len h < 256"
  by (cases h) (auto simp: NextHop_decode_def)

lemma parses_mp_reach:
  assumes "next_hop_wf (mr_next_hop m)" and "list_all (prefix_wf (family_len (mr_afi m))) (mr_nlri m)"
  obtains bs where "encode_mp_reach m = Some bs" and "bgp.parses_all decode_mp_reach bs m"
proof -
  obtain ps where ps: "encode_prefixes (mr_nlri m) = Some ps"
      "bgp.parses_all (while_bgp (decode_prefix (family_len (mr_afi m)))) ps (mr_nlri m)"
    by (rule parses_prefixes [OF assms(2) family_len_in])
  let ?h = "mr_next_hop m"
  have h: "NextHop_decode (NextHop_encode ?h) = ?h" "length (NextHop_encode ?h) = unat (word_of_nat (encoded_len ?h) :: u8)"
    using next_hop_round_trip [OF assms(1)] by (auto simp: unat_of_nat)
  have "bgp.parses_all decode_mp_reach
      (be16 (mr_afi m) @ [mr_safi m] @ [word_of_nat (encoded_len ?h)] @ NextHop_encode ?h @ [0] @ ps) m"
    unfolding decode_mp_reach_def family_len_def [symmetric]
    by (rule bgp.parses_all_bind [OF bgp_parses_u16], rule bgp.parses_all_bind [OF bgp_parses_u8],
        rule bgp.parses_all_bind [OF bgp_parses_u8], rule bgp.parses_all_bind [OF bgp_parses_take [OF h(2)]],
        rule bgp.parses_all_bind [OF bgp_parses_u8], rule bgp.parses_all_bind_ret [OF ps(2)]) (simp add: h(1))
  then show ?thesis using that ps(1) by (simp add: encode_mp_reach_def)
qed

lemma parses_mp_unreach:
  assumes "list_all (prefix_wf (family_len (mu_afi m))) (mu_withdrawn m)"
  obtains bs where "encode_mp_unreach m = Some bs" and "bgp.parses_all decode_mp_unreach bs m"
proof -
  obtain ps where ps: "encode_prefixes (mu_withdrawn m) = Some ps"
      "bgp.parses_all (while_bgp (decode_prefix (family_len (mu_afi m)))) ps (mu_withdrawn m)"
    by (rule parses_prefixes [OF assms family_len_in])
  have "bgp.parses_all decode_mp_unreach (be16 (mu_afi m) @ [mu_safi m] @ ps) m"
    unfolding decode_mp_unreach_def family_len_def [symmetric]
    by (rule bgp.parses_all_bind [OF bgp_parses_u16], rule bgp.parses_all_bind [OF bgp_parses_u8],
        rule bgp.parses_all_bind_ret [OF ps(2)]) simp
  then show ?thesis using that ps(1) by (simp add: encode_mp_unreach_def)
qed

lemma parses_cluster_list:
  assumes "list_all (arr 4) l"
  shows "bgp.parses_all decode_cluster_list (concat l) l"
  unfolding decode_cluster_list_def
  by (rule bgp.parses_while_at_least)
    (use assms in \<open>auto simp: list_all_length list_all2_conv_all_nth intro: bgp_parses_take\<close>)

lemma on_slice_ret: "on_slice (retp x) bs = retp x"
  by (rule ext) (simp add: on_slice_def)

lemma attribute_value_round_trip:
  assumes "attr_wf as4 a" and "\<And>c t v. a = AttrUnknown c t v \<Longrightarrow> (flags AND 0x40 \<noteq> 0) = t"
  obtains v where "attribute_value as4 a = Some v" and "on_slice (decode_attribute_value as4 flags (type_code a) v) v = retp a"
proof (cases a)
  case (AttrOrigin x)
  have "bgp.parses_all (decode_attribute_value as4 flags 1 [Origin_to_u8 x]) ([Origin_to_u8 x] @ []) a"
    unfolding decode_attribute_value_def
    by (simp, rule bgp.parses_all_bind [OF bgp_parses_u8, of _ _ "[]", simplified])
      (simp add: AttrOrigin bgp.parses_all_def bgp.adv_0)
  then show ?thesis using that [of "[Origin_to_u8 x]"] AttrOrigin by (simp add: bgp_parses_slice)
next
  case (AttrAsPath p)
  then show ?thesis
    using that assms(1) bgp.parses_all_bind_ret [OF parses_as_path [of as4 p], of a AttrAsPath]
    by (simp add: decode_attribute_value_def bgp_parses_slice)
next
  case (AttrMpReach m)
  then obtain bs where "encode_mp_reach m = Some bs" "bgp.parses_all decode_mp_reach bs m"
    using assms(1) parses_mp_reach [of m] by auto
  with AttrMpReach show ?thesis
    using that bgp.parses_all_bind_ret [of decode_mp_reach bs m a AttrMpReach]
    by (simp add: decode_attribute_value_def bgp_parses_slice)
next
  case (AttrMpUnreach m)
  then obtain bs where "encode_mp_unreach m = Some bs" "bgp.parses_all decode_mp_unreach bs m"
    using assms(1) parses_mp_unreach [of m] by auto
  with AttrMpUnreach show ?thesis
    using that bgp.parses_all_bind_ret [of decode_mp_unreach bs m a AttrMpUnreach]
    by (simp add: decode_attribute_value_def bgp_parses_slice)
next
  case (AttrAggregator g)
  have "bgp.parses (decode_attribute_value as4 flags 7 v) (encode_asn as4 (agg_asn g) @ agg_addr g) a" for v
    using assms(1) AttrAggregator unfolding decode_attribute_value_def
    by (simp, intro bgp.parses_bind [OF parses_asn] bgp.parses_bind_ret [OF bgp_parses_take]) simp_all
  then show ?thesis using that AttrAggregator by (simp add: bgp_parses_slice [OF bgp.parses_imp_all])
next
  case (ClusterList l)
  then show ?thesis
    using that assms(1) bgp.parses_all_bind_ret [OF parses_cluster_list [of l], of a ClusterList]
    by (simp add: decode_attribute_value_def bgp_parses_slice)
next
  case (AttrUnknown c t v)
  then show ?thesis using that [of v] assms by (simp add: decode_attribute_value_def on_slice_ret del: retp_simp)
next
  case AtomicAggregate
  then show ?thesis using that by (simp add: decode_attribute_value_def on_slice_ret del: retp_simp)
next
  case (AttrNextHop x)
  have "bgp.parses (decode_attribute_value as4 flags 3 x) x a"
    using assms(1) AttrNextHop unfolding decode_attribute_value_def
    by (simp, intro bgp.parses_bind_ret [OF bgp_parses_take]) simp_all
  then show ?thesis using that AttrNextHop by (simp add: bgp_parses_slice [OF bgp.parses_imp_all])
next
  case (OriginatorId x)
  have "bgp.parses (decode_attribute_value as4 flags 9 x) x a"
    using assms(1) OriginatorId unfolding decode_attribute_value_def
    by (simp, intro bgp.parses_bind_ret [OF bgp_parses_take]) simp_all
  then show ?thesis using that OriginatorId by (simp add: bgp_parses_slice [OF bgp.parses_imp_all])
qed (use that in \<open>auto simp: decode_attribute_value_def
       intro!: bgp_parses_slice [OF bgp.parses_imp_all [OF bgp.parses_bind_ret [OF bgp_parses_u32]]]\<close>)

lemma default_flags_bits:
  "default_flags a AND 0x10 = 0" "(default_flags a OR 0x10) AND 0x10 \<noteq> 0"
  by (cases a; simp)+

lemma unknown_flags:
  "(default_flags (AttrUnknown c t v) AND 0x40 \<noteq> 0) = t" "((default_flags (AttrUnknown c t v) OR 0x10) AND 0x40 \<noteq> 0) = t"
  by simp_all

lemma parses_attribute:
  assumes "attr_ok as4 a"
  obtains bs where "PathAttribute_encode as4 a = Some bs" and "bgp.parses (PathAttribute_decode as4) bs a" and "bs \<noteq> []"
proof -
  define flags where "flags v = (if length v > 255 then default_flags a OR 0x10 else default_flags a)" for v :: bytes
  have unk: "(flags v AND 0x40 \<noteq> 0) = t" if "a = AttrUnknown c t w" for c t w v
    using unknown_flags [of c t w] that by (simp add: flags_def)
  have rt: "\<exists>v. attribute_value as4 a = Some v \<and> on_slice (decode_attribute_value as4 (flags u) (type_code a) v) v = retp a" for u
    by (rule attribute_value_round_trip [of as4 a "flags u"]) (use assms unk in \<open>auto simp: attr_ok_def\<close>)
  then obtain v where v: "attribute_value as4 a = Some v" by blast
  with rt [of v] have dec: "on_slice (decode_attribute_value as4 (flags v) (type_code a) v) v = retp a" by simp
  let ?n = "if flags v AND 0x10 \<noteq> 0 then be16 (word_of_nat (length v)) else [word_of_nat (length v)]"
  have ext: "flags v AND 0x10 \<noteq> 0 \<longleftrightarrow> length v > 255" by (simp add: flags_def default_flags_bits)
  have len: "bgp.parses (if flags v AND 0x10 \<noteq> 0 then bindp bgp_u16 (\<lambda>n. retp (unat n)) else bindp bgp_u8 (\<lambda>n. retp (unat n)))
      ?n (length v)"
  proof (cases "length v > 255")
    case True
    moreover have "length v < 65536" using assms v by (simp add: attr_ok_def)
    ultimately show ?thesis
      unfolding ext by (auto intro!: bgp.parses_bind_ret [OF bgp_parses_u16] simp: unat_of_nat)
  next
    case False
    then show ?thesis unfolding ext by (auto intro!: bgp.parses_bind_ret [OF bgp_parses_u8] simp: unat_of_nat)
  qed
  have "bgp.parses (PathAttribute_decode as4) ([flags v] @ [type_code a] @ ?n @ v @ []) a"
    unfolding PathAttribute_decode_def
    by (rule bgp.parses_bind [OF bgp_parses_u8], rule bgp.parses_bind [OF bgp_parses_u8], rule bgp.parses_bind [OF len],
        rule bgp.parses_bind [OF bgp_parses_take [OF refl]], unfold dec, rule bgp.parses_ret)
  moreover have "PathAttribute_encode as4 a = Some ([flags v] @ [type_code a] @ ?n @ v @ [])"
    by (simp add: PathAttribute_encode_def v flags_def Let_def)
  ultimately show ?thesis using that by simp
qed

section \<open>Masking\<close>

text \<open>The network part of an address: its first \<open>len\<close> bits.\<close>

definition network_byte :: "nat \<Rightarrow> nat \<Rightarrow> u8 \<Rightarrow> u8" where
  "network_byte bits i byte = byte AND NOT (mask (8 - min 8 (bits - i * 8)))"

definition network_bits :: "bytes \<Rightarrow> u8 \<Rightarrow> bytes" where
  "network_bits addr len = map (\<lambda>(i, byte). network_byte (unat len) i byte) (enumerate 0 addr)"

lemma mask_cases:
  "i * 8 + 8 \<le> bits \<Longrightarrow> mask_byte bits i b = b" "bits \<le> i * 8 \<Longrightarrow> mask_byte bits i b = 0"
  "i * 8 < bits \<Longrightarrow> bits < i * 8 + 8 \<Longrightarrow> mask_byte bits i b = b AND push_bit (bits - i * 8) 0xFF"
  by (simp_all add: mask_byte_def Let_def)

lemma full_byte_mask: "b AND NOT (mask 8 :: u8) = 0"
  by (rule bit_word_eqI) (simp add: bit_simps)

lemma network_cases:
  "i * 8 + 8 \<le> bits \<Longrightarrow> network_byte bits i b = b" "bits \<le> i * 8 \<Longrightarrow> network_byte bits i b = 0"
  "i * 8 < bits \<Longrightarrow> bits < i * 8 + 8 \<Longrightarrow> network_byte bits i b = b AND NOT (mask (8 - (bits - i * 8)))"
  by (simp_all add: network_byte_def full_byte_mask)

lemma mask_byte_half:
  assumes "bits mod 8 \<in> {0, 4}"
  shows "mask_byte bits i b = network_byte bits i b"
proof -
  have half: "b AND push_bit 4 0xFF = b AND NOT (mask (8 - 4))"
    by (rule arg_cong) (simp add: mask_eq_exp_minus_1)
  consider "i * 8 + 8 \<le> bits" | "bits \<le> i * 8" | "i * 8 < bits" "bits < i * 8 + 8" by linarith
  then show ?thesis
  proof cases
    case 3
    then have "bits - i * 8 = bits mod 8" by (metis Suc_eq_plus1 add.commute diff_add_inverse le_add_diff_inverse
        less_imp_le mod_less mod_mult_self1 nat_add_left_cancel_less)
    then have "bits - i * 8 = 4" using 3 assms by auto
    then show ?thesis
      using 3 half by (simp only: mask_cases network_cases)
  qed (simp_all add: mask_cases network_cases)
qed

text \<open>
  \<open>mask_in_place\<close> clears the host bits of every address of \<open>n\<close> bytes exactly when the prefix
  covers the address or ends on a byte or half-byte boundary. For every other length it shifts
  by the number of bits to keep instead of the number to clear, so prefixes built by
  \<open>Ipv4Prefix::new\<close> and \<open>Ipv6Prefix::new\<close> keep host bits or lose network bits.
\<close>

theorem mask_in_place_exact:
  "(\<forall>addr. length addr = n \<longrightarrow> mask_in_place addr len = network_bits addr len)
     \<longleftrightarrow> 8 * n \<le> unat len \<or> unat len mod 8 \<in> {0, 4}" (is "?l \<longleftrightarrow> ?r")
proof
  assume ?r
  then have "mask_byte (unat len) i b = network_byte (unat len) i b" if "i < n" for i b
    using that mask_byte_half by (auto simp: mask_cases network_cases)
  then show ?l by (auto simp: mask_in_place_def network_bits_def in_set_enumerate_eq)
next
  assume l: ?l
  show ?r
  proof (rule ccontr)
    assume r: "\<not> ?r"
    let ?i = "unat len div 8" and ?k = "unat len mod 8"
    have k: "unat len - ?i * 8 = ?k" "?i * 8 < unat len" "unat len < ?i * 8 + 8" "?i < n" "?k \<in> {1, 2, 3, 5, 6, 7}"
      using r by (auto simp: modulo_nat_def) presburger+
    have "mask_in_place (replicate n 0xFF) len ! ?i = network_bits (replicate n 0xFF) len ! ?i"
      using l by simp
    then have "(0xFF :: u8) AND push_bit ?k 0xFF = 0xFF AND NOT (mask (8 - ?k))"
      using k by (simp add: mask_in_place_def network_bits_def mask_cases network_cases nth_enumerate_eq)
    with k(5) show False by (auto simp: mask_eq_exp_minus_1)
  qed
qed

theorem mask_in_place_exact_witness:
  "mask_in_place [192, 168, 1, 77] 20 = network_bits [192, 168, 1, 77] 20 \<and>
   mask_in_place [10, 0, 0, 255] 25 = [10, 0, 0, 254] \<and> network_bits [10, 0, 0, 255] 25 = [10, 0, 0, 128]"
  using mask_in_place_exact [of 4 20]
  by (simp add: mask_in_place_def network_bits_def mask_byte_def network_byte_def Let_def mask_eq_exp_minus_1)

end
