(* ===== verification/Bgp_Wire.thy ===== *)
theory Bgp_Wire
  imports Bgp_Attributes
begin

unbundle bit_operations_syntax

text \<open>
  The messages of \<^verbatim>\<open>tpt-bgp/src/wire.rs\<close> and their codec: the 19-byte header, OPEN with
  capabilities, UPDATE, NOTIFICATION and KEEPALIVE. The decoder is shown to return on every input
  without a panic, and to invert the encoder on well-formed messages.
\<close>

abbreviation BGP_MARKER :: bytes where "BGP_MARKER \<equiv> replicate 16 0xFF"
abbreviation BGP_HEADER_LEN :: nat where "BGP_HEADER_LEN \<equiv> 19"

abbreviation MSG_OPEN :: u8 where "MSG_OPEN \<equiv> 1"
abbreviation MSG_UPDATE :: u8 where "MSG_UPDATE \<equiv> 2"
abbreviation MSG_NOTIFICATION :: u8 where "MSG_NOTIFICATION \<equiv> 3"
abbreviation MSG_KEEPALIVE :: u8 where "MSG_KEEPALIVE \<equiv> 4"

abbreviation ERR_HEADER :: u8 where "ERR_HEADER \<equiv> 1"
abbreviation ERR_OPEN :: u8 where "ERR_OPEN \<equiv> 2"
abbreviation ERR_UPDATE :: u8 where "ERR_UPDATE \<equiv> 3"
abbreviation HOLD_TIMER_EXPIRED :: u8 where "HOLD_TIMER_EXPIRED \<equiv> 4"
abbreviation CEASE :: u8 where "CEASE \<equiv> 6"

datatype Capability = MultiProtocol u16 u8 | As4 Asn | UnknownCap u8 bytes

fun Capability_code :: "Capability \<Rightarrow> u8" where
  "Capability_code (MultiProtocol _ _) = 1"
| "Capability_code (As4 _) = 65"
| "Capability_code (UnknownCap c _) = c"

record OpenMessage =
  om_version :: u8
  my_asn :: Asn
  hold_time :: u16
  bgp_id :: bytes
  capabilities :: "Capability list"

record Update =
  withdrawn_routes :: "Ipv4Prefix list"
  path_attributes :: "PathAttribute list"
  up_nlri :: "Ipv4Prefix list"

record Notification =
  nt_code :: u8
  nt_subcode :: u8
  nt_data :: bytes

definition Notification_new :: "u8 \<Rightarrow> u8 \<Rightarrow> bytes \<Rightarrow> Notification" where
  "Notification_new c s d = \<lparr>nt_code = c, nt_subcode = s, nt_data = d\<rparr>"

definition cease :: Notification where
  "cease = Notification_new CEASE 0 []"

definition header_error :: "u8 \<Rightarrow> bytes \<Rightarrow> Notification" where
  "header_error s d = Notification_new ERR_HEADER s d"

definition open_error :: "u8 \<Rightarrow> bytes \<Rightarrow> Notification" where
  "open_error s d = Notification_new ERR_OPEN s d"

definition update_error :: "u8 \<Rightarrow> bytes \<Rightarrow> Notification" where
  "update_error s d = Notification_new ERR_UPDATE s d"

datatype Message = Open OpenMessage | MUpdate Update | MNotification Notification | Keepalive

record CodecOptions =
  as4 :: bool

abbreviation CodecOptions_default :: CodecOptions where
  "CodecOptions_default \<equiv> \<lparr>as4 = True\<rparr>"

section \<open>OPEN\<close>

fun is_as4 :: "Capability \<Rightarrow> bool" where
  "is_as4 (As4 _) = True"
| "is_as4 _ = False"

fun encode_capability :: "Capability \<Rightarrow> bytes" where
  "encode_capability (MultiProtocol afi safi) = [1, 4] @ be16 afi @ [0, safi]"
| "encode_capability (As4 a) = [65, 4] @ be32 (asn_val a)"
| "encode_capability (UnknownCap c v) = [c, word_of_nat (length v)] @ v"

definition encode_open :: "bool \<Rightarrow> OpenMessage \<Rightarrow> bytes" where
  "encode_open a4 om =
     (let wants_as4 = a4 \<or> list_ex is_as4 (capabilities om);
          two_byte_as = (if fits_16bit (my_asn om) \<and> \<not> wants_as4 then to_16bit (my_asn om) else ucast AS_TRANS);
          caps = concat (map encode_capability (capabilities om))
                 @ (if wants_as4 \<and> \<not> list_ex is_as4 (capabilities om) then encode_capability (As4 (my_asn om)) else [])
      in [om_version om] @ be16 two_byte_as @ be16 (hold_time om) @ bgp_id om @ [word_of_nat (length caps)] @ caps)"

definition decode_capability :: "Capability bgp_parser" where
  "decode_capability =
     bindp bgp_u8 (\<lambda>code.
     bindp bgp_u8 (\<lambda>len.
     bindp (bgp_take (unat len)) (\<lambda>value.
       if code = 1 then
         (if length value < 4 then failp (\<lambda>_. Err (MalformedCapability code len))
          else retp (MultiProtocol (from_be [value ! 0, value ! 1]) (value ! 3)))
       else if code = 65 then
         (if length value < 4 then failp (\<lambda>_. Err (MalformedCapability code len))
          else retp (As4 (Asn (from_be [value ! 0, value ! 1, value ! 2, value ! 3]))))
       else retp (UnknownCap code value))))"

fun find_as4 :: "Capability list \<Rightarrow> Asn option" where
  "find_as4 [] = None"
| "find_as4 (As4 a # _) = Some a"
| "find_as4 (_ # cs) = find_as4 cs"

definition decode_open :: "bytes \<Rightarrow> DecodeError failure + OpenMessage" where
  "decode_open body =
     res_bind
       ((bindp bgp_u8 (\<lambda>version.
         if version \<noteq> 4 then failp (\<lambda>_. Err (UnsupportedVersion version))
         else
           bindp bgp_u16 (\<lambda>two_byte_as.
           bindp bgp_u16 (\<lambda>hold.
           bindp (bgp_take 4) (\<lambda>ident.
           bindp bgp_u8 (\<lambda>param_len.
           bindp (bgp_take (unat param_len)) (\<lambda>params.
           bindp (on_slice (while_bgp decode_capability) params) (\<lambda>caps.
             retp \<lparr>om_version = version,
                   my_asn = (case find_as4 caps of Some a \<Rightarrow> a | None \<Rightarrow> Asn (ucast two_byte_as)),
                   hold_time = hold, bgp_id = ident, capabilities = caps\<rparr>)))))))) (bgp_new body))
       (\<lambda>(m, _). Inr m)"

section \<open>UPDATE\<close>

definition encode_routes :: "Ipv4Prefix list \<Rightarrow> bytes option" where
  "encode_routes ps = append_all (map (\<lambda>p. encode_prefix_bits (p4_addr p) (p4_len p)) ps)"

definition encode_update :: "bool \<Rightarrow> Update \<Rightarrow> bytes option" where
  "encode_update a4 u =
     Option.bind (encode_routes (withdrawn_routes u)) (\<lambda>withdrawn.
     Option.bind (append_all (map (PathAttribute_encode a4) (path_attributes u))) (\<lambda>attrs.
     Option.bind (encode_routes (up_nlri u)) (\<lambda>nlri.
       Some (be16 (word_of_nat (length withdrawn)) @ withdrawn
             @ be16 (word_of_nat (length attrs)) @ attrs @ nlri))))"

text \<open>\<open>unreachable!()\<close> guards the case that \<open>decode_prefix\<close> with a 4-byte family returns an IPv6 prefix.\<close>

definition decode_route :: "Ipv4Prefix bgp_parser" where
  "decode_route = bindp (decode_prefix 4) (\<lambda>p. case p of V4 q \<Rightarrow> retp q | V6 _ \<Rightarrow> failp (\<lambda>_. Panic))"

definition decode_update :: "bool \<Rightarrow> bytes \<Rightarrow> DecodeError failure + Update" where
  "decode_update a4 body =
     res_bind
       ((bindp bgp_u16 (\<lambda>wlen.
         bindp (bgp_take (unat wlen)) (\<lambda>withdrawn_bytes.
         bindp (on_slice (while_bgp decode_route) withdrawn_bytes) (\<lambda>withdrawn.
         bindp bgp_u16 (\<lambda>alen.
         bindp (bgp_take (unat alen)) (\<lambda>attr_bytes.
         bindp (on_slice (while_bgp (PathAttribute_decode a4)) attr_bytes) (\<lambda>attrs.
         bindp (while_bgp decode_route) (\<lambda>nlri.
           retp \<lparr>withdrawn_routes = withdrawn, path_attributes = attrs, up_nlri = nlri\<rparr>)))))))) (bgp_new body))
       (\<lambda>(m, _). Inr m)"

section \<open>Messages\<close>

definition message_body :: "bool \<Rightarrow> Message \<Rightarrow> bytes option" where
  "message_body a4 m =
     (case m of
        Open om \<Rightarrow> Some (encode_open a4 om)
      | MUpdate u \<Rightarrow> encode_update a4 u
      | MNotification n \<Rightarrow> Some ([nt_code n, nt_subcode n] @ nt_data n)
      | Keepalive \<Rightarrow> Some [])"

fun message_type :: "Message \<Rightarrow> u8" where
  "message_type (Open _) = MSG_OPEN"
| "message_type (MUpdate _) = MSG_UPDATE"
| "message_type (MNotification _) = MSG_NOTIFICATION"
| "message_type Keepalive = MSG_KEEPALIVE"

definition Message_encode :: "CodecOptions \<Rightarrow> Message \<Rightarrow> bytes option" where
  "Message_encode opts m =
     map_option (\<lambda>body. BGP_MARKER @ be16 (word_of_nat (BGP_HEADER_LEN + length body)) @ [message_type m] @ body)
       (message_body (as4 opts) m)"

definition decode_notification :: "bytes \<Rightarrow> DecodeError failure + Notification" where
  "decode_notification body =
     res_bind
       ((bindp bgp_u8 (\<lambda>c. bindp bgp_u8 (\<lambda>s. bindp (\<lambda>r. bgp_take (bgp_remaining r) r) (\<lambda>d.
           retp \<lparr>nt_code = c, nt_subcode = s, nt_data = d\<rparr>)))) (bgp_new body))
       (\<lambda>(n, _). Inr n)"

definition Message_decode :: "CodecOptions \<Rightarrow> bytes \<Rightarrow> DecodeError failure + Message" where
  "Message_decode opts bs =
     (if length bs < BGP_HEADER_LEN then Inl (Err (TruncatedHeader (length bs)))
      else
        let declared = unat (from_be [bs ! 16, bs ! 17] :: u16) in
        if declared < BGP_HEADER_LEN \<or> declared \<noteq> length bs then Inl (Err (LengthMismatch declared (length bs)))
        else
          let t = bs ! 18; body = drop BGP_HEADER_LEN bs in
          if t = MSG_OPEN then res_bind (decode_open body) (\<lambda>x. Inr (Open x))
          else if t = MSG_UPDATE then res_bind (decode_update (as4 opts) body) (\<lambda>u. Inr (MUpdate u))
          else if t = MSG_NOTIFICATION then res_bind (decode_notification body) (\<lambda>n. Inr (MNotification n))
          else if t = MSG_KEEPALIVE then Inr Keepalive
          else Inl (Err (UnknownMessageType t)))"

definition Message_to_bytes :: "Message \<Rightarrow> bytes option" where
  "Message_to_bytes m = Message_encode CodecOptions_default m"

definition Message_from_bytes :: "bytes \<Rightarrow> DecodeError failure + Message" where
  "Message_from_bytes bs = Message_decode CodecOptions_default bs"

section \<open>Decoding never panics\<close>

lemma decode_prefix_v4: "decode_prefix 4 r = Inr (p, r') \<Longrightarrow> \<exists>q. p = V4 q"
  by (auto simp: decode_prefix_def bindp_Inr_iff Let_def split: if_splits)

lemma eats_route: "eats bgp_remaining decode_route"
  using eats_prefix [of 4] decode_prefix_v4
  by (fastforce simp: eats_def decode_route_def bindp_def split: sum.splits Prefix.splits)

lemma safe_capability [safe_intros]: "safe_p bgp_remaining decode_capability"
  unfolding decode_capability_def by (intro safe_intros) simp_all

lemma eats_capability: "eats bgp_remaining decode_capability"
  unfolding decode_capability_def by (intro eats_bind eats_bgp safe_intros) simp_all

lemma no_panic_run:
  "safe_p bgp_remaining p \<Longrightarrow> res_bind (p (bgp_new bs)) (\<lambda>(m, _). Inr m) \<noteq> Inl Panic"
  by (cases "p (bgp_new bs)") (auto simp: safe_p_def)

lemma no_panic_parts: "decode_open b \<noteq> Inl Panic" "decode_update a4 b \<noteq> Inl Panic" "decode_notification b \<noteq> Inl Panic"
proof -
  show "decode_open b \<noteq> Inl Panic"
    unfolding decode_open_def by (intro no_panic_run safe_intros eats_capability) simp
  show "decode_update a4 b \<noteq> Inl Panic"
    unfolding decode_update_def by (intro no_panic_run safe_intros eats_attribute eats_route)
  have "safe_p bgp_remaining (\<lambda>r. bgp_take (bgp_remaining r) r)"
    using safe_bgp(4) by (simp add: safe_p_def)
  then show "decode_notification b \<noteq> Inl Panic"
    unfolding decode_notification_def by (intro no_panic_run safe_intros)
qed


section \<open>Round trip\<close>

definition route_wf :: "Ipv4Prefix \<Rightarrow> bool" where
  "route_wf p = prefix_wf 4 (V4 p)"

fun cap_wf :: "Capability \<Rightarrow> bool" where
  "cap_wf (UnknownCap c v) \<longleftrightarrow> c \<noteq> 1 \<and> c \<noteq> 65 \<and> length v < 256"
| "cap_wf _ \<longleftrightarrow> True"

text \<open>An OPEN message that names its AS in the capability, or announces a 16-bit AS without one. Lengths
  must fit the length fields of the encoding.\<close>

definition open_wf :: "bool \<Rightarrow> OpenMessage \<Rightarrow> bool" where
  "open_wf a4 om \<longleftrightarrow> om_version om = 4 \<and> arr 4 (bgp_id om) \<and> list_all cap_wf (capabilities om) \<and>
     length (concat (map encode_capability (capabilities om))) < 256 \<and>
     (case find_as4 (capabilities om) of
        Some a \<Rightarrow> my_asn om = a
      | None \<Rightarrow> \<not> a4 \<and> fits_16bit (my_asn om))"

definition update_wf :: "bool \<Rightarrow> Update \<Rightarrow> bool" where
  "update_wf a4 u \<longleftrightarrow> list_all route_wf (withdrawn_routes u) \<and> list_all (attr_ok a4) (path_attributes u) \<and>
     list_all route_wf (up_nlri u)"

definition message_wf :: "CodecOptions \<Rightarrow> Message \<Rightarrow> bool" where
  "message_wf opts m \<longleftrightarrow>
     (case m of Open om \<Rightarrow> open_wf (as4 opts) om | MUpdate u \<Rightarrow> update_wf (as4 opts) u | _ \<Rightarrow> True) \<and>
     (case message_body (as4 opts) m of Some b \<Rightarrow> BGP_HEADER_LEN + length b < 65536 | None \<Rightarrow> True)"

lemma be_nth:
  "[be16 v ! 0, be16 v ! Suc 0] = be16 v"
  "[be32 w ! 0, be32 w ! Suc 0, be32 w ! 2, be32 w ! 3] = be32 w"
  by (simp_all add: list_eq_iff_nth_eq less_Suc_eq numeral_eq_Suc)

lemma parses_capability:
  assumes "cap_wf c"
  shows "bgp.parses decode_capability (encode_capability c) c"
proof (cases c)
  case (MultiProtocol afi safi)
  have "bgp.parses decode_capability ([1] @ [4] @ (be16 afi @ [0, safi]) @ []) c"
    unfolding decode_capability_def
    by (rule bgp.parses_bind [OF bgp_parses_u8], rule bgp.parses_bind [OF bgp_parses_u8],
        rule bgp.parses_bind [OF bgp_parses_take])
      (simp_all add: MultiProtocol nth_append be_nth bgp.parses_ret del: retp_simp)
  then show ?thesis by (simp add: MultiProtocol)
next
  case (As4 a)
  have "bgp.parses decode_capability ([65] @ [4] @ be32 (asn_val a) @ []) c"
    unfolding decode_capability_def
    by (rule bgp.parses_bind [OF bgp_parses_u8], rule bgp.parses_bind [OF bgp_parses_u8],
        rule bgp.parses_bind [OF bgp_parses_take])
      (simp_all add: As4 be_nth bgp.parses_ret del: retp_simp)
  then show ?thesis by (simp add: As4)
next
  case (UnknownCap k v)
  have "bgp.parses decode_capability ([k] @ [word_of_nat (length v)] @ v @ []) c"
    unfolding decode_capability_def
    by (rule bgp.parses_bind [OF bgp_parses_u8], rule bgp.parses_bind [OF bgp_parses_u8],
        rule bgp.parses_bind [OF bgp_parses_take])
      (use assms in \<open>simp_all add: UnknownCap unat_of_nat_small bgp.parses_ret del: retp_simp\<close>)
  then show ?thesis by (simp add: UnknownCap)
qed

lemma parses_capabilities:
  assumes "list_all cap_wf cs"
  shows "bgp.parses_all (while_bgp decode_capability) (concat (map encode_capability cs)) cs"
proof (rule bgp.parses_while)
  have "encode_capability c \<noteq> []" for c by (cases c) simp_all
  then show "list_all2 (\<lambda>bs c. bgp.parses decode_capability bs c \<and> bs \<noteq> []) (map encode_capability cs) cs"
    using assms parses_capability by (auto simp: list_all_length list_all2_conv_all_nth)
qed

lemma find_as4_iff: "list_ex is_as4 cs \<longleftrightarrow> find_as4 cs \<noteq> None"
  by (induction cs rule: find_as4.induct) simp_all

lemma run_parses_all:
  "bgp.parses_all p bs x \<Longrightarrow> res_bind (p (bgp_new bs)) (\<lambda>(m, _). Inr m) = Inr x"
  by (simp add: bgp.parses_allD)

lemma open_round_trip:
  assumes "open_wf a4 om"
  shows "decode_open (encode_open a4 om) = Inr om"
proof -
  let ?caps = "concat (map encode_capability (capabilities om))"
  define two where "two = (if fits_16bit (my_asn om) \<and> \<not> (a4 \<or> list_ex is_as4 (capabilities om))
    then to_16bit (my_asn om) else ucast AS_TRANS)"
  have enc: "encode_open a4 om = [4] @ be16 two @ be16 (hold_time om) @ bgp_id om @ [word_of_nat (length ?caps)] @ ?caps @ []"
    using assms by (auto simp: encode_open_def Let_def two_def open_wf_def find_as4_iff split: option.splits)
  have asn: "(case find_as4 (capabilities om) of Some a \<Rightarrow> a | None \<Rightarrow> Asn (ucast two)) = my_asn om"
  proof (cases "find_as4 (capabilities om)")
    case None
    then have "bgp.parses (decode_asn False) (be16 two) (my_asn om)"
      using assms parses_asn [of False "my_asn om"]
      by (simp add: open_wf_def asn_wf_def encode_asn_def two_def find_as4_iff)
    moreover have "bgp.parses (decode_asn False) (be16 two) (Asn (ucast two))"
      unfolding decode_asn_def by (simp, rule bgp.parses_bind_ret [OF bgp_parses_u16]) simp
    ultimately have "Asn (ucast two) = my_asn om"
      using bgp.parses_unique [of "decode_asn False" "be16 two" _ _ "bgp_new (be16 two)" "[]"] by simp
    then show ?thesis using None by simp
  qed (use assms in \<open>simp add: open_wf_def\<close>)
  have len: "length ?caps = unat (word_of_nat (length ?caps) :: u8)"
    using assms by (simp add: open_wf_def unat_of_nat)
  have v: "om_version om = 4" and i: "length (bgp_id om) = 4" and c: "list_all cap_wf (capabilities om)"
    using assms by (simp_all add: open_wf_def)
  show ?thesis
    unfolding decode_open_def enc
    by (rule run_parses_all, rule bgp.parses_all_bind [OF bgp_parses_u8], simp only: not_True_eq_False if_False simp_thms,
        rule bgp.parses_all_bind [OF bgp_parses_u16], rule bgp.parses_all_bind [OF bgp_parses_u16],
        rule bgp.parses_all_bind [OF bgp_parses_take [OF i]], rule bgp.parses_all_bind [OF bgp_parses_u8],
        rule bgp.parses_all_bind [OF bgp_parses_take [OF len]],
        unfold bgp_parses_slice [OF parses_capabilities [OF c]],
        rule bgp.parses_imp_all, rule bgp.parses_bind_ret [OF bgp.parses_ret])
      (simp add: asn v)
qed

lemma routes_round_trip:
  assumes "list_all route_wf ps"
  obtains bs where "encode_routes ps = Some bs" and "bgp.parses_all (while_bgp decode_route) bs ps"
proof
  let ?e = "\<lambda>p. p4_len p # take (nbytes (p4_len p)) (p4_addr p)"
  have enc: "encode_prefix_bits (p4_addr p) (p4_len p) = Some (?e p)" if "route_wf p" for p
    using parses_prefix(1) [of 4 "V4 p"] that by (simp add: route_wf_def)
  then have "map (\<lambda>p. encode_prefix_bits (p4_addr p) (p4_len p)) ps = map (\<lambda>p. Some (?e p)) ps"
    using assms by (auto simp: list_all_iff)
  then show "encode_routes ps = Some (concat (map ?e ps))"
    by (simp only: encode_routes_def append_all_Some)
  have "bgp.parses decode_route (?e p) p" if "route_wf p" for p
  proof -
    have "bgp.parses (decode_prefix 4) (?e p) (V4 p)"
      using parses_prefix(2) [of 4 "V4 p"] that by (simp add: route_wf_def)
    from bgp.parses_bind [OF this, of "\<lambda>p. case p of V4 q \<Rightarrow> retp q | V6 _ \<Rightarrow> failp (\<lambda>_. Panic)" "[]" p]
    show ?thesis by (simp add: decode_route_def bgp.parses_ret del: retp_simp)
  qed
  then show "bgp.parses_all (while_bgp decode_route) (concat (map ?e ps)) ps"
    using assms by (intro bgp.parses_while) (auto simp: list_all_length list_all2_conv_all_nth)
qed

lemma attributes_round_trip:
  assumes "list_all (attr_ok a4) as"
  obtains bs where "append_all (map (PathAttribute_encode a4) as) = Some bs"
    and "bgp.parses_all (while_bgp (PathAttribute_decode a4)) bs as"
proof
  let ?e = "\<lambda>a. the (PathAttribute_encode a4 a)"
  have each: "PathAttribute_encode a4 a = Some (?e a) \<and> bgp.parses (PathAttribute_decode a4) (?e a) a \<and> ?e a \<noteq> []"
    if "attr_ok a4 a" for a
    by (rule parses_attribute [OF that]) simp
  then have "map (PathAttribute_encode a4) as = map (\<lambda>a. Some (?e a)) as"
    using assms by (auto simp: list_all_iff)
  then show "append_all (map (PathAttribute_encode a4) as) = Some (concat (map ?e as))"
    by (simp only: append_all_Some)
  show "bgp.parses_all (while_bgp (PathAttribute_decode a4)) (concat (map ?e as)) as"
    using assms each by (intro bgp.parses_while) (auto simp: list_all_length list_all2_conv_all_nth)
qed

lemma update_round_trip:
  assumes "update_wf a4 u" and "\<And>b. encode_update a4 u = Some b \<Longrightarrow> length b < 65536"
  obtains b where "encode_update a4 u = Some b" and "decode_update a4 b = Inr u"
proof -
  have wf: "list_all route_wf (withdrawn_routes u)" "list_all (attr_ok a4) (path_attributes u)" "list_all route_wf (up_nlri u)"
    using assms(1) by (simp_all add: update_wf_def)
  obtain w where w: "encode_routes (withdrawn_routes u) = Some w"
      "bgp.parses_all (while_bgp decode_route) w (withdrawn_routes u)" by (rule routes_round_trip [OF wf(1)])
  obtain a where a: "append_all (map (PathAttribute_encode a4) (path_attributes u)) = Some a"
      "bgp.parses_all (while_bgp (PathAttribute_decode a4)) a (path_attributes u)" by (rule attributes_round_trip [OF wf(2)])
  obtain n where n: "encode_routes (up_nlri u) = Some n" "bgp.parses_all (while_bgp decode_route) n (up_nlri u)"
    by (rule routes_round_trip [OF wf(3)])
  let ?b = "be16 (word_of_nat (length w)) @ w @ be16 (word_of_nat (length a)) @ a @ n"
  have b: "encode_update a4 u = Some ?b" by (simp add: encode_update_def w(1) a(1) n(1))
  have "length ?b < 65536" by (rule assms(2) [OF b])
  then have len: "length w = unat (word_of_nat (length w) :: u16)" "length a = unat (word_of_nat (length a) :: u16)"
    by (simp_all add: unat_of_nat)
  have "decode_update a4 ?b = Inr u"
    unfolding decode_update_def
    by (rule run_parses_all, rule bgp.parses_all_bind [OF bgp_parses_u16], rule bgp.parses_all_bind [OF bgp_parses_take [OF len(1)]],
        unfold bgp_parses_slice [OF w(2)], rule bgp.parses_all_bind [OF bgp.parses_ret, of _ _ "be16 _ @ _", simplified],
        rule bgp.parses_all_bind [OF bgp_parses_u16], rule bgp.parses_all_bind [OF bgp_parses_take [OF len(2)]],
        unfold bgp_parses_slice [OF a(2)], rule bgp.parses_all_bind [OF bgp.parses_ret, of _ _ n, simplified],
        rule bgp.parses_all_bind_ret [OF n(2)]) simp
  with b that show ?thesis by blast
qed

lemma decode_framed:
  assumes "BGP_HEADER_LEN + length body < 65536"
  shows "Message_decode opts (BGP_MARKER @ be16 (word_of_nat (BGP_HEADER_LEN + length body)) @ [t] @ body) =
    (if t = MSG_OPEN then res_bind (decode_open body) (\<lambda>x. Inr (Open x))
     else if t = MSG_UPDATE then res_bind (decode_update (as4 opts) body) (\<lambda>u. Inr (MUpdate u))
     else if t = MSG_NOTIFICATION then res_bind (decode_notification body) (\<lambda>n. Inr (MNotification n))
     else if t = MSG_KEEPALIVE then Inr Keepalive
     else Inl (Err (UnknownMessageType t)))"
proof -
  let ?l = "be16 (word_of_nat (19 + length body))"
  let ?bs = "BGP_MARKER @ ?l @ [t] @ body"
  have nth: "[?bs ! 16, ?bs ! 17] = ?l" "?bs ! 18 = t" "length ?bs = 19 + length body" "drop 19 ?bs = body"
    using be_nth(1) [of "word_of_nat (19 + length body)"] by (simp_all add: nth_append)
  have "unat (from_be ?l :: u16) = 19 + length body"
    using assms by (simp only: from_be_be unat_of_nat) simp
  then show ?thesis
    unfolding Message_decode_def Let_def nth by simp
qed

lemma notification_round_trip: "decode_notification ([nt_code n, nt_subcode n] @ nt_data n) = Inr n"
proof -
  have all: "bgp.parses_all (\<lambda>r. bgp_take (bgp_remaining r) r) d d" for d
    by (rule bgp.parses_allI) (simp add: bgp.sz_rest bgp.rd_ok)
  have "decode_notification ([nt_code n] @ [nt_subcode n] @ nt_data n) = Inr n"
    unfolding decode_notification_def
    by (rule run_parses_all, rule bgp.parses_all_bind [OF bgp_parses_u8], rule bgp.parses_all_bind [OF bgp_parses_u8],
        rule bgp.parses_all_bind_ret [OF all]) simp
  then show ?thesis by simp
qed

text \<open>
  C12: A well-formed message of any type, with the AS width of the session on both sides, is encoded
  without a panic and decoded from the encoding: an OPEN with its capabilities, an UPDATE with its
  withdrawn routes, all path attributes and its routes, a NOTIFICATION or a KEEPALIVE.
\<close>

theorem bgp_message_round_trip:
  assumes "message_wf opts m"
  shows "\<exists>bs. Message_encode opts m = Some bs \<and> Message_decode opts bs = Inr m"
proof -
  have "\<exists>b. message_body (as4 opts) m = Some b \<and>
      (case m of Open _ \<Rightarrow> res_bind (decode_open b) (\<lambda>x. Inr (Open x))
       | MUpdate _ \<Rightarrow> res_bind (decode_update (as4 opts) b) (\<lambda>u. Inr (MUpdate u))
       | MNotification _ \<Rightarrow> res_bind (decode_notification b) (\<lambda>n. Inr (MNotification n))
       | Keepalive \<Rightarrow> Inr Keepalive) = Inr m"
  proof (cases m)
    case (MUpdate u)
    have "\<exists>b. encode_update (as4 opts) u = Some b \<and> decode_update (as4 opts) b = Inr u"
      by (rule update_round_trip [of "as4 opts" u])
        (use assms MUpdate in \<open>auto simp: message_wf_def message_body_def split: option.splits\<close>)
    then show ?thesis using MUpdate by (auto simp: message_body_def)
  qed (use assms open_round_trip notification_round_trip in \<open>auto simp: message_wf_def message_body_def\<close>)
  then obtain b where b: "message_body (as4 opts) m = Some b"
    and dec: "(case m of Open _ \<Rightarrow> res_bind (decode_open b) (\<lambda>x. Inr (Open x))
       | MUpdate _ \<Rightarrow> res_bind (decode_update (as4 opts) b) (\<lambda>u. Inr (MUpdate u))
       | MNotification _ \<Rightarrow> res_bind (decode_notification b) (\<lambda>n. Inr (MNotification n))
       | Keepalive \<Rightarrow> Inr Keepalive) = Inr m" by blast
  have "BGP_HEADER_LEN + length b < 65536" using assms b by (simp add: message_wf_def)
  from decode_framed [OF this, of opts "message_type m"] dec
  have "Message_decode opts (BGP_MARKER @ be16 (word_of_nat (BGP_HEADER_LEN + length b)) @ [message_type m] @ b) = Inr m"
    by (cases m) simp_all
  moreover have "Message_encode opts m =
      Some (BGP_MARKER @ be16 (word_of_nat (BGP_HEADER_LEN + length b)) @ [message_type m] @ b)"
    by (simp add: Message_encode_def b)
  ultimately show ?thesis by blast
qed

definition sample_update :: Message where
  "sample_update = MUpdate
     \<lparr>withdrawn_routes = [\<lparr>p4_addr = [10, 1, 0, 0], p4_len = 16\<rparr>],
      path_attributes =
        [AttrOrigin Igp, AttrAsPath \<lparr>segments = [\<lparr>segment_type = SegSequence, seg_asns = [Asn 65001, Asn 70000]\<rparr>]\<rparr>,
         AttrNextHop [192, 0, 2, 1], LocalPref 100,
         AttrMpReach \<lparr>mr_afi = 2, mr_safi = 1, mr_next_hop = Other [1, 2, 3],
                      mr_nlri = [V6 \<lparr>p6_addr = [32, 1] @ replicate 14 0, p6_len = 12\<rparr>]\<rparr>],
      up_nlri = [\<lparr>p4_addr = [203, 0, 113, 0], p4_len = 24\<rparr>]\<rparr>"

theorem bgp_message_round_trip_witness:
  "\<exists>bs. Message_encode \<lparr>as4 = True\<rparr> sample_update = Some bs \<and> Message_decode \<lparr>as4 = True\<rparr> bs = Inr sample_update"
proof (rule bgp_message_round_trip)
  show "message_wf \<lparr>as4 = True\<rparr> sample_update"
    by (simp add: message_wf_def sample_update_def update_wf_def route_wf_def prefix_wf_def attr_ok_def segment_wf_def asn_wf_def
        family_len_def nbytes_def message_body_def encode_update_def encode_routes_def encode_prefix_bits_def
        PathAttribute_encode_def Let_def AsPath_encode_value_def encode_segment_def encode_asn_def encode_mp_reach_def
        encode_prefixes_def)
      (simp add: numeral_2_eq_2)
qed

end
