(* ===== verification/Bgp_Fsm.thy ===== *)
theory Bgp_Fsm
  imports Bgp_Wire "HOL-Library.List_Lexorder"
begin

text \<open>
  The peer state machine of \<^verbatim>\<open>tpt-bgp/src/fsm.rs\<close>. One call of \<open>on_event\<close> is a function from the
  machine and an event to the new machine and the requested actions. BGP identifiers are
  compared as the code compares arrays, lexicographically.
\<close>

datatype FsmState = Idle | Connect | Active | OpenSent | OpenConfirm | Established

fun FsmState_name :: "FsmState \<Rightarrow> string" where
  "FsmState_name Idle = ''Idle''"
| "FsmState_name Connect = ''Connect''"
| "FsmState_name Active = ''Active''"
| "FsmState_name OpenSent = ''OpenSent''"
| "FsmState_name OpenConfirm = ''OpenConfirm''"
| "FsmState_name Established = ''Established''"

definition is_established :: "FsmState \<Rightarrow> bool" where
  "is_established s = (s = Established)"

datatype FsmEvent =
    ManualStart
  | ManualStop
  | TcpConnectionValid
  | TcpConnectionFailed
  | TcpConnectionOpened
  | TcpClose
  | BgpOpenValid bytes
  | BgpOpenInvalid Notification
  | NotificationReceived Notification
  | KeepaliveReceived
  | HoldTimerExpired
  | KeepaliveTimerExpired
  | DelayOpenTimerExpired
  | IdleHoldTimerExpired

datatype FsmAction =
    InitiateTcpConnection
  | ReleaseTcpConnection
  | SendOpen
  | SendKeepalive
  | SendNotification Notification
  | StartConnectRetryTimer
  | StartHoldTimer
  | StartKeepaliveTimer
  | StartDelayOpenTimer
  | StartIdleHoldTimer

record Fsm =
  fsm_state :: FsmState
  local_bgp_id :: bytes
  remote_bgp_id :: "bytes option"
  fsm_as4 :: bool

definition Fsm_new :: "bytes \<Rightarrow> Fsm" where
  "Fsm_new ident = \<lparr>fsm_state = Idle, local_bgp_id = ident, remote_bgp_id = None, fsm_as4 = True\<rparr>"

text \<open>The match of \<open>on_event\<close>: next state, actions and remote identifier.\<close>

definition fsm_match :: "Fsm \<Rightarrow> FsmEvent \<Rightarrow> FsmState \<times> FsmAction list \<times> bytes option" where
  "fsm_match f ev =
     (let stay = (fsm_state f, [], remote_bgp_id f); rid = remote_bgp_id f;
          open_tcp = (Connect, [InitiateTcpConnection, StartConnectRetryTimer, StartDelayOpenTimer], rid);
          send_open = (OpenSent, [SendOpen, StartHoldTimer], rid);
          release = (Idle, [ReleaseTcpConnection, StartIdleHoldTimer], rid);
          stop_with = (\<lambda>n. (Idle, [SendNotification n, ReleaseTcpConnection, StartIdleHoldTimer], rid))
      in case fsm_state f of
        Idle \<Rightarrow>
          (case ev of ManualStart \<Rightarrow> open_tcp | IdleHoldTimerExpired \<Rightarrow> open_tcp | _ \<Rightarrow> stay)
      | Connect \<Rightarrow>
          (case ev of
             ManualStop \<Rightarrow> release
           | TcpConnectionValid \<Rightarrow> send_open
           | TcpConnectionFailed \<Rightarrow> (Idle, [StartConnectRetryTimer, StartIdleHoldTimer], rid)
           | TcpConnectionOpened \<Rightarrow> send_open
           | DelayOpenTimerExpired \<Rightarrow> send_open
           | BgpOpenInvalid n \<Rightarrow> stop_with n
           | _ \<Rightarrow> stay)
      | Active \<Rightarrow>
          (case ev of
             ManualStop \<Rightarrow> release
           | TcpConnectionValid \<Rightarrow> send_open
           | TcpConnectionOpened \<Rightarrow> send_open
           | TcpConnectionFailed \<Rightarrow> open_tcp
           | DelayOpenTimerExpired \<Rightarrow> send_open
           | _ \<Rightarrow> stay)
      | OpenSent \<Rightarrow>
          (let collision = (case rid of
               Some remote \<Rightarrow> if local_bgp_id f \<le> remote then (OpenSent, [ReleaseTcpConnection], rid) else release
             | None \<Rightarrow> (OpenSent, [SendOpen], rid))
           in case ev of
             ManualStop \<Rightarrow> stop_with cease
           | TcpConnectionValid \<Rightarrow> collision
           | TcpConnectionOpened \<Rightarrow> collision
           | BgpOpenValid remote \<Rightarrow> (OpenConfirm, [SendKeepalive, StartKeepaliveTimer], Some remote)
           | BgpOpenInvalid n \<Rightarrow> stop_with n
           | NotificationReceived n \<Rightarrow> release
           | HoldTimerExpired \<Rightarrow> stop_with (Notification_new HOLD_TIMER_EXPIRED 0 [])
           | TcpClose \<Rightarrow> (Idle, [StartIdleHoldTimer], rid)
           | _ \<Rightarrow> stay)
      | OpenConfirm \<Rightarrow>
          (let collision = (case rid of
               Some remote \<Rightarrow> if local_bgp_id f \<le> remote then (OpenConfirm, [ReleaseTcpConnection], rid) else stop_with cease
             | None \<Rightarrow> stay)
           in case ev of
             ManualStop \<Rightarrow> stop_with cease
           | TcpConnectionValid \<Rightarrow> collision
           | TcpConnectionOpened \<Rightarrow> collision
           | KeepaliveReceived \<Rightarrow> (Established, [StartHoldTimer], rid)
           | TcpClose \<Rightarrow> release
           | HoldTimerExpired \<Rightarrow> release
           | BgpOpenInvalid n \<Rightarrow> stop_with n
           | NotificationReceived _ \<Rightarrow> release
           | _ \<Rightarrow> stay)
      | Established \<Rightarrow>
          (case ev of
             ManualStop \<Rightarrow> stop_with cease
           | KeepaliveReceived \<Rightarrow> (Established, [StartHoldTimer], rid)
           | KeepaliveTimerExpired \<Rightarrow> (Established, [SendKeepalive, StartKeepaliveTimer], rid)
           | TcpClose \<Rightarrow> stop_with cease
           | HoldTimerExpired \<Rightarrow> stop_with cease
           | BgpOpenInvalid _ \<Rightarrow> stop_with cease
           | NotificationReceived _ \<Rightarrow> stop_with cease
           | _ \<Rightarrow> stay))"

definition on_event :: "Fsm \<Rightarrow> FsmEvent \<Rightarrow> FsmAction list \<times> Fsm" where
  "on_event f ev =
     (let (nxt, actions, rid) = fsm_match f ev
      in (actions, f\<lparr>remote_bgp_id := (if nxt = Idle then None else rid), fsm_state := nxt\<rparr>))"

section \<open>Runs\<close>

definition fsm_run :: "Fsm \<Rightarrow> FsmEvent list \<Rightarrow> Fsm" where
  "fsm_run f evs = foldl (\<lambda>g e. snd (on_event g e)) f evs"

definition fsm_inv :: "bytes \<Rightarrow> Fsm \<Rightarrow> bool" where
  "fsm_inv ident f \<longleftrightarrow> local_bgp_id f = ident \<and> fsm_state f \<noteq> Active \<and>
     (remote_bgp_id f \<noteq> None \<longleftrightarrow> fsm_state f \<in> {OpenConfirm, Established})"

lemma fsm_run_simps [simp]:
  "fsm_run f [] = f" "fsm_run f (evs @ [e]) = snd (on_event (fsm_run f evs) e)"
  by (simp_all add: fsm_run_def)

lemma fsm_inv_step:
  assumes "fsm_inv ident f"
  shows "fsm_inv ident (snd (on_event f e))"
  using assms
  by (cases "fsm_state f"; cases e)
    (auto simp: fsm_inv_def on_event_def fsm_match_def Let_def split: option.splits)

lemma fsm_inv_run: "fsm_inv ident (fsm_run (Fsm_new ident) evs)"
  by (induction evs rule: rev_induct) (simp_all add: fsm_inv_step, simp add: fsm_inv_def Fsm_new_def)

text \<open>How the last two states are entered.\<close>

lemma enter_open_confirm:
  "fsm_inv ident f \<Longrightarrow> fsm_state (snd (on_event f e)) = OpenConfirm \<Longrightarrow>
     fsm_state f = OpenConfirm \<and> remote_bgp_id (snd (on_event f e)) = remote_bgp_id f \<or>
     fsm_state f = OpenSent \<and> (\<exists>r. e = BgpOpenValid r \<and> remote_bgp_id (snd (on_event f e)) = Some r)"
  by (cases "fsm_state f"; cases e)
    (auto simp: fsm_inv_def on_event_def fsm_match_def Let_def split: option.splits if_splits)

lemma enter_established:
  "fsm_inv ident f \<Longrightarrow> fsm_state (snd (on_event f e)) = Established \<Longrightarrow>
     remote_bgp_id (snd (on_event f e)) = remote_bgp_id f \<and>
     (fsm_state f = Established \<or> fsm_state f = OpenConfirm \<and> e = KeepaliveReceived)"
  by (cases "fsm_state f"; cases e)
    (auto simp: fsm_inv_def on_event_def fsm_match_def Let_def split: option.splits if_splits)

lemma open_confirm_history:
  "fsm_state (fsm_run (Fsm_new ident) evs) = OpenConfirm \<Longrightarrow>
     \<exists>pre r mid. evs = pre @ [BgpOpenValid r] @ mid \<and> fsm_state (fsm_run (Fsm_new ident) pre) = OpenSent \<and>
       remote_bgp_id (fsm_run (Fsm_new ident) evs) = Some r"
proof (induction evs rule: rev_induct)
  case Nil
  then show ?case by (simp add: Fsm_new_def)
next
  case (snoc e evs)
  from enter_open_confirm [OF fsm_inv_run, of ident evs e] snoc.prems
  consider "fsm_state (fsm_run (Fsm_new ident) evs) = OpenConfirm"
      "remote_bgp_id (fsm_run (Fsm_new ident) (evs @ [e])) = remote_bgp_id (fsm_run (Fsm_new ident) evs)"
    | r where "fsm_state (fsm_run (Fsm_new ident) evs) = OpenSent" "e = BgpOpenValid r"
      "remote_bgp_id (fsm_run (Fsm_new ident) (evs @ [e])) = Some r"
    by auto
  then show ?case
  proof cases
    case 1
    from snoc.IH [OF this(1)] obtain pre r mid where "evs = pre @ [BgpOpenValid r] @ mid"
        "fsm_state (fsm_run (Fsm_new ident) pre) = OpenSent" "remote_bgp_id (fsm_run (Fsm_new ident) evs) = Some r" by blast
    then show ?thesis using 1(2) by (intro exI [of _ pre] exI [of _ r] exI [of _ "mid @ [e]"]) simp
  next
    case (2 r)
    then show ?thesis by (intro exI [of _ evs] exI [of _ r] exI [of _ "[]"]) simp
  qed
qed

lemma established_history:
  "fsm_state (fsm_run (Fsm_new ident) evs) = Established \<Longrightarrow>
     \<exists>pre r mid post. evs = pre @ [BgpOpenValid r] @ mid @ [KeepaliveReceived] @ post \<and>
       fsm_state (fsm_run (Fsm_new ident) pre) = OpenSent \<and>
       fsm_state (fsm_run (Fsm_new ident) (pre @ [BgpOpenValid r] @ mid)) = OpenConfirm \<and>
       remote_bgp_id (fsm_run (Fsm_new ident) evs) = Some r"
proof (induction evs rule: rev_induct)
  case Nil
  then show ?case by (simp add: Fsm_new_def)
next
  case (snoc e evs)
  let ?f = "fsm_run (Fsm_new ident) evs"
  have rid: "remote_bgp_id (fsm_run (Fsm_new ident) (evs @ [e])) = remote_bgp_id ?f"
    and from_state: "fsm_state ?f = Established \<or> fsm_state ?f = OpenConfirm \<and> e = KeepaliveReceived"
    using enter_established [OF fsm_inv_run, of ident evs e] snoc.prems by simp_all
  show ?case
  proof (cases "fsm_state ?f = Established")
    case True
    from snoc.IH [OF True] obtain pre r mid post
      where "evs = pre @ [BgpOpenValid r] @ mid @ [KeepaliveReceived] @ post" "fsm_state (fsm_run (Fsm_new ident) pre) = OpenSent"
        "fsm_state (fsm_run (Fsm_new ident) (pre @ [BgpOpenValid r] @ mid)) = OpenConfirm" "remote_bgp_id ?f = Some r" by blast
    then show ?thesis
      using rid by (intro exI [of _ pre] exI [of _ r] exI [of _ mid] exI [of _ "post @ [e]"]) simp
  next
    case False
    then have "fsm_state ?f = OpenConfirm" "e = KeepaliveReceived" using from_state by auto
    with open_confirm_history [of ident evs] rid show ?thesis by fastforce
  qed
qed

text \<open>
  C30: A peer that starts in \<open>Idle\<close> is \<open>Established\<close> only after, in this order, a valid OPEN received in
  \<open>OpenSent\<close> and a KEEPALIVE received in \<open>OpenConfirm\<close>, and the identifier it holds is the one of that
  OPEN. In every run the remote identifier is known exactly in \<open>OpenConfirm\<close> and
  \<open>Established\<close>, and the state \<open>Active\<close> is never reached.
\<close>

theorem established_only_after_handshake:
  fixes ident evs
  defines "f \<equiv> fsm_run (Fsm_new ident) evs"
  shows "(fsm_state f = Established \<longrightarrow>
     (\<exists>pre r mid post. evs = pre @ [BgpOpenValid r] @ mid @ [KeepaliveReceived] @ post \<and>
        fsm_state (fsm_run (Fsm_new ident) pre) = OpenSent \<and>
        fsm_state (fsm_run (Fsm_new ident) (pre @ [BgpOpenValid r] @ mid)) = OpenConfirm \<and>
        remote_bgp_id f = Some r)) \<and>
     (remote_bgp_id f \<noteq> None \<longleftrightarrow> fsm_state f \<in> {OpenConfirm, Established}) \<and> fsm_state f \<noteq> Active"
  unfolding f_def using established_history [of ident evs] fsm_inv_run [of ident evs] by (simp add: fsm_inv_def)

theorem established_only_after_handshake_witness:
  "fsm_state (fsm_run (Fsm_new [1, 1, 1, 1]) [ManualStart, TcpConnectionValid, BgpOpenValid [2, 2, 2, 2], KeepaliveReceived]) = Established
   \<and> remote_bgp_id (fsm_run (Fsm_new [1, 1, 1, 1]) [ManualStart, TcpConnectionValid, BgpOpenValid [2, 2, 2, 2], KeepaliveReceived]) \<noteq> None"
proof -
  let ?f = "fsm_run (Fsm_new [1, 1, 1, 1]) [ManualStart, TcpConnectionValid, BgpOpenValid [2, 2, 2, 2], KeepaliveReceived]"
  have "fsm_state ?f = Established"
    by (simp add: fsm_run_def Fsm_new_def on_event_def fsm_match_def)
  with established_only_after_handshake [of "[1, 1, 1, 1]"
      "[ManualStart, TcpConnectionValid, BgpOpenValid [2, 2, 2, 2], KeepaliveReceived]"]
  show ?thesis by simp
qed

end
