(* ===== verification/Bgp_Rib.thy ===== *)
theory Bgp_Rib
  imports Bgp_Attributes "HOL-Library.List_Lexorder" "HOL-Library.Product_Lexorder"
begin

text \<open>
  The routing information base of \<^verbatim>\<open>tpt-bgp/src/rib.rs\<close>: the received routes per prefix, the best
  route per prefix, and the decision process. The interface \<open>decision_order\<close> states what a
  decision process must promise for the selection loop to find an optimal route; the default
  process keeps that promise among routes of one neighbouring AS.
\<close>

record RouteSource =
  peer :: bytes
  is_ibgp :: bool

record Route =
  rt_prefix :: Prefix
  origin :: "Origin option"
  as_path :: AsPath
  next_hop :: "NextHop option"
  med :: "u32 option"
  local_pref :: "u32 option"
  aggregator :: "Aggregator option"
  communities :: "u32 list"
  source :: RouteSource

definition Route_new :: "Prefix \<Rightarrow> RouteSource \<Rightarrow> Route" where
  "Route_new p s =
     \<lparr>rt_prefix = p, origin = None, as_path = AsPath_default, next_hop = None, med = None, local_pref = None,
      aggregator = None, communities = [], source = s\<rparr>"

type_synonym decision = "Route option \<Rightarrow> Route \<Rightarrow> Ordering"

definition unwrap_or :: "'a option \<Rightarrow> 'a \<Rightarrow> 'a" where
  "unwrap_or m d = (case m of None \<Rightarrow> d | Some x \<Rightarrow> x)"

fun reverse :: "Ordering \<Rightarrow> Ordering" where
  "reverse Less = Greater"
| "reverse Equal = Equal"
| "reverse Greater = Less"

definition DefaultDecision :: decision where
  "DefaultDecision current_best cand =
     (case current_best of
        None \<Rightarrow> Greater
      | Some cur \<Rightarrow>
          let lp_cur = unwrap_or (local_pref cur) 0; lp_can = unwrap_or (local_pref cand) 0 in
          if lp_cur \<noteq> lp_can then reverse (cmp lp_cur lp_can)
          else
            let ap_cur = path_length (as_path cur); ap_can = path_length (as_path cand) in
            if ap_cur \<noteq> ap_can then cmp ap_cur ap_can
            else
              let o_cur = unwrap_or (map_option Origin_to_u8 (origin cur)) 3;
                  o_can = unwrap_or (map_option Origin_to_u8 (origin cand)) 3 in
              if o_cur \<noteq> o_can then cmp o_cur o_can
              else
                let m_cur = unwrap_or (med cur) 0; m_can = unwrap_or (med cand) 0 in
                if first_asn (as_path cur) = first_asn (as_path cand) \<and> m_cur \<noteq> m_can then cmp m_cur m_can
                else if is_ibgp (source cur) \<noteq> is_ibgp (source cand) then
                  (if is_ibgp (source cand) then Less else Greater)
                else cmp (peer (source cur)) (peer (source cand)))"

record Rib =
  adj :: "Prefix \<Rightarrow> Route list option"
  loc :: "Prefix \<Rightarrow> Route option"
  rib_decision :: decision

definition Rib_new :: "decision \<Rightarrow> Rib" where
  "Rib_new d = \<lparr>adj = Map.empty, loc = Map.empty, rib_decision = d\<rparr>"

text \<open>The loop of \<open>recompute\<close>.\<close>

definition select_best :: "decision \<Rightarrow> Route list \<Rightarrow> Route option" where
  "select_best d routes = foldl (\<lambda>best r. if d best r = Greater then Some r else best) None routes"

definition recompute :: "Prefix \<Rightarrow> Rib \<Rightarrow> Rib" where
  "recompute p rib =
     (let best = (case adj rib p of None \<Rightarrow> None | Some routes \<Rightarrow> select_best (rib_decision rib) routes)
      in rib\<lparr>loc := (loc rib)(p := best)\<rparr>)"

text \<open>The first route of the same source is replaced, otherwise the route is pushed.\<close>

fun replace_or_push :: "Route \<Rightarrow> Route list \<Rightarrow> Route list" where
  "replace_or_push route [] = [route]"
| "replace_or_push route (r # rs) =
     (if peer (source r) = peer (source route) \<and> is_ibgp (source r) = is_ibgp (source route) then route # rs
      else r # replace_or_push route rs)"

definition rib_insert :: "Route \<Rightarrow> Rib \<Rightarrow> Rib" where
  "rib_insert route rib =
     (let p = rt_prefix route; entry = unwrap_or (adj rib p) []
      in recompute p (rib\<lparr>adj := (adj rib)(p \<mapsto> replace_or_push route entry)\<rparr>))"

definition rib_withdraw :: "Prefix \<Rightarrow> bytes \<Rightarrow> Rib \<Rightarrow> bool \<times> Rib" where
  "rib_withdraw p who rib =
     (let rib1 = (case adj rib p of
            None \<Rightarrow> rib
          | Some entry \<Rightarrow>
              let kept = filter (\<lambda>r. peer (source r) \<noteq> who) entry
              in rib\<lparr>adj := (adj rib)(p := (if kept = [] then None else Some kept))\<rparr>);
          before = map_option (\<lambda>r. peer (source r)) (loc rib1 p);
          rib2 = recompute p rib1;
          after = map_option (\<lambda>r. peer (source r)) (loc rib2 p)
      in (before \<noteq> after \<or> before \<noteq> None, rib2))"

definition rib_best :: "Prefix \<Rightarrow> Rib \<Rightarrow> Route option" where
  "rib_best p rib = loc rib p"

text \<open>A policy inspects and may rewrite the route; \<open>False\<close> rejects it.\<close>

definition insert_with_policy :: "(Route \<Rightarrow> bool \<times> Route) \<Rightarrow> Route \<Rightarrow> Rib \<Rightarrow> bool \<times> Rib" where
  "insert_with_policy policy route rib =
     (let (ok, route') = policy route in if ok then (True, rib_insert route' rib) else (False, rib))"

section \<open>What a decision process promises\<close>

text \<open>
  On the routes of \<open>within\<close> the process prefers a candidate exactly when it has the smaller rank.
\<close>

locale decision_order =
  fixes decide :: decision
    and rank :: "Route \<Rightarrow> 'k::linorder"
    and within :: "Route \<Rightarrow> bool"
  assumes decide_none: "decide None r = Greater"
    and decide_rank: "within a \<Longrightarrow> within b \<Longrightarrow> decide (Some a) b = Greater \<longleftrightarrow> rank b < rank a"
begin

lemma select_from:
  assumes "list_all within rs" and "within a"
  shows "\<exists>b. foldl (\<lambda>best r. if decide best r = Greater then Some r else best) (Some a) rs = Some b \<and>
    b \<in> insert a (set rs) \<and> (\<forall>r \<in> insert a (set rs). rank b \<le> rank r)"
  using assms
proof (induction rs arbitrary: a)
  case (Cons r rs)
  let ?a = "if decide (Some a) r = Greater then r else a"
  have a: "within ?a" using Cons.prems by simp
  obtain b where b: "foldl (\<lambda>best r. if decide best r = Greater then Some r else best) (Some ?a) rs = Some b"
      "b \<in> insert ?a (set rs)" "\<forall>r \<in> insert ?a (set rs). rank b \<le> rank r"
    using Cons.IH [OF _ a] Cons.prems by auto
  have "rank ?a \<le> rank a" "rank ?a \<le> rank r"
    using decide_rank [of a r] Cons.prems by (auto simp: not_less)
  with b show ?case by (auto split: if_splits intro: order_trans)
qed simp

lemma select_optimal:
  assumes "list_all within rs"
  shows "case select_best decide rs of
      None \<Rightarrow> rs = []
    | Some b \<Rightarrow> b \<in> set rs \<and> (\<forall>r \<in> set rs. rank b \<le> rank r)"
proof (cases rs)
  case (Cons a rs')
  then show ?thesis
    using select_from [of rs' a] assms decide_none [of a] by (auto simp: select_best_def)
qed (simp add: select_best_def)

text \<open>When no two routes tie, the order in which they were received is irrelevant.\<close>

lemma select_order_irrelevant:
  assumes "list_all within rs" and "set rs = set qs" and "inj_on rank (set rs)"
  shows "select_best decide rs = select_best decide qs"
proof (cases "rs = []")
  case False
  have qs: "list_all within qs" "qs \<noteq> []" using assms False by (auto simp: list_all_iff)
  obtain b where b: "select_best decide rs = Some b" "b \<in> set rs" "\<forall>r \<in> set rs. rank b \<le> rank r"
    using select_optimal [OF assms(1)] False by (auto split: option.splits)
  obtain c where c: "select_best decide qs = Some c" "c \<in> set qs" "\<forall>r \<in> set qs. rank c \<le> rank r"
    using select_optimal [OF qs(1)] qs(2) by (auto split: option.splits)
  have "rank b = rank c" using b c assms(2) by (simp add: order.antisym)
  then show ?thesis using b c assms by (auto dest: inj_onD)
qed (use assms in simp)

end

section \<open>The default process among routes of one neighbour\<close>

definition route_rank :: "Route \<Rightarrow> int \<times> nat \<times> u8 \<times> u32 \<times> bool \<times> bytes" where
  "route_rank r =
     (- int (unat (unwrap_or (local_pref r) 0)), path_length (as_path r),
      unwrap_or (map_option Origin_to_u8 (origin r)) 3, unwrap_or (med r) 0, is_ibgp (source r), peer (source r))"

definition neighbour :: "Route \<Rightarrow> Asn option" where
  "neighbour r = first_asn (as_path r)"

lemma cmp_Greater [simp]: "cmp a b = Greater \<longleftrightarrow> b < a"
  by (auto simp: cmp_def)

lemma reverse_cmp [simp]: "reverse (cmp a b) = Greater \<longleftrightarrow> a < b"
  by (auto simp: cmp_def)

lemma less_pair: "(x :: 'a::linorder, y :: 'b::linorder) < (x', y') \<longleftrightarrow> (if x' \<noteq> x then x < x' else y < y')"
  by auto

lemma neg_unat:
  fixes a b :: "'a::len word"
  shows "- int (unat a) < - int (unat b) \<longleftrightarrow> b < a" and "- int (unat a) \<noteq> - int (unat b) \<longleftrightarrow> a \<noteq> b"
  by (simp_all add: word_less_def) (metis unsigned_word_eqI)

lemma default_rank:
  assumes "neighbour a = neighbour b"
  shows "DefaultDecision (Some a) b = Greater \<longleftrightarrow> route_rank b < route_rank a"
proof -
  have "is_ibgp (source b) < is_ibgp (source a) \<longleftrightarrow> \<not> is_ibgp (source b)"
    if "is_ibgp (source a) \<noteq> is_ibgp (source b)" using that by auto
  then show ?thesis
    using assms
    unfolding DefaultDecision_def route_rank_def neighbour_def Let_def option.case less_pair neg_unat
    by (simp only: if_distrib [where f = "\<lambda>x. x = Greater"] cmp_Greater reverse_cmp simp_thms Ordering.distinct)
      (simp cong: if_cong)
qed

interpretation default: decision_order DefaultDecision route_rank "\<lambda>r. neighbour r = n" for n
  by unfold_locales (simp add: DefaultDecision_def, simp add: default_rank)

section \<open>Refinement of the abstract RIB\<close>

text \<open>The contract: per prefix, the latest route of every source that has not withdrawn it.\<close>

datatype RibOp = OpInsert Route | OpWithdraw Prefix bytes

type_synonym rib_spec = "Prefix \<Rightarrow> RouteSource \<Rightarrow> Route option"

fun spec_step :: "rib_spec \<Rightarrow> RibOp \<Rightarrow> rib_spec" where
  "spec_step S (OpInsert r) = S(rt_prefix r := (S (rt_prefix r))(source r \<mapsto> r))"
| "spec_step S (OpWithdraw p who) = S(p := (\<lambda>s. if peer s = who then None else S p s))"

fun rib_step :: "Rib \<Rightarrow> RibOp \<Rightarrow> Rib" where
  "rib_step rib (OpInsert r) = rib_insert r rib"
| "rib_step rib (OpWithdraw p who) = snd (rib_withdraw p who rib)"

definition rib_run :: "decision \<Rightarrow> RibOp list \<Rightarrow> Rib" where
  "rib_run d ops = foldl rib_step (Rib_new d) ops"

definition spec_run :: "RibOp list \<Rightarrow> rib_spec" where
  "spec_run ops = foldl spec_step (\<lambda>_. Map.empty) ops"

definition by_source :: "Route list \<Rightarrow> RouteSource \<Rightarrow> Route option" where
  "by_source rs = map_of (map (\<lambda>r. (source r, r)) rs)"

definition entry_rel :: "Prefix \<Rightarrow> Route list option \<Rightarrow> (RouteSource \<Rightarrow> Route option) \<Rightarrow> bool" where
  "entry_rel p e m \<longleftrightarrow>
     (case e of
        None \<Rightarrow> m = Map.empty
      | Some rs \<Rightarrow> rs \<noteq> [] \<and> distinct (map source rs) \<and> list_all (\<lambda>r. rt_prefix r = p) rs \<and> m = by_source rs)"

definition rib_rel :: "decision \<Rightarrow> Rib \<Rightarrow> rib_spec \<Rightarrow> bool" where
  "rib_rel d rib S \<longleftrightarrow> rib_decision rib = d \<and> (\<forall>p. entry_rel p (adj rib p) (S p)) \<and>
     (\<forall>p. loc rib p = (case adj rib p of None \<Rightarrow> None | Some rs \<Rightarrow> select_best d rs))"

lemma source_eq: "peer a = peer b \<and> is_ibgp a = is_ibgp b \<longleftrightarrow> a = (b :: RouteSource)"
  by auto

lemma sources_replace: "set (map source (replace_or_push r rs)) = insert (source r) (set (map source rs))"
  by (induction rs) (auto simp: source_eq)

lemma distinct_replace: "distinct (map source rs) \<Longrightarrow> distinct (map source (replace_or_push r rs))"
proof (induction rs)
  case (Cons x rs)
  then show ?case using sources_replace [of r rs] by (auto simp: source_eq)
qed simp

lemma by_source_replace: "distinct (map source rs) \<Longrightarrow> by_source (replace_or_push r rs) = (by_source rs)(source r \<mapsto> r)"
proof (induction rs)
  case (Cons x rs)
  then show ?case by (auto simp: by_source_def source_eq fun_eq_iff)
qed (simp add: by_source_def)

lemma by_source_filter:
  "distinct (map source rs) \<Longrightarrow>
     by_source (filter (\<lambda>r. peer (source r) \<noteq> who) rs) = (\<lambda>s. if peer s = who then None else by_source rs s)"
proof (induction rs)
  case (Cons x rs)
  have "map_of (map (\<lambda>r. (source r, r)) (filter (\<lambda>r. peer (source r) \<noteq> who) rs)) (source x) = None"
    using Cons.prems by (auto simp: map_of_eq_None_iff)
  with Cons show ?case by (auto simp: by_source_def fun_eq_iff)
qed (auto simp: by_source_def)

lemma ran_by_source: "distinct (map source rs) \<Longrightarrow> ran (by_source rs) = set rs"
  unfolding by_source_def by (subst ran_distinct) (auto simp: comp_def image_iff)

lemma replace_nonempty [simp]: "replace_or_push r rs \<noteq> []"
  by (cases rs) simp_all

lemma prefixes_replace: "list_all (\<lambda>x. rt_prefix x = p) rs \<Longrightarrow> rt_prefix r = p \<Longrightarrow> list_all (\<lambda>x. rt_prefix x = p) (replace_or_push r rs)"
  by (induction rs) simp_all

lemma rib_rel_insert:
  assumes "rib_rel d rib S"
  shows "rib_rel d (rib_insert r rib) (spec_step S (OpInsert r))"
proof -
  let ?p = "rt_prefix r" and ?e = "replace_or_push r (unwrap_or (adj rib (rt_prefix r)) [])"
  have "entry_rel ?p (Some ?e) ((S ?p)(source r \<mapsto> r))"
    using assms
    by (auto simp: rib_rel_def entry_rel_def unwrap_or_def distinct_replace by_source_replace prefixes_replace
        dest!: spec [of _ ?p] split: option.splits) (simp_all add: by_source_def)
  then show ?thesis
    using assms by (simp add: rib_rel_def rib_insert_def recompute_def Let_def)
qed

lemma rib_rel_withdraw:
  assumes "rib_rel d rib S"
  shows "rib_rel d (snd (rib_withdraw p who rib)) (spec_step S (OpWithdraw p who))"
proof (cases "adj rib p")
  case None
  then have "S p = Map.empty" using assms by (auto simp: rib_rel_def entry_rel_def dest!: spec [of _ p])
  then show ?thesis
    using assms None by (auto simp: rib_rel_def rib_withdraw_def recompute_def Let_def entry_rel_def fun_eq_iff)
next
  case (Some rs)
  let ?k = "filter (\<lambda>r. peer (source r) \<noteq> who) rs"
  have rs: "distinct (map source rs)" "list_all (\<lambda>r. rt_prefix r = p) rs" "S p = by_source rs"
    using assms Some by (auto simp: rib_rel_def entry_rel_def dest!: spec [of _ p])
  have "entry_rel p (if ?k = [] then None else Some ?k) (\<lambda>s. if peer s = who then None else S p s)"
    unfolding rs(3) by_source_filter [OF rs(1), symmetric]
    using rs(1, 2) by (auto simp: entry_rel_def distinct_map inj_on_def list_all_iff) (simp add: by_source_def)
  then show ?thesis
    using assms Some by (simp add: rib_rel_def rib_withdraw_def recompute_def Let_def split: if_splits)
qed

lemma rib_rel_step: "rib_rel d rib S \<Longrightarrow> rib_rel d (rib_step rib x) (spec_step S x)"
  by (cases x) (simp_all only: rib_step.simps rib_rel_insert rib_rel_withdraw)

lemma rib_rel_run: "rib_rel d (rib_run d ops) (spec_run ops)"
proof (induction ops rule: rev_induct)
  case Nil
  then show ?case by (simp add: rib_run_def spec_run_def Rib_new_def rib_rel_def entry_rel_def)
next
  case (snoc x ops)
  then show ?case by (simp add: rib_run_def spec_run_def rib_rel_step)
qed

lemma rib_entry:
  "rib_best p (rib_run d ops) = None \<and> spec_run ops p = Map.empty \<or>
   (\<exists>rs. rs \<noteq> [] \<and> set rs = ran (spec_run ops p) \<and> rib_best p (rib_run d ops) = select_best d rs)"
proof -
  have "entry_rel p (adj (rib_run d ops) p) (spec_run ops p)"
      "rib_best p (rib_run d ops) = (case adj (rib_run d ops) p of None \<Rightarrow> None | Some rs \<Rightarrow> select_best d rs)"
    using rib_rel_run [of d ops] by (auto simp: rib_rel_def rib_best_def)
  then show ?thesis
    by (cases "adj (rib_run d ops) p") (auto simp: entry_rel_def ran_by_source)
qed

lemma select_best_member:
  assumes "rs \<noteq> []"
  shows "\<exists>b. select_best DefaultDecision rs = Some b \<and> b \<in> set rs"
proof -
  have "\<exists>b. foldl (\<lambda>best r. if d best r = Greater then Some r else best) (Some a) qs = Some b \<and> b \<in> insert a (set qs)"
    for d :: decision and a qs
    by (induction qs arbitrary: a) auto
  then show ?thesis
    using assms by (cases rs) (auto simp: select_best_def default.decide_none)
qed

text \<open>
  C7: After any sequence of insertions and withdrawals the Loc-RIB refines the abstract RIB: a prefix
  has a best route exactly when some source holds an unwithdrawn route for it, the best route is
  such a route, namely the latest of its source, and when these routes come from one
  neighbouring AS no other of them ranks before it by local preference, path length,
  origin, MED, session type and peer identifier.
\<close>

theorem rib_best_optimal:
  "(rib_best p (rib_run DefaultDecision ops) = None \<longleftrightarrow> spec_run ops p = Map.empty) \<and>
   (\<forall>b. rib_best p (rib_run DefaultDecision ops) = Some b \<longrightarrow>
      b \<in> ran (spec_run ops p) \<and>
      ((\<forall>r \<in> ran (spec_run ops p). neighbour r = n) \<longrightarrow> (\<forall>r \<in> ran (spec_run ops p). route_rank b \<le> route_rank r)))"
proof (cases "spec_run ops p = Map.empty")
  case True
  then show ?thesis using rib_entry [of p DefaultDecision ops] by auto
next
  case False
  then obtain rs where rs: "rs \<noteq> []" "set rs = ran (spec_run ops p)"
      "rib_best p (rib_run DefaultDecision ops) = select_best DefaultDecision rs"
    using rib_entry [of p DefaultDecision ops] by auto
  have "\<exists>b. select_best DefaultDecision rs = Some b \<and> b \<in> set rs"
    using select_best_member [OF rs(1)] .
  then show ?thesis
    using False rs default.select_optimal [of n rs] by (auto simp: list_all_iff split: option.splits)
qed

definition sample_route :: "u8 \<Rightarrow> u32 \<Rightarrow> u32 \<Rightarrow> Route" where
  "sample_route k asn m =
     (Route_new (V4 \<lparr>p4_addr = [10, 0, 0, 0], p4_len = 8\<rparr>) \<lparr>peer = [0, 0, 0, k], is_ibgp = False\<rparr>)
       \<lparr>as_path := \<lparr>segments = [\<lparr>segment_type = SegSequence, seg_asns = [Asn asn]\<rparr>]\<rparr>, med := Some m\<rparr>"

theorem rib_best_optimal_witness:
  "(let p = V4 \<lparr>p4_addr = [10, 0, 0, 0], p4_len = 8\<rparr>;
        ops = [OpInsert (sample_route 1 7 10), OpInsert (sample_route 2 7 5)]
    in \<exists>b. rib_best p (rib_run DefaultDecision ops) = Some b \<and> route_rank b \<le> route_rank (sample_route 2 7 5))"
proof -
  let ?p = "V4 \<lparr>p4_addr = [10, 0, 0, 0], p4_len = 8\<rparr>"
  let ?ops = "[OpInsert (sample_route 1 7 10), OpInsert (sample_route 2 7 5)]"
  have spec: "spec_run ?ops ?p =
      [source (sample_route 1 7 10) \<mapsto> sample_route 1 7 10, source (sample_route 2 7 5) \<mapsto> sample_route 2 7 5]"
    by (simp add: spec_run_def sample_route_def Route_new_def)
  have "ran (spec_run ?ops ?p) = {sample_route 1 7 10, sample_route 2 7 5}"
    unfolding spec by (simp add: sample_route_def Route_new_def insert_commute)
  moreover have "neighbour (sample_route k 7 m) = Some (Asn 7)" for k m
    by (simp add: neighbour_def first_asn_def sample_route_def)
  ultimately show ?thesis
    using rib_best_optimal [of ?p ?ops "Some (Asn 7)"] by (auto simp: spec)
qed

section \<open>MED and the order of arrival\<close>

text \<open>
  Across neighbours the pairwise comparison is not transitive, and the selected route depends on
  the order in which the routes stand in the Adj-RIB-In. Three routes that agree up to the
  origin and the session type, two of them from one AS and the third from another AS, with
  peer identifiers in between, are selected in turn by the three rotations.
\<close>

theorem med_order_dependent:
  assumes "unwrap_or (local_pref a) 0 = unwrap_or (local_pref b) 0" "unwrap_or (local_pref c) 0 = unwrap_or (local_pref b) 0"
    and "path_length (as_path a) = path_length (as_path b)" "path_length (as_path c) = path_length (as_path b)"
    and "origin a = origin b" "origin c = origin b"
    and "is_ibgp (source a) = is_ibgp (source b)" "is_ibgp (source c) = is_ibgp (source b)"
    and "neighbour a = neighbour c" "neighbour a \<noteq> neighbour b"
    and "unwrap_or (med c) 0 < unwrap_or (med a) 0"
    and "peer (source a) < peer (source b)" "peer (source b) < peer (source c)"
  shows "select_best DefaultDecision [a, b, c] = Some c \<and> select_best DefaultDecision [b, c, a] = Some a \<and>
    select_best DefaultDecision [c, a, b] = Some b"
proof -
  have ab: "DefaultDecision (Some a) b \<noteq> Greater" and ba: "DefaultDecision (Some b) a = Greater"
    and bc: "DefaultDecision (Some b) c \<noteq> Greater" and cb: "DefaultDecision (Some c) b = Greater"
    and ac: "DefaultDecision (Some a) c = Greater" and ca: "DefaultDecision (Some c) a \<noteq> Greater"
    using assms by (auto simp: DefaultDecision_def neighbour_def Let_def)
  then show ?thesis by (simp add: select_best_def default.decide_none)
qed

theorem med_order_dependent_witness:
  "select_best DefaultDecision [sample_route 1 7 10, sample_route 2 8 0, sample_route 3 7 5] = Some (sample_route 3 7 5) \<and>
   select_best DefaultDecision [sample_route 2 8 0, sample_route 3 7 5, sample_route 1 7 10] = Some (sample_route 1 7 10)"
  using med_order_dependent [of "sample_route 1 7 10" "sample_route 2 8 0" "sample_route 3 7 5"]
  by (simp add: sample_route_def Route_new_def unwrap_or_def path_length_def neighbour_def first_asn_def)

end
