(* ===== verification/Ospf_Lsa.thy ===== *)
theory Ospf_Lsa
  imports Prelude
begin

unbundle bit_operations_syntax

text \<open>
  Link-state advertisements of \<^verbatim>\<open>tpt-ospf/src/lsa.rs\<close>: the header with its two framings, Router and
  Network LSAs and the opaque rest, encoded and decoded by position. Index ranges the decoders
  check beforehand are modelled by \<open>take\<close>, \<open>drop\<close> and \<open>nth\<close> on the checked slice.
\<close>

text \<open>The decoding errors of \<^verbatim>\<open>error.rs\<close> and the version type of \<^verbatim>\<open>wire.rs\<close>.\<close>

datatype DecodeError =
    TruncatedHeader nat nat
  | UnsupportedVersion u8
  | UnknownPacketType u8
  | LengthMismatch nat nat
  | TruncatedBody
  | FieldRead nat nat nat
  | UnknownLsaType u8
  | TruncatedRouterLink

datatype OspfVersion = V2 | V3

abbreviation LSA_HEADER_LEN :: nat where "LSA_HEADER_LEN \<equiv> 20"
abbreviation MAX_SEQUENCE :: u32 where "MAX_SEQUENCE \<equiv> 0x7FFFFFFF"
abbreviation INITIAL_SEQUENCE :: u32 where "INITIAL_SEQUENCE \<equiv> 0x80000001"
abbreviation MAX_AGE :: u16 where "MAX_AGE \<equiv> 0xFFFF"

type_synonym Ip4 = bytes

record LsaKey =
  k_type :: u16
  k_link_state_id :: Ip4
  k_advertising_router :: Ip4

record LsaHeader =
  lh_version :: OspfVersion
  age :: u16
  lh_options :: u8
  lsa_type :: u16
  link_state_id :: Ip4
  advertising_router :: Ip4
  sequence_number :: u32
  checksum :: u16
  lh_length :: u16

definition LsaHeader_new :: "OspfVersion \<Rightarrow> Ip4 \<Rightarrow> u8 \<Rightarrow> u16 \<Rightarrow> LsaHeader" where
  "LsaHeader_new v adv opts t =
     \<lparr>lh_version = v, age = 0, lh_options = opts, lsa_type = t, link_state_id = [0, 0, 0, 0], advertising_router = adv,
      sequence_number = INITIAL_SEQUENCE, checksum = 0, lh_length = 0\<rparr>"

definition LsaHeader_router :: "Ip4 \<Rightarrow> u8 \<Rightarrow> LsaHeader" where
  "LsaHeader_router adv opts = LsaHeader_new V2 adv opts 1"

definition LsaHeader_network :: "Ip4 \<Rightarrow> u8 \<Rightarrow> LsaHeader" where
  "LsaHeader_network adv opts = LsaHeader_new V2 adv opts 2"

definition LsaHeader_key :: "LsaHeader \<Rightarrow> LsaKey" where
  "LsaHeader_key h = \<lparr>k_type = lsa_type h, k_link_state_id = link_state_id h, k_advertising_router = advertising_router h\<rparr>"

definition is_router :: "LsaHeader \<Rightarrow> bool" where
  "is_router h = (case lh_version h of V2 \<Rightarrow> lsa_type h = 1 | V3 \<Rightarrow> lsa_type h = 0x2001)"

definition is_network :: "LsaHeader \<Rightarrow> bool" where
  "is_network h = (case lh_version h of V2 \<Rightarrow> lsa_type h = 2 | V3 \<Rightarrow> lsa_type h = 0x2002)"

definition LsaHeader_encode :: "LsaHeader \<Rightarrow> bytes" where
  "LsaHeader_encode h =
     be16 (age h)
     @ (case lh_version h of
          V2 \<Rightarrow> [lh_options h, ucast (lsa_type h)]
        | V3 \<Rightarrow> be16 (lsa_type h) @ [lh_options h])
     @ link_state_id h @ advertising_router h @ be32 (sequence_number h) @ be16 (checksum h) @ be16 (lh_length h)"

definition LsaHeader_decode :: "OspfVersion \<Rightarrow> bytes \<Rightarrow> DecodeError + LsaHeader" where
  "LsaHeader_decode v data =
     (if length data < LSA_HEADER_LEN then Inl (FieldRead LSA_HEADER_LEN 0 (length data))
      else
        let (opts, t) = (case v of
            V2 \<Rightarrow> (data ! 2, ucast (data ! 3))
          | V3 \<Rightarrow> (data ! 4, from_be [data ! 2, data ! 3]))
        in Inr \<lparr>lh_version = v, age = from_be [data ! 0, data ! 1], lh_options = opts, lsa_type = t,
                link_state_id = take 4 (drop 4 data), advertising_router = take 4 (drop 8 data),
                sequence_number = from_be (take 4 (drop 12 data)), checksum = from_be (take 2 (drop 16 data)),
                lh_length = from_be (take 2 (drop 18 data))\<rparr>)"

definition encode_with_body :: "LsaHeader \<Rightarrow> bytes \<Rightarrow> bytes" where
  "encode_with_body h body = LsaHeader_encode (h\<lparr>lh_length := word_of_nat (LSA_HEADER_LEN + length body)\<rparr>) @ body"

section \<open>Router LSAs\<close>

record RouterLink =
  link_type :: u8
  link_id :: Ip4
  link_data :: Ip4
  metric :: u16

definition point_to_point :: "Ip4 \<Rightarrow> Ip4 \<Rightarrow> u16 \<Rightarrow> RouterLink" where
  "point_to_point neighbor local_ip m = \<lparr>link_type = 1, link_id = neighbor, link_data = local_ip, metric = m\<rparr>"

definition stub :: "Ip4 \<Rightarrow> Ip4 \<Rightarrow> u16 \<Rightarrow> RouterLink" where
  "stub network msk m = \<lparr>link_type = 3, link_id = network, link_data = msk, metric = m\<rparr>"

definition RouterLink_encode :: "RouterLink \<Rightarrow> bytes" where
  "RouterLink_encode l = link_id l @ link_data l @ [link_type l, 0] @ be16 (metric l)"

definition RouterLink_decode :: "bytes \<Rightarrow> DecodeError + RouterLink" where
  "RouterLink_decode data =
     (if length data < 12 then Inl TruncatedRouterLink
      else Inr \<lparr>link_type = data ! 8, link_id = take 4 data, link_data = take 4 (drop 4 data),
                metric = from_be [data ! 10, data ! 11]\<rparr>)"

record RouterLsa =
  rl_header :: LsaHeader
  rl_v :: bool
  rl_e :: bool
  rl_b :: bool
  links :: "RouterLink list"

definition RouterLsa_flags :: "RouterLsa \<Rightarrow> u8" where
  "RouterLsa_flags r = (if rl_v r then 1 else 0) OR (if rl_e r then 2 else 0) OR (if rl_b r then 4 else 0)"

definition RouterLsa_encode :: "RouterLsa \<Rightarrow> bytes" where
  "RouterLsa_encode r =
     encode_with_body (rl_header r)
       ([RouterLsa_flags r, word_of_nat (length (links r))] @ concat (map RouterLink_encode (links r)))"

primrec decode_links :: "nat \<Rightarrow> nat \<Rightarrow> bytes \<Rightarrow> DecodeError + RouterLink list" where
  "decode_links 0 off body = Inr []"
| "decode_links (Suc n) off body =
     (if off + 12 > length body then Inl TruncatedRouterLink
      else
        res_bind (RouterLink_decode (take 12 (drop off body))) (\<lambda>l.
        res_bind (decode_links n (off + 12) body) (\<lambda>ls. Inr (l # ls))))"

definition RouterLsa_decode :: "OspfVersion \<Rightarrow> bytes \<Rightarrow> DecodeError + RouterLsa" where
  "RouterLsa_decode v data =
     res_bind (LsaHeader_decode v data) (\<lambda>h.
       let body = drop LSA_HEADER_LEN data in
       if length body < 2 then Inl TruncatedBody
       else
         let flags = body ! 0 in
         res_bind (decode_links (unat (body ! 1)) 2 body) (\<lambda>ls.
           Inr \<lparr>rl_header = h, rl_v = (flags AND 1 \<noteq> 0), rl_e = (flags AND 2 \<noteq> 0), rl_b = (flags AND 4 \<noteq> 0),
                links = ls\<rparr>))"

section \<open>Network and other LSAs\<close>

record NetworkLsa =
  nl_header :: LsaHeader
  nl_network_mask :: Ip4
  attached_routers :: "Ip4 list"

definition NetworkLsa_encode :: "NetworkLsa \<Rightarrow> bytes" where
  "NetworkLsa_encode n = encode_with_body (nl_header n) (nl_network_mask n @ concat (attached_routers n))"

text \<open>\<open>while off + 4 <= body.len()\<close>\<close>

fun decode_routers :: "bytes \<Rightarrow> Ip4 list" where
  "decode_routers (a # b # c # d # rest) = [a, b, c, d] # decode_routers rest"
| "decode_routers _ = []"

definition NetworkLsa_decode :: "OspfVersion \<Rightarrow> bytes \<Rightarrow> DecodeError + NetworkLsa" where
  "NetworkLsa_decode v data =
     res_bind (LsaHeader_decode v data) (\<lambda>h.
       let body = drop LSA_HEADER_LEN data in
       if length body < 4 then Inl TruncatedBody
       else Inr \<lparr>nl_header = h, nl_network_mask = take 4 body, attached_routers = decode_routers (drop 4 body)\<rparr>)"

record RawLsa =
  raw_header :: LsaHeader
  raw_body :: bytes

definition RawLsa_encode :: "RawLsa \<Rightarrow> bytes" where
  "RawLsa_encode r = encode_with_body (raw_header r) (raw_body r)"

definition RawLsa_decode :: "OspfVersion \<Rightarrow> bytes \<Rightarrow> DecodeError + RawLsa" where
  "RawLsa_decode v data =
     res_bind (LsaHeader_decode v data) (\<lambda>h. Inr \<lparr>raw_header = h, raw_body = drop LSA_HEADER_LEN data\<rparr>)"

datatype Lsa = LRouter RouterLsa | LNetwork NetworkLsa | LRaw RawLsa

fun Lsa_header :: "Lsa \<Rightarrow> LsaHeader" where
  "Lsa_header (LRouter r) = rl_header r"
| "Lsa_header (LNetwork n) = nl_header n"
| "Lsa_header (LRaw r) = raw_header r"

definition Lsa_key :: "Lsa \<Rightarrow> LsaKey" where
  "Lsa_key l = LsaHeader_key (Lsa_header l)"

fun Lsa_encode :: "Lsa \<Rightarrow> bytes" where
  "Lsa_encode (LRouter r) = RouterLsa_encode r"
| "Lsa_encode (LNetwork n) = NetworkLsa_encode n"
| "Lsa_encode (LRaw r) = RawLsa_encode r"

definition Lsa_decode :: "OspfVersion \<Rightarrow> bytes \<Rightarrow> DecodeError + Lsa" where
  "Lsa_decode v data =
     res_bind (LsaHeader_decode v data) (\<lambda>hdr.
       let router = (case v of V2 \<Rightarrow> 1 | V3 \<Rightarrow> 0x2001); network = (case v of V2 \<Rightarrow> 2 | V3 \<Rightarrow> 0x2002) in
       if lsa_type hdr = router then res_bind (RouterLsa_decode v data) (\<lambda>r. Inr (LRouter r))
       else if lsa_type hdr = network then res_bind (NetworkLsa_decode v data) (\<lambda>n. Inr (LNetwork n))
       else res_bind (RawLsa_decode v data) (\<lambda>r. Inr (LRaw r)))"

section \<open>Round trips for version 2\<close>

definition header_wf :: "LsaHeader \<Rightarrow> bool" where
  "header_wf h \<longleftrightarrow> lh_version h = V2 \<and> unat (lsa_type h) < 256 \<and> arr 4 (link_state_id h) \<and> arr 4 (advertising_router h)"

lemma length_header_v2: "header_wf h \<Longrightarrow> length (LsaHeader_encode h) = 20"
  by (simp add: header_wf_def LsaHeader_encode_def)

lemma be_two: "[be16 v ! 0, be16 v ! Suc 0] = be16 v"
  by (simp add: list_eq_iff_nth_eq less_Suc_eq numeral_eq_Suc)

lemma header_round_trip:
  assumes "header_wf h"
  shows "LsaHeader_decode V2 (LsaHeader_encode h @ rest) = Inr h"
proof -
  have t: "ucast (ucast (lsa_type h) :: u8) = lsa_type h"
    using assms by (auto intro!: unsigned_word_eqI simp: header_wf_def unsigned_ucast_eq take_bit_small)
  have "LsaHeader_encode h = be16 (age h) @ [lh_options h, ucast (lsa_type h)] @ link_state_id h @ advertising_router h
      @ be32 (sequence_number h) @ be16 (checksum h) @ be16 (lh_length h)"
    using assms by (simp add: LsaHeader_encode_def header_wf_def)
  then show ?thesis
    using assms t be_two [of "age h"]
    by (cases h) (simp add: LsaHeader_decode_def header_wf_def nth_append)
qed

text \<open>An LSA whose length field is the one the encoder writes.\<close>

definition body_wf :: "LsaHeader \<Rightarrow> bytes \<Rightarrow> bool" where
  "body_wf h body \<longleftrightarrow> header_wf h \<and> LSA_HEADER_LEN + length body < 65536 \<and>
     lh_length h = word_of_nat (LSA_HEADER_LEN + length body)"

definition router_body :: "RouterLsa \<Rightarrow> bytes" where
  "router_body r = [RouterLsa_flags r, word_of_nat (length (links r))] @ concat (map RouterLink_encode (links r))"

definition network_body :: "NetworkLsa \<Rightarrow> bytes" where
  "network_body n = nl_network_mask n @ concat (attached_routers n)"

fun lsa_wf :: "Lsa \<Rightarrow> bool" where
  "lsa_wf (LRouter r) \<longleftrightarrow> body_wf (rl_header r) (router_body r) \<and> lsa_type (rl_header r) = 1 \<and> length (links r) < 256 \<and>
     list_all (\<lambda>l. arr 4 (link_id l) \<and> arr 4 (link_data l)) (links r)"
| "lsa_wf (LNetwork n) \<longleftrightarrow> body_wf (nl_header n) (network_body n) \<and> lsa_type (nl_header n) = 2 \<and>
     arr 4 (nl_network_mask n) \<and> list_all (arr 4) (attached_routers n)"
| "lsa_wf (LRaw r) \<longleftrightarrow> body_wf (raw_header r) (raw_body r) \<and> lsa_type (raw_header r) \<noteq> 1 \<and> lsa_type (raw_header r) \<noteq> 2"

lemma encode_with_body_wf:
  assumes "body_wf h body"
  shows "encode_with_body h body = LsaHeader_encode h @ body"
    and "LsaHeader_decode V2 (encode_with_body h body @ rest) = Inr h"
    and "drop LSA_HEADER_LEN (encode_with_body h body) = body"
    and "length (encode_with_body h body) = unat (lh_length h)"
proof -
  have "h\<lparr>lh_length := word_of_nat (LSA_HEADER_LEN + length body)\<rparr> = h"
    using assms by (simp add: body_wf_def)
  then show e: "encode_with_body h body = LsaHeader_encode h @ body" by (simp only: encode_with_body_def)
  have h: "header_wf h" using assms by (simp add: body_wf_def)
  show "LsaHeader_decode V2 (encode_with_body h body @ rest) = Inr h"
    using header_round_trip [OF h, of "body @ rest"] by (simp add: e)
  show "drop LSA_HEADER_LEN (encode_with_body h body) = body"
    using length_header_v2 [OF h] by (simp add: e)
  have "unat (lh_length h) = LSA_HEADER_LEN + length body"
    using assms unat_of_nat_small [where 'a = 16, of "LSA_HEADER_LEN + length body"] by (simp add: body_wf_def del: of_nat_add)
  then show "length (encode_with_body h body) = unat (lh_length h)"
    using length_header_v2 [OF h] by (simp add: e)
qed

lemma link_round_trip:
  assumes "arr 4 (link_id l)" and "arr 4 (link_data l)"
  shows "RouterLink_decode (RouterLink_encode l) = Inr l" and "length (RouterLink_encode l) = 12"
  using assms be_two [of "metric l"]
  by (cases l; simp add: RouterLink_decode_def RouterLink_encode_def nth_append)+

lemma links_round_trip:
  "list_all (\<lambda>l. arr 4 (link_id l) \<and> arr 4 (link_data l)) ls \<Longrightarrow>
     decode_links (length ls) (length pre) (pre @ concat (map RouterLink_encode ls)) = Inr ls"
proof (induction ls arbitrary: pre)
  case (Cons l ls)
  have l: "length (RouterLink_encode l) = 12" "RouterLink_decode (RouterLink_encode l) = Inr l"
    using Cons.prems link_round_trip by simp_all
  from Cons.IH [of "pre @ RouterLink_encode l"] Cons.prems l show ?case by (simp add: add.commute)
qed simp

lemma routers_round_trip: "list_all (arr 4) rs \<Longrightarrow> decode_routers (concat rs) = rs"
proof (induction rs)
  case (Cons r rs)
  then obtain a b c d where "r = [a, b, c, d]" by (auto simp: length_Suc_conv numeral_eq_Suc)
  with Cons show ?case by simp
qed simp

lemma flags_round_trip:
  "(RouterLsa_flags r AND 1 \<noteq> 0) = rl_v r" "(RouterLsa_flags r AND 2 \<noteq> 0) = rl_e r" "(RouterLsa_flags r AND 4 \<noteq> 0) = rl_b r"
  by (cases "rl_v r"; cases "rl_e r"; cases "rl_b r"; simp add: RouterLsa_flags_def)+

lemma lsa_round_trip:
  assumes "lsa_wf l"
  shows "Lsa_decode V2 (Lsa_encode l) = Inr l"
proof (cases l)
  case (LRouter r)
  let ?b = "router_body r"
  have b: "body_wf (rl_header r) ?b" and t: "lsa_type (rl_header r) = 1" and n: "length (links r) < 2 ^ LENGTH(8)"
    and ls: "list_all (\<lambda>l. arr 4 (link_id l) \<and> arr 4 (link_data l)) (links r)"
    using assms LRouter by simp_all
  note e = encode_with_body_wf [OF b]
  have enc: "RouterLsa_encode r = encode_with_body (rl_header r) ?b" by (simp add: RouterLsa_encode_def router_body_def)
  have lks: "decode_links (unat (?b ! 1)) 2 ?b = Inr (links r)"
    using links_round_trip [OF ls, of "[RouterLsa_flags r, word_of_nat (length (links r))]"] unat_of_nat_small [OF n]
    by (simp add: router_body_def numeral_2_eq_2)
  have "RouterLsa_decode V2 (RouterLsa_encode r) = Inr r"
    using e(2) [of "[]"] e(3) lks
    by (simp add: RouterLsa_decode_def enc Let_def) (simp add: router_body_def flags_round_trip)
  then show ?thesis
    using e(2) [of "[]"] t by (simp add: LRouter Lsa_decode_def enc)
next
  case (LNetwork n)
  have b: "body_wf (nl_header n) (network_body n)" and t: "lsa_type (nl_header n) = 2"
    and m: "arr 4 (nl_network_mask n)" and rs: "list_all (arr 4) (attached_routers n)"
    using assms LNetwork by simp_all
  note e = encode_with_body_wf [OF b]
  have enc: "NetworkLsa_encode n = encode_with_body (nl_header n) (network_body n)"
    by (simp add: NetworkLsa_encode_def network_body_def)
  have "NetworkLsa_decode V2 (NetworkLsa_encode n) = Inr n"
    using e(2) [of "[]"] e(3) m routers_round_trip [OF rs]
    by (simp add: NetworkLsa_decode_def enc Let_def) (simp add: network_body_def)
  then show ?thesis
    using e(2) [of "[]"] t by (simp add: LNetwork Lsa_decode_def enc)
next
  case (LRaw r)
  then show ?thesis
    using assms encode_with_body_wf [of "raw_header r" "raw_body r"] encode_with_body_wf(2) [of "raw_header r" "raw_body r" "[]"]
    by (simp add: Lsa_decode_def RawLsa_decode_def RawLsa_encode_def)
qed

lemma lsa_encode_header:
  assumes "lsa_wf l"
  shows "LsaHeader_decode V2 (Lsa_encode l @ rest) = Inr (Lsa_header l)"
    and "length (Lsa_encode l) = unat (lh_length (Lsa_header l))" and "LSA_HEADER_LEN \<le> length (Lsa_encode l)"
proof -
  obtain b where b: "body_wf (Lsa_header l) b" "Lsa_encode l = encode_with_body (Lsa_header l) b"
    using assms by (cases l) (auto simp: RouterLsa_encode_def router_body_def NetworkLsa_encode_def network_body_def RawLsa_encode_def)
  show "LsaHeader_decode V2 (Lsa_encode l @ rest) = Inr (Lsa_header l)"
    "length (Lsa_encode l) = unat (lh_length (Lsa_header l))"
    using encode_with_body_wf(2, 4) [OF b(1)] b(2) by simp_all
  have "length (LsaHeader_encode (Lsa_header l)) = 20"
    using b(1) by (intro length_header_v2) (simp add: body_wf_def)
  then show "LSA_HEADER_LEN \<le> length (Lsa_encode l)"
    using encode_with_body_wf(1) [OF b(1)] b(2) by simp
qed

end
