(* ===== verification/Ospf_Wire.thy ===== *)
theory Ospf_Wire
  imports Ospf_Lsa
begin

unbundle bit_operations_syntax

text \<open>
  The OSPF packets of \<^verbatim>\<open>tpt-ospf/src/wire.rs\<close>: header, the five packet bodies in both framings, the
  Internet checksum and the reader. \<open>limit\<close> is the largest number of LSAs for which
  \<open>Vec::with_capacity\<close> succeeds; beyond it the allocation aborts the program, \<open>Panic\<close>.
\<close>

definition Version_from_u8 :: "u8 \<Rightarrow> OspfVersion option" where
  "Version_from_u8 v = (if v = 2 then Some V2 else if v = 3 then Some V3 else None)"

fun Version_to_u8 :: "OspfVersion \<Rightarrow> u8" where
  "Version_to_u8 V2 = 2"
| "Version_to_u8 V3 = 3"

fun header_len :: "OspfVersion \<Rightarrow> nat" where
  "header_len V2 = 24"
| "header_len V3 = 16"

datatype PacketType = Hello | Dbd | Lsr | Lsu | LsAck

definition PacketType_from_u8 :: "u8 \<Rightarrow> PacketType option" where
  "PacketType_from_u8 v =
     (if v = 1 then Some Hello else if v = 2 then Some Dbd else if v = 3 then Some Lsr
      else if v = 4 then Some Lsu else if v = 5 then Some LsAck else None)"

fun PacketType_to_u8 :: "PacketType \<Rightarrow> u8" where
  "PacketType_to_u8 Hello = 1"
| "PacketType_to_u8 Dbd = 2"
| "PacketType_to_u8 Lsr = 3"
| "PacketType_to_u8 Lsu = 4"
| "PacketType_to_u8 LsAck = 5"

record HelloPacket =
  network_mask :: Ip4
  interface_id :: u32
  hello_interval :: u16
  h_options :: u8
  router_priority :: u8
  router_dead_interval :: u32
  designated_router :: Ip4
  backup_designated_router :: Ip4
  neighbors :: "Ip4 list"

record LinkStateRequest =
  lr_type :: u16
  lr_link_state_id :: Ip4
  lr_advertising_router :: Ip4

record DbdPacket =
  interface_mtu :: u16
  d_options :: u8
  d_init :: bool
  d_more :: bool
  d_master :: bool
  dd_sequence :: u32
  d_lsas :: "LsaHeader list"

record LsuPacket = u_lsas :: "Lsa list"

record LsAckPacket = a_lsas :: "LsaHeader list"

datatype PacketBody =
    BHello HelloPacket
  | BDbd DbdPacket
  | BLsr "LinkStateRequest list"
  | BLsu LsuPacket
  | BLsAck LsAckPacket

record OspfPacket =
  op_version :: OspfVersion
  packet_type :: PacketType
  router_id :: Ip4
  area_id :: Ip4
  auth_type :: u16
  auth :: bytes
  instance_id :: u8
  body :: PacketBody

section \<open>The Internet checksum\<close>

fun word_sum :: "u32 \<Rightarrow> bytes \<Rightarrow> u32" where
  "word_sum s (a # b # rest) = word_sum (s + ucast (from_be [a, b] :: u16)) rest"
| "word_sum s [a] = s + ucast (from_be [a, 0] :: u16)"
| "word_sum s [] = s"

lemma low_high: "unat (s AND 0xFFFF :: u32) = unat s mod 65536" "unat (drop_bit 16 s :: u32) = unat s div 65536"
proof -
  have "unat (take_bit 16 s) = unat s mod 65536" by (simp add: unat_take_bit_mod)
  then show "unat (s AND 0xFFFF) = unat s mod 65536" by (simp add: take_bit_eq_mask mask_eq_exp_minus_1)
  show "unat (drop_bit 16 s) = unat s div 65536" by (simp add: drop_bit_eq_div unat_div)
qed

lemma carry_step: "unat ((s AND 0xFFFF) + drop_bit 16 s :: u32) = unat s mod 65536 + unat s div 65536"
proof -
  have "unat s div 65536 < 65536" using unat_bounds(2) [of s] by (simp add: less_mult_imp_div_less)
  then have "unat s mod 65536 + unat s div 65536 < 4294967296"
    using mod_less_divisor [of 65536 "unat s"] by linarith
  then show ?thesis by (simp add: unat_word_ariths low_high)
qed

function fold_carry :: "u32 \<Rightarrow> u32" where
  "fold_carry s = (if drop_bit 16 s \<noteq> 0 then fold_carry ((s AND 0xFFFF) + drop_bit 16 s) else s)"
  by pat_completeness auto

termination
proof (relation "measure unat")
  fix s :: u32
  assume "drop_bit 16 s \<noteq> 0"
  then have "0 < unat s div 65536" using low_high(2) [of s] by (metis gr0I unat_eq_zero)
  moreover have "unat s = unat s div 65536 * 65536 + unat s mod 65536" by simp
  ultimately have "unat s mod 65536 + unat s div 65536 < unat s" by linarith
  then show "((s AND 0xFFFF) + drop_bit 16 s, s) \<in> measure unat" by (simp add: carry_step)
qed simp

declare fold_carry.simps [simp del]

definition internet_checksum :: "bytes \<Rightarrow> u16" where
  "internet_checksum data = NOT (ucast (fold_carry (word_sum 0 data)))"

definition internet_checksum_skip :: "bytes \<Rightarrow> nat \<Rightarrow> nat \<Rightarrow> u16" where
  "internet_checksum_skip data from until = internet_checksum (take from data @ drop until data)"

section \<open>The reader\<close>

record OspfReader =
  or_d :: bytes
  or_off :: nat

type_synonym 'a ospf_parser = "(OspfReader, DecodeError failure, 'a) parser"

definition ospf_new :: "bytes \<Rightarrow> OspfReader" where
  "ospf_new d = \<lparr>or_d = d, or_off = 0\<rparr>"

definition ospf_remaining :: "OspfReader \<Rightarrow> nat" where
  "ospf_remaining r = length (or_d r) - or_off r"

definition ospf_u8 :: "u8 ospf_parser" where
  "ospf_u8 r =
     (if or_off r < length (or_d r) then Inr (or_d r ! or_off r, r\<lparr>or_off := or_off r + 1\<rparr>) else Inl (Err TruncatedBody))"

definition ospf_u16 :: "u16 ospf_parser" where
  "ospf_u16 r =
     (if ospf_remaining r < 2 then Inl (Err TruncatedBody)
      else Inr (from_be (take 2 (drop (or_off r) (or_d r))), r\<lparr>or_off := or_off r + 2\<rparr>))"

definition ospf_u32 :: "u32 ospf_parser" where
  "ospf_u32 r =
     (if ospf_remaining r < 4 then Inl (Err TruncatedBody)
      else Inr (from_be (take 4 (drop (or_off r) (or_d r))), r\<lparr>or_off := or_off r + 4\<rparr>))"

definition ospf_ip :: "Ip4 ospf_parser" where
  "ospf_ip r =
     (if ospf_remaining r < 4 then Inl (Err TruncatedBody)
      else Inr (take 4 (drop (or_off r) (or_d r)), r\<lparr>or_off := or_off r + 4\<rparr>))"

text \<open>\<open>LsaHeader::decode\<close> on the next 20 bytes, whose presence the loops test.\<close>

definition ospf_lsa_header :: "OspfVersion \<Rightarrow> LsaHeader ospf_parser" where
  "ospf_lsa_header v r =
     (case LsaHeader_decode v (take LSA_HEADER_LEN (drop (or_off r) (or_d r))) of
        Inl e \<Rightarrow> Inl (Err e)
      | Inr h \<Rightarrow> Inr (h, r\<lparr>or_off := or_off r + LSA_HEADER_LEN\<rparr>))"

text \<open>\<open>while r.remaining() >= n\<close>.\<close>

abbreviation while_at_least :: "nat \<Rightarrow> 'a ospf_parser \<Rightarrow> 'a list ospf_parser" where
  "while_at_least n \<equiv> while_left (\<lambda>r. ospf_remaining r div n)"

section \<open>Packet bodies\<close>

definition encode_hello :: "OspfVersion \<Rightarrow> HelloPacket \<Rightarrow> bytes" where
  "encode_hello v h =
     (case v of
        V2 \<Rightarrow> network_mask h @ be16 (hello_interval h) @ [h_options h, router_priority h] @ be32 (router_dead_interval h)
              @ designated_router h @ backup_designated_router h @ concat (neighbors h)
      | V3 \<Rightarrow> be32 (interface_id h) @ [router_priority h] @ [h_options h, 0, 0] @ be16 (hello_interval h)
              @ be32 (router_dead_interval h) @ designated_router h @ backup_designated_router h
              @ be32 (word_of_nat (length (neighbors h))) @ concat (neighbors h))"

definition decode_hello :: "OspfVersion \<Rightarrow> HelloPacket ospf_parser" where
  "decode_hello v =
     (case v of
        V2 \<Rightarrow>
          bindp ospf_ip (\<lambda>m. bindp ospf_u16 (\<lambda>hi. bindp ospf_u8 (\<lambda>op. bindp ospf_u8 (\<lambda>pr.
          bindp ospf_u32 (\<lambda>dead. bindp ospf_ip (\<lambda>dr. bindp ospf_ip (\<lambda>bdr.
          bindp (while_at_least 4 ospf_ip) (\<lambda>ns.
            retp \<lparr>network_mask = m, interface_id = 0, hello_interval = hi, h_options = op, router_priority = pr,
                  router_dead_interval = dead, designated_router = dr, backup_designated_router = bdr, neighbors = ns\<rparr>))))))))
      | V3 \<Rightarrow>
          bindp ospf_u32 (\<lambda>i. bindp ospf_u8 (\<lambda>pr. bindp ospf_u8 (\<lambda>op. bindp ospf_u8 (\<lambda>_. bindp ospf_u8 (\<lambda>_.
          bindp ospf_u16 (\<lambda>hi. bindp ospf_u32 (\<lambda>dead. bindp ospf_ip (\<lambda>dr. bindp ospf_ip (\<lambda>bdr.
          bindp ospf_u32 (\<lambda>n. bindp (repeat_p (unat n) ospf_ip) (\<lambda>ns.
            retp \<lparr>network_mask = [0, 0, 0, 0], interface_id = i, hello_interval = hi, h_options = op, router_priority = pr,
                  router_dead_interval = dead, designated_router = dr, backup_designated_router = bdr, neighbors = ns\<rparr>))))))))))))"

definition dbd_flags :: "DbdPacket \<Rightarrow> u8" where
  "dbd_flags d = (if d_init d then 4 else 0) OR (if d_more d then 2 else 0) OR (if d_master d then 1 else 0)"

definition encode_dbd :: "OspfVersion \<Rightarrow> DbdPacket \<Rightarrow> bytes" where
  "encode_dbd v d =
     be16 (interface_mtu d) @ (case v of V2 \<Rightarrow> [d_options d] | V3 \<Rightarrow> [d_options d, 0, 0]) @ [dbd_flags d]
     @ be32 (dd_sequence d) @ concat (map LsaHeader_encode (d_lsas d))"

definition decode_dbd :: "OspfVersion \<Rightarrow> DbdPacket ospf_parser" where
  "decode_dbd v =
     bindp ospf_u16 (\<lambda>mtu.
     bindp (case v of V2 \<Rightarrow> ospf_u8 | V3 \<Rightarrow> bindp ospf_u8 (\<lambda>op. bindp ospf_u8 (\<lambda>_. bindp ospf_u8 (\<lambda>_. retp op)))) (\<lambda>op.
     bindp ospf_u8 (\<lambda>flags.
     bindp ospf_u32 (\<lambda>seq.
     bindp (while_at_least LSA_HEADER_LEN (ospf_lsa_header v)) (\<lambda>hs.
       retp \<lparr>interface_mtu = mtu, d_options = op, d_init = (flags AND 4 \<noteq> 0), d_more = (flags AND 2 \<noteq> 0),
             d_master = (flags AND 1 \<noteq> 0), dd_sequence = seq, d_lsas = hs\<rparr>)))))"

definition encode_request :: "OspfVersion \<Rightarrow> LinkStateRequest \<Rightarrow> bytes" where
  "encode_request v q =
     (case v of V2 \<Rightarrow> be32 (ucast (lr_type q)) | V3 \<Rightarrow> be16 0 @ be16 (lr_type q))
     @ lr_link_state_id q @ lr_advertising_router q"

definition encode_lsr :: "OspfVersion \<Rightarrow> LinkStateRequest list \<Rightarrow> bytes" where
  "encode_lsr v qs = concat (map (encode_request v) qs)"

definition decode_request :: "OspfVersion \<Rightarrow> LinkStateRequest ospf_parser" where
  "decode_request v =
     bindp (case v of V2 \<Rightarrow> bindp ospf_u32 (\<lambda>t. retp (ucast t)) | V3 \<Rightarrow> bindp ospf_u16 (\<lambda>_. ospf_u16)) (\<lambda>t.
     bindp ospf_ip (\<lambda>ls. bindp ospf_ip (\<lambda>adv.
       retp \<lparr>lr_type = t, lr_link_state_id = ls, lr_advertising_router = adv\<rparr>)))"

definition decode_lsr :: "OspfVersion \<Rightarrow> LinkStateRequest list ospf_parser" where
  "decode_lsr v = while_at_least (case v of V2 \<Rightarrow> 12 | V3 \<Rightarrow> 16) (decode_request v)"

definition encode_lsu :: "LsuPacket \<Rightarrow> bytes" where
  "encode_lsu l = be32 (word_of_nat (length (u_lsas l))) @ concat (map Lsa_encode (u_lsas l))"

definition decode_lsu_entry :: "OspfVersion \<Rightarrow> Lsa ospf_parser" where
  "decode_lsu_entry v r =
     (if ospf_remaining r < LSA_HEADER_LEN then Inl (Err TruncatedBody)
      else
        case LsaHeader_decode v (drop (or_off r) (or_d r)) of
          Inl e \<Rightarrow> Inl (Err e)
        | Inr hdr \<Rightarrow>
            let len = unat (lh_length hdr) in
            if len < LSA_HEADER_LEN \<or> or_off r + len > length (or_d r) then Inl (Err TruncatedBody)
            else
              case Lsa_decode v (take len (drop (or_off r) (or_d r))) of
                Inl e \<Rightarrow> Inl (Err e)
              | Inr lsa \<Rightarrow> Inr (lsa, r\<lparr>or_off := or_off r + len\<rparr>))"

definition decode_lsu :: "nat \<Rightarrow> OspfVersion \<Rightarrow> LsuPacket ospf_parser" where
  "decode_lsu limit v =
     bindp ospf_u32 (\<lambda>n.
       if unat n > limit then failp (\<lambda>_. Panic)
       else bindp (repeat_p (unat n) (decode_lsu_entry v)) (\<lambda>ls. retp \<lparr>u_lsas = ls\<rparr>))"

definition encode_lsack :: "LsAckPacket \<Rightarrow> bytes" where
  "encode_lsack a = concat (map LsaHeader_encode (a_lsas a))"

definition decode_lsack :: "OspfVersion \<Rightarrow> LsAckPacket ospf_parser" where
  "decode_lsack v = bindp (while_at_least LSA_HEADER_LEN (ospf_lsa_header v)) (\<lambda>hs. retp \<lparr>a_lsas = hs\<rparr>)"

section \<open>Packets\<close>

fun encode_body :: "OspfVersion \<Rightarrow> PacketBody \<Rightarrow> bytes" where
  "encode_body v (BHello h) = encode_hello v h"
| "encode_body v (BDbd d) = encode_dbd v d"
| "encode_body v (BLsr qs) = encode_lsr v qs"
| "encode_body v (BLsu l) = encode_lsu l"
| "encode_body v (BLsAck a) = encode_lsack a"

fun decode_body :: "nat \<Rightarrow> OspfVersion \<Rightarrow> PacketType \<Rightarrow> PacketBody ospf_parser" where
  "decode_body limit v Hello = bindp (decode_hello v) (\<lambda>h. retp (BHello h))"
| "decode_body limit v Dbd = bindp (decode_dbd v) (\<lambda>d. retp (BDbd d))"
| "decode_body limit v Lsr = bindp (decode_lsr v) (\<lambda>q. retp (BLsr q))"
| "decode_body limit v Lsu = bindp (decode_lsu limit v) (\<lambda>l. retp (BLsu l))"
| "decode_body limit v LsAck = bindp (decode_lsack v) (\<lambda>a. retp (BLsAck a))"

definition packet_buffer :: "OspfPacket \<Rightarrow> bytes" where
  "packet_buffer p =
     (let b = encode_body (op_version p) (body p) in
      [Version_to_u8 (op_version p), PacketType_to_u8 (packet_type p)]
      @ be16 (word_of_nat (header_len (op_version p) + length b)) @ router_id p @ area_id p
      @ (case op_version p of
           V2 \<Rightarrow> be16 0 @ be16 (auth_type p) @ auth p
         | V3 \<Rightarrow> [instance_id p, 0] @ be16 0)
      @ b)"

definition OspfPacket_to_bytes :: "OspfPacket \<Rightarrow> bytes" where
  "OspfPacket_to_bytes p =
     (let buf = packet_buffer p;
          c = (case op_version p of V2 \<Rightarrow> internet_checksum_skip buf 16 24 | V3 \<Rightarrow> internet_checksum buf);
          off = (case op_version p of V2 \<Rightarrow> 12 | V3 \<Rightarrow> 14)
      in take off buf @ be16 c @ drop (off + 2) buf)"

definition OspfPacket_from_bytes :: "nat \<Rightarrow> bytes \<Rightarrow> DecodeError failure + OspfPacket" where
  "OspfPacket_from_bytes limit bs =
     (case bs of
        [] \<Rightarrow> Inl (Err (TruncatedHeader 1 0))
      | b0 # _ \<Rightarrow>
          (case Version_from_u8 b0 of
             None \<Rightarrow> Inl (Err (UnsupportedVersion b0))
           | Some v \<Rightarrow>
               if length bs < header_len v then Inl (Err (TruncatedHeader (header_len v) (length bs)))
               else
                 case PacketType_from_u8 (bs ! 1) of
                   None \<Rightarrow> Inl (Err (UnknownPacketType (bs ! 1)))
                 | Some pt \<Rightarrow>
                     let declared = unat (from_be (take 2 (drop 2 bs)) :: u16) in
                     if declared \<noteq> length bs then Inl (Err (LengthMismatch declared (length bs)))
                     else
                       let (at, au, inst) = (case v of
                           V2 \<Rightarrow> (from_be (take 2 (drop 14 bs)), take 8 (drop 16 bs), 0)
                         | V3 \<Rightarrow> (0, replicate 8 0, bs ! 12))
                       in case decode_body limit v pt (ospf_new (drop (header_len v) bs)) of
                            Inl e \<Rightarrow> Inl e
                          | Inr (bd, _) \<Rightarrow>
                              Inr \<lparr>op_version = v, packet_type = pt, router_id = take 4 (drop 4 bs),
                                   area_id = take 4 (drop 8 bs), auth_type = at, auth = au, instance_id = inst,
                                   body = bd\<rparr>))"

section \<open>The reader interface\<close>

definition ospf_take :: "nat \<Rightarrow> bytes ospf_parser" where
  "ospf_take n r =
     (if ospf_remaining r < n then Inl (Err TruncatedBody)
      else Inr (take n (drop (or_off r) (or_d r)), r\<lparr>or_off := or_off r + n\<rparr>))"

definition ospf_rest :: "OspfReader \<Rightarrow> bytes" where
  "ospf_rest r = drop (or_off r) (or_d r)"

definition ospf_adv :: "nat \<Rightarrow> OspfReader \<Rightarrow> OspfReader" where
  "ospf_adv n r = r\<lparr>or_off := or_off r + n\<rparr>"

interpretation ospf: sized_reader ospf_rest ospf_adv ospf_take "\<lambda>_ _. TruncatedBody" ospf_remaining
  by unfold_locales
    (auto simp: ospf_rest_def ospf_adv_def ospf_take_def ospf_remaining_def add.commute add.left_commute)

lemma ospf_rest_new [simp]: "ospf_rest (ospf_new bs) = bs"
  by (simp add: ospf_rest_def ospf_new_def)

lemma ospf_reads:
  "ospf_u8 = bindp (ospf_take 1) (\<lambda>bs. retp (hd bs))"
  "ospf_u16 = bindp (ospf_take 2) (\<lambda>bs. retp (from_be bs))"
  "ospf_u32 = bindp (ospf_take 4) (\<lambda>bs. retp (from_be bs))"
  "ospf_ip = ospf_take 4"
  by (rule ext; auto simp: ospf_u8_def ospf_u16_def ospf_u32_def ospf_ip_def bindp_def ospf_take_def ospf_remaining_def
      hd_drop_conv_nth)+

lemma ospf_parses [parse_intros]:
  "ospf.parses ospf_u8 [b] b" "ospf.parses ospf_u16 (be16 v) v" "ospf.parses ospf_u32 (be32 w) w"
  "length a = 4 \<Longrightarrow> ospf.parses ospf_ip a a"
  unfolding ospf_reads by (rule ospf.parses_bind_ret [OF ospf.parses_rd] ospf.parses_rd; simp)+

lemma ospf_parses_header:
  assumes "header_wf h"
  shows "ospf.parses (ospf_lsa_header V2) (LsaHeader_encode h) h"
proof (rule ospf.parsesI)
  fix r ys
  assume "ospf_rest r = LsaHeader_encode h @ ys"
  then show "ospf_lsa_header V2 r = Inr (h, ospf_adv (length (LsaHeader_encode h)) r)"
    using header_round_trip [OF assms, of "[]"] length_header_v2 [OF assms]
    by (simp add: ospf_lsa_header_def ospf_rest_def ospf_adv_def)
qed

section \<open>Round trip of version 2 packets\<close>

definition hello_wf :: "HelloPacket \<Rightarrow> bool" where
  "hello_wf h \<longleftrightarrow> arr 4 (network_mask h) \<and> interface_id h = 0 \<and> arr 4 (designated_router h) \<and>
     arr 4 (backup_designated_router h) \<and> list_all (arr 4) (neighbors h)"

fun body_ok :: "PacketBody \<Rightarrow> bool" where
  "body_ok (BHello h) \<longleftrightarrow> hello_wf h"
| "body_ok (BDbd d) \<longleftrightarrow> list_all header_wf (d_lsas d)"
| "body_ok (BLsr qs) \<longleftrightarrow> list_all (\<lambda>q. arr 4 (lr_link_state_id q) \<and> arr 4 (lr_advertising_router q)) qs"
| "body_ok (BLsu l) \<longleftrightarrow> list_all lsa_wf (u_lsas l)"
| "body_ok (BLsAck a) \<longleftrightarrow> list_all header_wf (a_lsas a)"

fun body_type :: "PacketBody \<Rightarrow> PacketType" where
  "body_type (BHello _) = Hello"
| "body_type (BDbd _) = Dbd"
| "body_type (BLsr _) = Lsr"
| "body_type (BLsu _) = Lsu"
| "body_type (BLsAck _) = LsAck"

lemma list_all2_map_left:
  "(\<And>x. P x \<Longrightarrow> Q (f x) x) \<Longrightarrow> list_all P xs \<Longrightarrow> list_all2 Q (map f xs) xs"
  by (simp add: list_all_length list_all2_conv_all_nth)

lemma parses_headers:
  assumes "list_all header_wf hs"
  shows "ospf.parses_all (while_at_least LSA_HEADER_LEN (ospf_lsa_header V2)) (concat (map LsaHeader_encode hs)) hs"
  by (rule ospf.parses_while_at_least, rule list_all2_map_left [OF _ assms])
    (simp_all add: ospf_parses_header length_header_v2)

lemma parses_hello:
  assumes "hello_wf h"
  shows "ospf.parses_all (decode_hello V2) (encode_hello V2 h) h"
proof -
  have w: "arr 4 (network_mask h)" "arr 4 (designated_router h)" "arr 4 (backup_designated_router h)" "interface_id h = 0"
    using assms by (simp_all add: hello_wf_def)
  have ns: "ospf.parses_all (while_at_least 4 ospf_ip) (concat (neighbors h)) (neighbors h)"
    using ospf.parses_while_at_least [of ospf_ip 4 "neighbors h" "neighbors h"] assms
    by (simp add: ospf_parses hello_wf_def list_all_length list_all2_conv_all_nth)
  have "ospf.parses_all (decode_hello V2) (network_mask h @ be16 (hello_interval h) @ [h_options h] @ [router_priority h]
      @ be32 (router_dead_interval h) @ designated_router h @ backup_designated_router h @ concat (neighbors h)) h"
    unfolding decode_hello_def OspfVersion.case
    by (rule ospf.parses_all_bind [OF ospf_parses(4) [OF w(1)]], rule ospf.parses_all_bind [OF ospf_parses(2)],
        rule ospf.parses_all_bind [OF ospf_parses(1)], rule ospf.parses_all_bind [OF ospf_parses(1)],
        rule ospf.parses_all_bind [OF ospf_parses(3)], rule ospf.parses_all_bind [OF ospf_parses(4) [OF w(2)]],
        rule ospf.parses_all_bind [OF ospf_parses(4) [OF w(3)]], rule ospf.parses_all_bind_ret [OF ns]) (simp add: w(4))
  then show ?thesis by (simp add: encode_hello_def)
qed

lemma dbd_flags_round_trip:
  "(dbd_flags d AND 4 \<noteq> 0) = d_init d" "(dbd_flags d AND 2 \<noteq> 0) = d_more d" "(dbd_flags d AND 1 \<noteq> 0) = d_master d"
  by (cases "d_init d"; cases "d_more d"; cases "d_master d"; simp add: dbd_flags_def)+

lemma parses_dbd:
  assumes "list_all header_wf (d_lsas d)"
  shows "ospf.parses_all (decode_dbd V2) (encode_dbd V2 d) d"
proof -
  have "ospf.parses_all (decode_dbd V2) (be16 (interface_mtu d) @ [d_options d] @ [dbd_flags d] @ be32 (dd_sequence d)
      @ concat (map LsaHeader_encode (d_lsas d))) d"
    unfolding decode_dbd_def OspfVersion.case
    by (rule ospf.parses_all_bind [OF ospf_parses(2)], rule ospf.parses_all_bind [OF ospf_parses(1)],
        rule ospf.parses_all_bind [OF ospf_parses(1)], rule ospf.parses_all_bind [OF ospf_parses(3)],
        rule ospf.parses_all_bind_ret [OF parses_headers [OF assms]]) (simp add: dbd_flags_round_trip)
  then show ?thesis by (simp add: encode_dbd_def)
qed

lemma ucast_up_down: "ucast (ucast (x :: u16) :: u32) = x"
  by (rule bit_word_eqI) (auto simp: bit_simps)

lemma parses_request:
  assumes "arr 4 (lr_link_state_id q)" and "arr 4 (lr_advertising_router q)"
  shows "ospf.parses (decode_request V2) (encode_request V2 q) q"
  unfolding decode_request_def encode_request_def OspfVersion.case
  by (rule ospf.parses_bind [OF ospf.parses_bind_ret [OF ospf_parses(3)]],
      rule refl, rule ospf.parses_bind [OF ospf_parses(4) [OF assms(1)]],
      rule ospf.parses_bind_ret [OF ospf_parses(4) [OF assms(2)]]) (simp add: ucast_up_down)

lemma parses_lsr:
  assumes "list_all (\<lambda>q. arr 4 (lr_link_state_id q) \<and> arr 4 (lr_advertising_router q)) qs"
  shows "ospf.parses_all (decode_lsr V2) (encode_lsr V2 qs) qs"
  unfolding decode_lsr_def encode_lsr_def OspfVersion.case
  by (rule ospf.parses_while_at_least, rule list_all2_map_left [OF _ assms])
    (simp_all add: parses_request, simp add: encode_request_def)

lemma parses_lsu_entry:
  assumes "lsa_wf l"
  shows "ospf.parses (decode_lsu_entry V2) (Lsa_encode l) l"
proof (rule ospf.parsesI)
  fix r ys
  assume r: "ospf_rest r = Lsa_encode l @ ys"
  note e = lsa_encode_header [OF assms]
  have d: "drop (or_off r) (or_d r) = Lsa_encode l @ ys" using r by (simp add: ospf_rest_def)
  then have "length (or_d r) - or_off r = length (Lsa_encode l) + length ys" by (metis length_append length_drop)
  moreover have "0 < length (Lsa_encode l)" using e(3) by (simp del: length_greater_0_conv)
  ultimately have len: "LSA_HEADER_LEN \<le> ospf_remaining r" "or_off r + length (Lsa_encode l) \<le> length (or_d r)"
    using e(3) unfolding ospf_remaining_def by linarith+
  show "decode_lsu_entry V2 r = Inr (l, ospf_adv (length (Lsa_encode l)) r)"
    using len e(1, 3) lsa_round_trip [OF assms]
    by (simp add: decode_lsu_entry_def d Let_def ospf_adv_def flip: e(2))
qed

lemma parses_lsu:
  assumes "list_all lsa_wf (u_lsas l)" and "length (u_lsas l) \<le> limit" and "length (u_lsas l) < 2 ^ 32"
  shows "ospf.parses_all (decode_lsu limit V2) (encode_lsu l) l"
proof -
  have n: "unat (word_of_nat (length (u_lsas l)) :: u32) = length (u_lsas l)"
    using assms(3) by (simp add: unat_of_nat_small)
  have ls: "ospf.parses (repeat_p (length (u_lsas l)) (decode_lsu_entry V2)) (concat (map Lsa_encode (u_lsas l))) (u_lsas l)"
    by (rule ospf.parses_repeat, rule list_all2_map_left [OF _ assms(1)]) (simp_all add: parses_lsu_entry)
  show ?thesis
    unfolding decode_lsu_def encode_lsu_def
  proof (rule ospf.parses_all_bind [OF ospf_parses(3)])
    show "ospf.parses_all (if unat (word_of_nat (length (u_lsas l)) :: u32) > limit then failp (\<lambda>_. Panic)
        else bindp (repeat_p (unat (word_of_nat (length (u_lsas l)) :: u32)) (decode_lsu_entry V2)) (\<lambda>ls. retp \<lparr>u_lsas = ls\<rparr>))
        (concat (map Lsa_encode (u_lsas l))) l"
      unfolding n using assms(2) ospf.parses_all_bind_ret [OF ospf.parses_imp_all [OF ls], of l "\<lambda>ls. \<lparr>u_lsas = ls\<rparr>"]
      by simp
  qed
qed

lemma parses_body:
  assumes "body_ok b" and "\<And>l. b = BLsu l \<Longrightarrow> length (u_lsas l) \<le> limit \<and> length (u_lsas l) < 2 ^ 32"
  shows "ospf.parses_all (decode_body limit V2 (body_type b)) (encode_body V2 b) b"
proof (cases b)
  case (BLsAck a)
  have "ospf.parses_all (decode_lsack V2) (encode_lsack a) a"
    unfolding decode_lsack_def encode_lsack_def
    by (rule ospf.parses_all_bind_ret [OF parses_headers]) (use assms BLsAck in simp_all)
  then show ?thesis unfolding BLsAck by (simp, intro ospf.parses_all_bind_ret) simp_all
next
  case (BHello h)
  with assms show ?thesis by (simp add: ospf.parses_all_bind_ret [OF parses_hello])
next
  case (BDbd d)
  with assms show ?thesis by (simp add: ospf.parses_all_bind_ret [OF parses_dbd])
next
  case (BLsr q)
  with assms show ?thesis by (simp add: ospf.parses_all_bind_ret [OF parses_lsr])
next
  case (BLsu l)
  with assms show ?thesis by (simp add: ospf.parses_all_bind_ret [OF parses_lsu])
qed

definition packet_ok :: "nat \<Rightarrow> OspfPacket \<Rightarrow> bool" where
  "packet_ok limit p \<longleftrightarrow> op_version p = V2 \<and> packet_type p = body_type (body p) \<and> arr 4 (router_id p) \<and> arr 4 (area_id p) \<and>
     arr 8 (auth p) \<and> instance_id p = 0 \<and> body_ok (body p) \<and> 24 + length (encode_body V2 (body p)) < 65536 \<and>
     (case body p of BLsu l \<Rightarrow> length (u_lsas l) \<le> limit | _ \<Rightarrow> True)"

lemma count_le_length: "list_all lsa_wf ls \<Longrightarrow> length ls \<le> length (concat (map Lsa_encode ls))"
proof (induction ls)
  case (Cons l ls)
  then show ?case using lsa_encode_header(3) [of l] by simp
qed simp

lemma type_round_trip [simp]: "PacketType_from_u8 (PacketType_to_u8 t) = Some t"
  by (cases t) (simp_all add: PacketType_from_u8_def)

lemma to_bytes_v2:
  assumes "op_version p = V2" and "arr 4 (router_id p)" and "arr 4 (area_id p)"
  obtains c where "OspfPacket_to_bytes p = [2, PacketType_to_u8 (packet_type p)]
      @ be16 (word_of_nat (24 + length (encode_body V2 (body p)))) @ router_id p @ area_id p @ be16 c
      @ be16 (auth_type p) @ auth p @ encode_body V2 (body p)"
  using assms by (simp add: OspfPacket_to_bytes_def packet_buffer_def Let_def)

text \<open>
  C31: A well-formed OSPFv2 packet of any of the five types (Hello, Database Description, Link State
  Request, Update with Router, Network and opaque LSAs, Acknowledgement) is decoded from its
  encoding, for every allocation limit its LSA count does not exceed.
\<close>

theorem ospf_packet_round_trip:
  assumes "packet_ok limit p"
  shows "OspfPacket_from_bytes limit (OspfPacket_to_bytes p) = Inr p"
proof -
  have w: "op_version p = V2" "packet_type p = body_type (body p)" "arr 4 (router_id p)" "arr 4 (area_id p)" "arr 8 (auth p)"
      "instance_id p = 0" "body_ok (body p)" "24 + length (encode_body V2 (body p)) < 2 ^ LENGTH(16)"
    using assms by (simp_all add: packet_ok_def)
  let ?b = "encode_body V2 (body p)"
  obtain c where bs: "OspfPacket_to_bytes p = [2, PacketType_to_u8 (packet_type p)] @ be16 (word_of_nat (24 + length ?b)) @ router_id p
      @ area_id p @ be16 c @ be16 (auth_type p) @ auth p @ ?b"
    by (rule to_bytes_v2 [OF w(1, 3, 4)])
  have lsu: "length (u_lsas l) \<le> limit \<and> length (u_lsas l) < 2 ^ 32" if "body p = BLsu l" for l
  proof -
    have "length (u_lsas l) \<le> length ?b"
      using count_le_length [of "u_lsas l"] w(7) that by (simp add: encode_lsu_def)
    then show ?thesis using assms that by (simp add: packet_ok_def)
  qed
  have dec: "decode_body limit V2 (packet_type p) (ospf_new ?b) = Inr (body p, ospf_adv (length ?b) (ospf_new ?b))"
    using ospf.parses_allD [OF parses_body [OF w(7) lsu], of "ospf_new ?b"] w(2) by simp
  have n: "unat (word_of_nat (24 + length ?b) :: u16) = 24 + length ?b" by (rule unat_of_nat_small [OF w(8)])
  have fields: "OspfPacket_to_bytes p ! 1 = PacketType_to_u8 (packet_type p)"
      "from_be (take 2 (drop 2 (OspfPacket_to_bytes p))) = (word_of_nat (24 + length ?b) :: u16)"
      "take 4 (drop 4 (OspfPacket_to_bytes p)) = router_id p" "take 4 (drop 8 (OspfPacket_to_bytes p)) = area_id p"
      "from_be (take 2 (drop 14 (OspfPacket_to_bytes p))) = auth_type p" "take 8 (drop 16 (OspfPacket_to_bytes p)) = auth p"
      "drop 24 (OspfPacket_to_bytes p) = ?b" "length (OspfPacket_to_bytes p) = 24 + length ?b"
    using w(3-5) unfolding bs by (simp_all del: of_nat_add of_nat_numeral)
  obtain tl where hd: "OspfPacket_to_bytes p = 2 # tl" unfolding bs by simp
  have v: "Version_from_u8 2 = Some V2" by (simp add: Version_from_u8_def)
  have p: "p = \<lparr>op_version = V2, packet_type = packet_type p, router_id = router_id p, area_id = area_id p,
      auth_type = auth_type p, auth = auth p, instance_id = 0, body = body p\<rparr>"
    using w(1, 6) by simp
  show ?thesis
    unfolding OspfPacket_from_bytes_def hd list.case v
    using fields [unfolded hd] n by (subst p) (simp add: Let_def dec del: of_nat_add of_nat_numeral)
qed

text \<open>A Link State Update with one Router LSA of two links, for the examples.\<close>

definition sample_header :: LsaHeader where
  "sample_header = \<lparr>lh_version = V2, age = 1, lh_options = 2, lsa_type = 1, link_state_id = [1, 1, 1, 1],
     advertising_router = [1, 1, 1, 1], sequence_number = 0x80000001, checksum = 0, lh_length = 46\<rparr>"

definition sample_packet :: OspfPacket where
  "sample_packet = \<lparr>op_version = V2, packet_type = Lsu, router_id = [1, 1, 1, 1], area_id = [0, 0, 0, 0], auth_type = 0,
     auth = replicate 8 0, instance_id = 0,
     body = BLsu \<lparr>u_lsas = [LRouter \<lparr>rl_header = sample_header, rl_v = False, rl_e = True, rl_b = False,
       links = [point_to_point [2, 2, 2, 2] [10, 0, 0, 1] 5, stub [10, 1, 0, 0] [255, 255, 0, 0] 1]\<rparr>]\<rparr>\<rparr>"

theorem ospf_packet_round_trip_witness:
  "packet_ok 100 sample_packet \<and> OspfPacket_from_bytes 100 (OspfPacket_to_bytes sample_packet) = Inr sample_packet"
proof -
  have "packet_ok 100 sample_packet"
    by (simp add: packet_ok_def sample_packet_def sample_header_def body_wf_def header_wf_def router_body_def RouterLink_encode_def
        point_to_point_def stub_def encode_lsu_def RouterLsa_encode_def encode_with_body_def LsaHeader_encode_def)
  then show ?thesis using ospf_packet_round_trip [of 100 sample_packet] by simp
qed

end
