(* ===== verification/Ospf_Checksum.thy ===== *)
theory Ospf_Checksum
  imports Ospf_Wire
begin

unbundle bit_operations_syntax

text \<open>
  The Internet checksum of \<^verbatim>\<open>tpt-ospf/src/wire.rs\<close> as one's complement arithmetic: the folded sum is
  the sum of the 16-bit words modulo 65535, so an encoded packet verifies and a changed word does not.
\<close>

text \<open>The sum of the big-endian 16-bit words, an odd byte padded with zero, without the carry folding.\<close>

fun wsum :: "bytes \<Rightarrow> nat" where
  "wsum (a # b # rest) = be_val [a, b] + wsum rest"
| "wsum [a] = be_val [a, 0]"
| "wsum [] = 0"

lemma wsum_append: "even (length xs) \<Longrightarrow> wsum (xs @ ys) = wsum xs + wsum ys"
  by (induction xs rule: wsum.induct) simp_all

lemma wsum_pair: "length w = 2 \<Longrightarrow> wsum w = be_val w"
  by (cases w rule: wsum.cases) simp_all

lemma be_val_pair: "be_val [a, b] < 65536"
  using unat_less_power [of a] unat_less_power [of b] by simp

lemma word_pair: "unat (ucast (from_be [a, b] :: u16) :: u32) = be_val [a, b]"
  using be_val_pair [of a b] by (simp add: from_be_def unsigned_ucast_eq unat_of_nat_small take_bit_nat_eq_self del: be_val_Cons)

lemma wsum_bound: "wsum xs \<le> 65535 * ((length xs + 1) div 2)"
proof (induction xs rule: wsum.induct)
  case (1 a b rest)
  then show ?case using be_val_pair [of a b] by (simp del: be_val_Cons)
next
  case (2 a)
  then show ?case using be_val_pair [of a 0] by (simp del: be_val_Cons)
qed simp

lemma word_sum_step: "unat s + be_val [a, b] < 2 ^ 32 \<Longrightarrow>
    unat (s + ucast (from_be [a, b] :: u16) :: u32) = unat s + be_val [a, b]"
  by (simp add: unat_word_ariths word_pair del: be_val_Cons)

lemma word_sum_unat: "unat s + wsum xs < 2 ^ 32 \<Longrightarrow> unat (word_sum s xs) = unat s + wsum xs"
  by (induction s xs rule: word_sum.induct) (simp_all add: word_sum_step del: be_val_Cons)

lemma fold_carry_unat:
  "unat (fold_carry s) < 65536 \<and> unat (fold_carry s) mod 65535 = unat s mod 65535 \<and> (unat (fold_carry s) = 0 \<longleftrightarrow> unat s = 0)"
proof (induction s rule: fold_carry.induct)
  case (1 s)
  have split: "unat s = (unat s mod 65536 + unat s div 65536) + 65535 * (unat s div 65536)"
    using div_mult_mod_eq [of "unat s" 65536] by linarith
  have "(unat s mod 65536 + unat s div 65536) mod 65535 = unat s mod 65535"
    using mod_mult_self2 [of "unat s mod 65536 + unat s div 65536" 65535 "unat s div 65536"] split by metis
  moreover have "unat s div 65536 = 0 \<longleftrightarrow> drop_bit 16 s = 0" by (metis low_high(2) unat_eq_zero)
  moreover have "unat s mod 65536 + unat s div 65536 = 0 \<longleftrightarrow> unat s = 0" using split by force
  ultimately show ?case
    using 1 by (subst (1 2 3) fold_carry.simps) (auto simp: carry_step div_eq_0_iff simp del: unat_eq_0)
qed

lemma unat_not_u16: "unat (NOT x :: u16) = 65535 - unat x"
proof -
  have "NOT x = - 1 - x" by (simp add: not_eq_complement)
  moreover have "unat (- 1 - x) = unat (- 1 :: u16) - unat x" by (rule unat_sub) simp
  moreover have "unat (- 1 :: u16) = 65535" by (simp add: unsigned_minus_1_eq_mask mask_eq_exp_minus_1)
  ultimately show ?thesis by simp
qed

lemma checksum_unat:
  assumes "length xs \<le> 131000"
  obtains f where "unat (internet_checksum xs) = 65535 - f" and "f < 65536" and "f mod 65535 = wsum xs mod 65535"
    and "f = 0 \<longleftrightarrow> wsum xs = 0"
proof -
  have "(length xs + 1) div 2 \<le> 65501" using div_le_mono [of "length xs + 1" 131001 2] assms by simp
  then have "wsum xs \<le> 65535 * 65501" using wsum_bound [of xs] by linarith
  then have s: "unat (word_sum 0 xs) = wsum xs" using word_sum_unat [of 0 xs] by simp
  note f = fold_carry_unat [of "word_sum 0 xs", unfolded s]
  have "unat (ucast (fold_carry (word_sum 0 xs)) :: u16) = unat (fold_carry (word_sum 0 xs))"
    using f by (simp add: unsigned_ucast_eq take_bit_nat_eq_self)
  then have "unat (internet_checksum xs) = 65535 - unat (fold_carry (word_sum 0 xs))"
    unfolding internet_checksum_def by (simp add: unat_not_u16)
  then show thesis using f by (intro that [of "unat (fold_carry (word_sum 0 xs))"]) simp_all
qed

lemma checksum_zero:
  assumes "length xs \<le> 131000"
  shows "internet_checksum xs = 0 \<longleftrightarrow> 0 < wsum xs \<and> wsum xs mod 65535 = 0"
proof -
  obtain f where f: "unat (internet_checksum xs) = 65535 - f" "f < 65536" "f mod 65535 = wsum xs mod 65535"
    "f = 0 \<longleftrightarrow> wsum xs = 0" using checksum_unat [OF assms] .
  have "internet_checksum xs = 0 \<longleftrightarrow> unat (internet_checksum xs) = 0" by (simp add: unat_eq_0)
  also have "\<dots> \<longleftrightarrow> f = 65535" using f(1, 2) by linarith
  also have "\<dots> \<longleftrightarrow> 0 < f \<and> f mod 65535 = 0"
    using f(2) by (cases "f = 65535") (auto dest: mod_less)
  finally show ?thesis using f(3, 4) by auto
qed

lemma mod_cancel:
  fixes a b f m :: nat
  assumes "a + f = b + m" and "f mod m = b mod m"
  shows "a mod m = 0"
proof -
  have "(a + f) mod m = f mod m" using assms by simp
  then have "m dvd (a + f) - f" using mod_eq_dvd_iff_nat [of f "a + f" m] by simp
  then show ?thesis by simp
qed

lemma mod_gap:
  fixes x u v m :: nat
  assumes "(x + u) mod m = (x + v) mod m" and "u \<le> v" and "v \<le> m"
  shows "u = v \<or> u = 0 \<and> v = m"
proof -
  have "m dvd (x + v) - (x + u)" using mod_eq_dvd_iff_nat [of "x + u" "x + v" m] assms by simp
  then have "m dvd v - u" by simp
  then show ?thesis using assms by (auto dest: dvd_imp_le)
qed

lemma checksum_inserted:
  assumes "length (pre @ be16 0 @ post) \<le> 131000" and "even (length pre)"
  shows "internet_checksum (pre @ be16 (internet_checksum (pre @ be16 0 @ post)) @ post) = 0"
proof -
  have s: "wsum (pre @ be16 c @ post) = wsum pre + unat c + wsum post" for c
    using assms(2) unat_less_power [of c] by (simp add: wsum_append wsum_pair be16_def be_val_to_be)
  let ?c = "internet_checksum (pre @ be16 0 @ post)"
  obtain f where f: "unat ?c = 65535 - f" "f < 65536" "f mod 65535 = wsum (pre @ be16 0 @ post) mod 65535"
      "f = 0 \<longleftrightarrow> wsum (pre @ be16 0 @ post) = 0"
    using checksum_unat [OF assms(1)] .
  have eq: "wsum (pre @ be16 ?c @ post) + f = wsum (pre @ be16 0 @ post) + 65535"
    using f(1, 2) by (simp add: s)
  have "wsum (pre @ be16 ?c @ post) mod 65535 = 0" using mod_cancel [OF eq] f(3) by simp
  moreover have "0 < wsum (pre @ be16 ?c @ post)" using eq f(2, 4) by linarith
  ultimately show ?thesis using checksum_zero assms(1) by simp
qed

lemma pair_inj: "length w = 2 \<Longrightarrow> length w' = 2 \<Longrightarrow> be_val w = be_val w' \<Longrightarrow> w = w'"
  by (metis be_from_be(1) from_be_def)

lemma pair_val: "length w = 2 \<Longrightarrow> be_val w = 0 \<Longrightarrow> w = [0, 0]" "length w = 2 \<Longrightarrow> be_val w = 65535 \<Longrightarrow> w = [255, 255]"
  using pair_inj [of w "[0, 0]"] pair_inj [of w "[255, 255]"] by simp_all

lemma checksum_detects:
  assumes "length (pre @ w @ post) \<le> 131000" and "even (length pre)" and "length w = 2" and "length w' = 2"
    and "internet_checksum (pre @ w @ post) = 0" and "internet_checksum (pre @ w' @ post) = 0"
  shows "w' = w \<or> {w, w'} = {[0, 0], [255, 255]}"
proof -
  have b: "be_val v < 65536" if "length v = 2" for v
    using that be_val_pair by (cases v rule: wsum.cases) auto
  have s: "wsum (pre @ v @ post) = wsum pre + be_val v + wsum post" if "length v = 2" for v
    using assms(2) that by (simp add: wsum_append wsum_pair)
  have "wsum (pre @ w @ post) mod 65535 = 0" "wsum (pre @ w' @ post) mod 65535 = 0"
    using checksum_zero assms by simp_all
  then have m: "((wsum pre + wsum post) + be_val w) mod 65535 = ((wsum pre + wsum post) + be_val w') mod 65535"
    unfolding s [OF assms(3)] s [OF assms(4)] by (simp add: ac_simps)
  have "be_val w = be_val w' \<or> be_val w = 0 \<and> be_val w' = 65535 \<or> be_val w = 65535 \<and> be_val w' = 0"
    using mod_gap [OF m] mod_gap [OF m [symmetric]] b [OF assms(3)] b [OF assms(4)] by linarith
  then show ?thesis
  proof (elim disjE conjE)
    assume "be_val w = be_val w'"
    then show ?thesis using pair_inj [OF assms(3, 4)] by simp
  next
    assume "be_val w = 0" "be_val w' = 65535"
    then show ?thesis using pair_val(1) [OF assms(3)] pair_val(2) [OF assms(4)] by simp
  next
    assume "be_val w = 65535" "be_val w' = 0"
    then show ?thesis using pair_val(2) [OF assms(3)] pair_val(1) [OF assms(4)] by auto
  qed
qed

text \<open>The bytes of a packet that its checksum covers: all but the OSPFv2 authentication field.\<close>

definition covered :: "OspfVersion \<Rightarrow> bytes \<Rightarrow> bytes" where
  "covered v bs = (case v of V2 \<Rightarrow> take 16 bs @ drop 24 bs | V3 \<Rightarrow> bs)"

text \<open>
  C32: The checksum the encoder writes makes the Internet checksum of the covered bytes of the packet
  zero, in both versions, and any change of one aligned 16-bit word of them other than between
  0x0000 and 0xffff makes it nonzero.  The length bound keeps the \<^verbatim>\<open>u32\<close> sum from wrapping.
\<close>

theorem ospf_checksum_verifies:
  assumes "arr 4 (router_id p)" and "arr 4 (area_id p)" and "arr 8 (auth p)"
    and "length (encode_body (op_version p) (body p)) \<le> 130000"
  shows "internet_checksum (covered (op_version p) (OspfPacket_to_bytes p)) = 0 \<and>
    (covered (op_version p) (OspfPacket_to_bytes p) = pre @ w @ post \<and> even (length pre) \<and> arr 2 w \<and> arr 2 w' \<and>
       w' \<noteq> w \<and> {w, w'} \<noteq> {[0, 0], [255, 255]} \<longrightarrow> internet_checksum (pre @ w' @ post) \<noteq> 0)"
proof -
  let ?b = "encode_body (op_version p) (body p)"
  obtain pr po where c: "covered (op_version p) (OspfPacket_to_bytes p) = pr @ be16 (internet_checksum (pr @ be16 0 @ po)) @ po"
    and pr: "even (length pr)" and l: "length (pr @ be16 0 @ po) \<le> 131000"
  proof (cases "op_version p")
    case V2
    show thesis
    proof (rule that)
      show "covered (op_version p) (OspfPacket_to_bytes p) = take 12 (packet_buffer p) @ be16 (internet_checksum (take 12 (packet_buffer p)
          @ be16 0 @ (be16 (auth_type p) @ ?b))) @ (be16 (auth_type p) @ ?b)"
        using assms V2
        by (simp add: covered_def OspfPacket_to_bytes_def packet_buffer_def internet_checksum_skip_def Let_def)
    qed (use assms V2 in \<open>simp_all add: packet_buffer_def Let_def\<close>)
  next
    case V3
    show thesis
    proof (rule that)
      show "covered (op_version p) (OspfPacket_to_bytes p) = take 14 (packet_buffer p) @ be16 (internet_checksum (take 14 (packet_buffer p)
          @ be16 0 @ ?b)) @ ?b"
        using assms V3 by (simp add: covered_def OspfPacket_to_bytes_def packet_buffer_def Let_def)
    qed (use assms V3 in \<open>simp_all add: packet_buffer_def Let_def\<close>)
  qed
  have z: "internet_checksum (covered (op_version p) (OspfPacket_to_bytes p)) = 0"
    unfolding c by (rule checksum_inserted [OF l pr])
  have n: "length (covered (op_version p) (OspfPacket_to_bytes p)) \<le> 131000" using l unfolding c by simp
  from z n show ?thesis using checksum_detects [of pre w post w'] by auto
qed

theorem ospf_checksum_verifies_witness:
  "internet_checksum (covered V2 (OspfPacket_to_bytes sample_packet)) = 0 \<and>
   internet_checksum ([3, 4] @ drop 2 (covered V2 (OspfPacket_to_bytes sample_packet))) \<noteq> 0"
proof -
  let ?c = "covered V2 (OspfPacket_to_bytes sample_packet)"
  have "length (encode_body (op_version sample_packet) (body sample_packet)) \<le> 130000"
    by (simp add: sample_packet_def sample_header_def RouterLink_encode_def
        point_to_point_def stub_def encode_lsu_def RouterLsa_encode_def encode_with_body_def LsaHeader_encode_def)
  moreover have "?c = [] @ [2, 4] @ drop 2 ?c"
    by (simp add: covered_def OspfPacket_to_bytes_def packet_buffer_def sample_packet_def Let_def)
  moreover have "op_version sample_packet = V2" by (simp add: sample_packet_def)
  ultimately show ?thesis
    using ospf_checksum_verifies [of sample_packet "[]" "[2, 4]" "drop 2 ?c" "[3, 4]"]
    by (simp add: sample_packet_def doubleton_eq_iff)
qed

end
