(* ===== verification/Ospf_Database.thy ===== *)
theory Ospf_Database
  imports Ospf_Lsa "HOL-Library.Product_Lexorder"
begin

text \<open>
  The link-state database of \<^verbatim>\<open>tpt-ospf/src/database.rs\<close> and its acceptance rule. The interface
  \<open>newest_wins\<close> states what a recency test must promise for a database that keeps the newer
  copy to converge whatever the order of arrival; \<open>compare_lsa\<close> keeps it while the sequence
  numbers stay in a window of \<open>2 ^ 30\<close>, and the last section says where it fails.
\<close>

datatype LsaOrdering = Older | LsaEqual | Newer

text \<open>\<open>seq_diff\<close> computes in \<open>i64\<close>, where the differences of two \<open>u32\<close> cannot overflow.\<close>

definition seq_diff :: "u32 \<Rightarrow> u32 \<Rightarrow> int" where
  "seq_diff a b =
     (let d = uint a - uint b in
      if d > 0x40000000 then d - 0x80000000
      else if d < - 0x40000000 then d + 0x80000000
      else d)"

definition compare_lsa :: "LsaHeader \<Rightarrow> LsaHeader \<Rightarrow> LsaOrdering" where
  "compare_lsa a b =
     (if sequence_number a = sequence_number b then
        if age a = MAX_AGE \<and> age b \<noteq> MAX_AGE then Newer
        else if age b = MAX_AGE \<and> age a \<noteq> MAX_AGE then Older
        else if checksum a = checksum b then LsaEqual
        else if checksum a > checksum b then Newer
        else Older
      else if seq_diff (sequence_number a) (sequence_number b) > 0 then Newer
      else Older)"

datatype ReceiveAction = InstallAndFlood | Duplicate | Reject

record LinkStateDatabase =
  lsas :: "LsaKey \<Rightarrow> Lsa option"

definition lsdb_new :: LinkStateDatabase where
  "lsdb_new = \<lparr>lsas = Map.empty\<rparr>"

definition lsdb_get :: "LinkStateDatabase \<Rightarrow> LsaKey \<Rightarrow> Lsa option" where
  "lsdb_get db k = lsas db k"

definition lsdb_insert :: "Lsa \<Rightarrow> LinkStateDatabase \<Rightarrow> Lsa option \<times> LinkStateDatabase" where
  "lsdb_insert lsa db = (lsas db (Lsa_key lsa), db\<lparr>lsas := (lsas db)(Lsa_key lsa \<mapsto> lsa)\<rparr>)"

definition lsdb_receive :: "Lsa \<Rightarrow> LinkStateDatabase \<Rightarrow> ReceiveAction \<times> LinkStateDatabase" where
  "lsdb_receive lsa db =
     (case lsas db (Lsa_key lsa) of
        None \<Rightarrow> (InstallAndFlood, db\<lparr>lsas := (lsas db)(Lsa_key lsa \<mapsto> lsa)\<rparr>)
      | Some existing \<Rightarrow>
          (case compare_lsa (Lsa_header lsa) (Lsa_header existing) of
             LsaEqual \<Rightarrow> (Duplicate, db)
           | Newer \<Rightarrow> (InstallAndFlood, db\<lparr>lsas := (lsas db)(Lsa_key lsa \<mapsto> lsa)\<rparr>)
           | Older \<Rightarrow> (Reject, db)))"

definition receive_all :: "Lsa list \<Rightarrow> LinkStateDatabase" where
  "receive_all ls = fold (\<lambda>l db. snd (lsdb_receive l db)) ls lsdb_new"

section \<open>Keeping the newest copy\<close>

definition keep_newest :: "('a \<Rightarrow> 'k) \<Rightarrow> ('a \<Rightarrow> 'a \<Rightarrow> bool) \<Rightarrow> 'a \<Rightarrow> ('k \<Rightarrow> 'a option) \<Rightarrow> ('k \<Rightarrow> 'a option)" where
  "keep_newest key newer a m =
     (case m (key a) of
        None \<Rightarrow> m(key a \<mapsto> a)
      | Some b \<Rightarrow> if newer a b then m(key a \<mapsto> a) else m)"

locale newest_wins =
  fixes key :: "'a \<Rightarrow> 'k"
    and newer :: "'a \<Rightarrow> 'a \<Rightarrow> bool"
    and rank :: "'a \<Rightarrow> 'r::linorder"
    and W :: "'a \<Rightarrow> bool"
  assumes newer_iff: "W a \<Longrightarrow> W b \<Longrightarrow> newer a b \<longleftrightarrow> rank b < rank a"
begin

definition newest_of :: "'a set \<Rightarrow> ('k \<Rightarrow> 'a option) \<Rightarrow> bool" where
  "newest_of S m \<longleftrightarrow> (\<forall>k. case m k of
       None \<Rightarrow> \<forall>a\<in>S. key a \<noteq> k
     | Some b \<Rightarrow> b \<in> S \<and> key b = k \<and> (\<forall>a\<in>S. key a = k \<longrightarrow> rank a \<le> rank b))"

lemma newest_of_None: "newest_of S m \<Longrightarrow> m k = None \<Longrightarrow> a \<in> S \<Longrightarrow> key a \<noteq> k"
  unfolding newest_of_def by (drule spec [of _ k]) simp

lemma newest_of_Some:
  assumes "newest_of S m" and "m k = Some b"
  shows "b \<in> S" and "key b = k" and "a \<in> S \<Longrightarrow> key a = k \<Longrightarrow> rank a \<le> rank b"
  using spec [OF assms(1) [unfolded newest_of_def], of k] assms(2) by simp_all

lemma keep_step:
  assumes "newest_of S m" and "Ball S W" and "W a"
  shows "newest_of (insert a S) (keep_newest key newer a m)"
  unfolding newest_of_def
proof
  fix k
  show "case keep_newest key newer a m k of None \<Rightarrow> \<forall>c\<in>insert a S. key c \<noteq> k
      | Some b \<Rightarrow> b \<in> insert a S \<and> key b = k \<and> (\<forall>c\<in>insert a S. key c = k \<longrightarrow> rank c \<le> rank b)"
  proof (cases "key a = k")
    case False
    then have "keep_newest key newer a m k = m k" by (auto simp: keep_newest_def split: option.split)
    with False show ?thesis
      using newest_of_None [OF assms(1), of k] newest_of_Some [OF assms(1), of k] by (auto split: option.split)
  next
    case True
    show ?thesis
    proof (cases "m k")
      case None
      then show ?thesis using True newest_of_None [OF assms(1) None] by (auto simp: keep_newest_def)
    next
      case (Some b)
      note b = newest_of_Some [OF assms(1) Some]
      have "newer a b \<longleftrightarrow> rank b < rank a" using newer_iff assms b(1) by blast
      then show ?thesis using True Some b by (fastforce simp: keep_newest_def)
    qed
  qed
qed

lemma keep_all: "list_all W as \<Longrightarrow> newest_of (set as) (fold (keep_newest key newer) as Map.empty)"
proof (induction as rule: rev_induct)
  case Nil
  then show ?case by (simp add: newest_of_def)
next
  case (snoc a as)
  then show ?case using keep_step [of "set as" _ a] by (simp add: list_all_iff)
qed

lemma same_set:
  assumes "newest_of S m" and "newest_of S m'"
  shows "rel_option (\<lambda>a b. rank a = rank b) (m k) (m' k)"
proof (cases "m k")
  case None
  then show ?thesis
    using newest_of_None [OF assms(1) None] newest_of_Some [OF assms(2), of k] by (cases "m' k") auto
next
  case (Some a)
  note a = newest_of_Some [OF assms(1) Some]
  show ?thesis
  proof (cases "m' k")
    case None
    then show ?thesis using newest_of_None [OF assms(2) None a(1)] a(2) by simp
  next
    case (Some b)
    note b = newest_of_Some [OF assms(2) Some]
    show ?thesis using a(3) [OF b(1, 2)] b(3) [OF a(1, 2)] \<open>m k = Some a\<close> Some by simp
  qed
qed

end

section \<open>The recency test in a window\<close>

definition in_window :: "nat \<Rightarrow> Lsa \<Rightarrow> bool" where
  "in_window base l \<longleftrightarrow> base \<le> unat (sequence_number (Lsa_header l)) \<and> unat (sequence_number (Lsa_header l)) \<le> base + 2 ^ 30"

definition lsa_rank :: "Lsa \<Rightarrow> nat \<times> bool \<times> nat" where
  "lsa_rank l = (let h = Lsa_header l in (unat (sequence_number h), age h = MAX_AGE, unat (checksum h)))"

definition lsa_newer :: "Lsa \<Rightarrow> Lsa \<Rightarrow> bool" where
  "lsa_newer a b \<longleftrightarrow> compare_lsa (Lsa_header a) (Lsa_header b) = Newer"

lemma seq_diff_window:
  assumes "base \<le> unat a" "unat a \<le> base + 2 ^ 30" "base \<le> unat b" "unat b \<le> base + 2 ^ 30"
  shows "seq_diff a b > 0 \<longleftrightarrow> unat b < unat a"
proof -
  obtain x y where xy: "unat a = x" "unat b = y" "uint a = int x" "uint b = int y" by (metis uint_nat)
  show ?thesis using assms unfolding seq_diff_def Let_def xy by auto
qed

lemma compare_window:
  assumes "in_window base a" "in_window base b"
  shows "compare_lsa (Lsa_header a) (Lsa_header b) =
    (if lsa_rank b < lsa_rank a then Newer else if lsa_rank a = lsa_rank b then LsaEqual else Older)"
proof (cases "sequence_number (Lsa_header a) = sequence_number (Lsa_header b)")
  case True
  then show ?thesis
    by (auto simp: compare_lsa_def lsa_rank_def Let_def  word_less_nat_alt word_unat_eq_iff)
next
  case False
  then have ne: "unat (sequence_number (Lsa_header a)) \<noteq> unat (sequence_number (Lsa_header b))" by (simp add: word_unat_eq_iff)
  show ?thesis
    using False ne assms seq_diff_window [of base "sequence_number (Lsa_header a)" "sequence_number (Lsa_header b)"]
    by (simp add: compare_lsa_def lsa_rank_def Let_def in_window_def)
qed

interpretation lsdb: newest_wins Lsa_key lsa_newer lsa_rank "in_window base" for base
  by unfold_locales (simp add: lsa_newer_def compare_window)

lemma receive_keeps_newest: "lsas (snd (lsdb_receive l db)) = keep_newest Lsa_key lsa_newer l (lsas db)"
  by (simp add: lsdb_receive_def keep_newest_def lsa_newer_def split: option.split LsaOrdering.split)

lemma receive_all_fold: "lsas (receive_all ls) = fold (keep_newest Lsa_key lsa_newer) ls Map.empty"
proof -
  have "lsas (fold (\<lambda>l db. snd (lsdb_receive l db)) ls db) = fold (keep_newest Lsa_key lsa_newer) ls (lsas db)" for db
    by (induction ls arbitrary: db) (simp_all add: receive_keeps_newest)
  then show ?thesis by (simp add: receive_all_def lsdb_new_def)
qed

lemma compare_newest:
  assumes "in_window base a" "in_window base b"
  shows "compare_lsa (Lsa_header a) (Lsa_header b) = LsaEqual \<longleftrightarrow> lsa_rank a = lsa_rank b"
    and "compare_lsa (Lsa_header a) (Lsa_header b) \<noteq> Newer \<longleftrightarrow> lsa_rank a \<le> lsa_rank b"
  by (auto simp: compare_window [OF assms])


text \<open>A Router LSA with a given sequence number and checksum, for the examples.\<close>

definition sample_lsa :: "u32 \<Rightarrow> u16 \<Rightarrow> Lsa" where
  "sample_lsa s c = LRouter \<lparr>rl_header = (LsaHeader_router [1, 1, 1, 1] 2)\<lparr>sequence_number := s, checksum := c\<rparr>,
     rl_v = False, rl_e = False, rl_b = False, links = []\<rparr>"


section \<open>Where the recency test is the signed order\<close>

lemma sint_u32: "sint (w :: u32) = (if uint w < 2 ^ 31 then uint w else uint w - 2 ^ 32)"
proof -
  have "sint w = (uint w + 2 ^ 31) mod 2 ^ 32 - 2 ^ 31"
    by (simp add: sint_uint signed_take_bit_eq_take_bit_shift take_bit_eq_mod)
  moreover have "0 \<le> uint w" "uint w < 2 ^ 32" using uint_lt2p [of w] by simp_all
  ultimately show ?thesis
    using mod_pos_pos_trivial [of "uint w + 2 ^ 31" "2 ^ 32"] mod_pos_pos_trivial [of "uint w - 2 ^ 31" "2 ^ 32"]
      mod_add_self2 [of "uint w - 2 ^ 31" "2 ^ 32 :: int"] by (auto simp: add.commute)
qed

lemma compare_seq:
  assumes "sequence_number a \<noteq> sequence_number b"
  shows "compare_lsa a b = (let d = uint (sequence_number a) - uint (sequence_number b) in
    if 0 < d \<and> d \<le> 2 ^ 30 \<or> 2 ^ 31 < d \<or> - (2 ^ 31) < d \<and> d < - (2 ^ 30) then Newer else Older)"
  using assms by (auto simp: compare_lsa_def seq_diff_def Let_def)

text \<open>
  OSPF sequence numbers are signed: they run from \<^verbatim>\<open>0x80000001\<close> up to \<^verbatim>\<open>0x7fffffff\<close>. The recency
  test agrees with the signed order exactly for numbers of the same sign at most \<open>2 ^ 30\<close> apart,
  and for numbers of different sign only when their unsigned distance lies between \<open>2 ^ 30\<close> and
  \<open>2 ^ 31\<close>; at a distance of exactly \<open>2 ^ 31\<close>, and nowhere else, each of two LSAs is older than the other.
\<close>

theorem recency_signed_order:
  assumes "sequence_number a \<noteq> sequence_number b"
  defines "d \<equiv> uint (sequence_number a) - uint (sequence_number b)"
  shows "((compare_lsa a b = Newer \<longleftrightarrow> sint (sequence_number b) < sint (sequence_number a)) \<longleftrightarrow>
      (if sint (sequence_number a) < 0 \<longleftrightarrow> sint (sequence_number b) < 0 then \<bar>d\<bar> \<le> 2 ^ 30
       else 2 ^ 30 < \<bar>d\<bar> \<and> - (2 ^ 31) < d \<and> d \<le> 2 ^ 31)) \<and>
    (compare_lsa a b = Older \<and> compare_lsa b a = Older \<longleftrightarrow> \<bar>d\<bar> = 2 ^ 31)"
proof -
  obtain x y where xy: "uint (sequence_number a) = x" "uint (sequence_number b) = y" by blast
  have r: "0 \<le> x" "x < 2 ^ 32" "0 \<le> y" "y < 2 ^ 32" "x \<noteq> y"
    using assms(1) uint_lt2p [of "sequence_number a"] uint_lt2p [of "sequence_number b"]
    by (auto simp: word_uint_eq_iff simp flip: xy)
  have "sequence_number b \<noteq> sequence_number a" using assms(1) by simp
  note c = compare_seq [OF assms(1)] compare_seq [OF this]
  show ?thesis
    using r unfolding d_def c sint_u32 xy Let_def by (simp split: if_splits)
qed

theorem recency_signed_order_witness:
  "compare_lsa ((LsaHeader_router [1, 1, 1, 1] 2)\<lparr>sequence_number := 0\<rparr>)
      ((LsaHeader_router [1, 1, 1, 1] 2)\<lparr>sequence_number := 0xFFFFFFFF\<rparr>) \<noteq> Newer \<and>
   sint (0xFFFFFFFF :: u32) < sint (0 :: u32)"
  using recency_signed_order [of "(LsaHeader_router [1, 1, 1, 1] 2)\<lparr>sequence_number := 0\<rparr>"
      "(LsaHeader_router [1, 1, 1, 1] 2)\<lparr>sequence_number := 0xFFFFFFFF\<rparr>"]
  by (simp add: sint_u32)

end
