(* ===== verification/Ospf_Neighbor.thy ===== *)
theory Ospf_Neighbor
  imports Ospf_Wire "HOL-Library.Sublist"
begin

text \<open>
  The neighbor state machine of \<^verbatim>\<open>tpt-ospf/src/neighbor.rs\<close> and the table that runs one machine per
  neighbor. The table refines a family of independent machines, and an adjacency is reported
  only after the negotiation and the exchange that followed the last reset.
\<close>

datatype NeighborState = Down | Attempt | Init | TwoWay | ExStart | Exchange | Loading | Full

definition is_adjacent :: "NeighborState \<Rightarrow> bool" where
  "is_adjacent s \<longleftrightarrow> s = Full"

fun state_name :: "NeighborState \<Rightarrow> string" where
  "state_name Down = ''Down''"
| "state_name Attempt = ''Attempt''"
| "state_name Init = ''Init''"
| "state_name TwoWay = ''2-Way''"
| "state_name ExStart = ''ExStart''"
| "state_name Exchange = ''Exchange''"
| "state_name Loading = ''Loading''"
| "state_name Full = ''Full''"

datatype NeighborEvent =
    HelloReceived
  | Start
  | TwoWayReceived bool
  | NegotiationDone
  | ExchangeDone bool
  | LoadingDone
  | SeqNumberMismatch
  | BadLinkStateRequest
  | OneWayReceived
  | InactivityTimer
  | KillNeighbor
  | LinkDown

definition transition :: "NeighborState \<Rightarrow> NeighborEvent \<Rightarrow> NeighborState" where
  "transition state event =
     (case state of
        Down \<Rightarrow> (case event of Start \<Rightarrow> Attempt | HelloReceived \<Rightarrow> Init | _ \<Rightarrow> Down)
      | Attempt \<Rightarrow> (case event of HelloReceived \<Rightarrow> Init | KillNeighbor \<Rightarrow> Down | LinkDown \<Rightarrow> Down | _ \<Rightarrow> Attempt)
      | Init \<Rightarrow> (case event of
            HelloReceived \<Rightarrow> Init
          | TwoWayReceived adjacency_eligible \<Rightarrow> if adjacency_eligible then ExStart else TwoWay
          | InactivityTimer \<Rightarrow> Down | KillNeighbor \<Rightarrow> Down | LinkDown \<Rightarrow> Down
          | _ \<Rightarrow> Init)
      | TwoWay \<Rightarrow> (case event of
            HelloReceived \<Rightarrow> TwoWay
          | OneWayReceived \<Rightarrow> Init
          | TwoWayReceived adjacency_eligible \<Rightarrow> if adjacency_eligible then ExStart else TwoWay
          | InactivityTimer \<Rightarrow> Down | KillNeighbor \<Rightarrow> Down | LinkDown \<Rightarrow> Down
          | _ \<Rightarrow> TwoWay)
      | ExStart \<Rightarrow> (case event of
            HelloReceived \<Rightarrow> ExStart
          | OneWayReceived \<Rightarrow> Init
          | TwoWayReceived adjacency_eligible \<Rightarrow> if adjacency_eligible then ExStart else TwoWay
          | NegotiationDone \<Rightarrow> Exchange
          | InactivityTimer \<Rightarrow> Down | KillNeighbor \<Rightarrow> Down | LinkDown \<Rightarrow> Down
          | _ \<Rightarrow> ExStart)
      | Exchange \<Rightarrow> (case event of
            HelloReceived \<Rightarrow> Exchange
          | OneWayReceived \<Rightarrow> Init
          | TwoWayReceived adjacency_eligible \<Rightarrow> if adjacency_eligible then Exchange else TwoWay
          | NegotiationDone \<Rightarrow> Exchange
          | ExchangeDone ls_requests_pending \<Rightarrow> if ls_requests_pending then Loading else Full
          | InactivityTimer \<Rightarrow> Down | KillNeighbor \<Rightarrow> Down | LinkDown \<Rightarrow> Down
          | _ \<Rightarrow> Exchange)
      | Loading \<Rightarrow> (case event of
            HelloReceived \<Rightarrow> Loading
          | OneWayReceived \<Rightarrow> Init
          | TwoWayReceived adjacency_eligible \<Rightarrow> if adjacency_eligible then Loading else TwoWay
          | ExchangeDone _ \<Rightarrow> Full
          | SeqNumberMismatch \<Rightarrow> ExStart | BadLinkStateRequest \<Rightarrow> ExStart
          | InactivityTimer \<Rightarrow> Down | KillNeighbor \<Rightarrow> Down | LinkDown \<Rightarrow> Down
          | _ \<Rightarrow> Loading)
      | Full \<Rightarrow> (case event of
            HelloReceived \<Rightarrow> Full
          | OneWayReceived \<Rightarrow> Init
          | TwoWayReceived adjacency_eligible \<Rightarrow> if adjacency_eligible then Full else TwoWay
          | SeqNumberMismatch \<Rightarrow> ExStart | BadLinkStateRequest \<Rightarrow> ExStart
          | ExchangeDone _ \<Rightarrow> Full
          | InactivityTimer \<Rightarrow> Down | KillNeighbor \<Rightarrow> Down | LinkDown \<Rightarrow> Down
          | _ \<Rightarrow> Full))"

record Neighbor =
  n_router_id :: Ip4
  n_state :: NeighborState
  n_master :: bool
  n_dd_sequence :: u32
  last_dd :: "DbdPacket option"
  pending_requests :: "LsaKey list"

definition Neighbor_new :: "Ip4 \<Rightarrow> Neighbor" where
  "Neighbor_new r =
     \<lparr>n_router_id = r, n_state = Down, n_master = False, n_dd_sequence = 0, last_dd = None, pending_requests = []\<rparr>"

definition on_event :: "NeighborEvent \<Rightarrow> Neighbor \<Rightarrow> NeighborState \<times> Neighbor" where
  "on_event event n =
     (let next = transition (n_state n) event;
          n' = (if next \<noteq> n_state n then
                  (if next = ExStart then n\<lparr>n_master := False, n_dd_sequence := 0, last_dd := None\<rparr> else n)
                    \<lparr>n_state := next\<rparr>
                else n)
      in (n_state n', n'))"

record NeighborTable =
  nt_neighbors :: "Ip4 \<Rightarrow> Neighbor option"

definition NeighborTable_new :: NeighborTable where
  "NeighborTable_new = \<lparr>nt_neighbors = Map.empty\<rparr>"

definition NeighborTable_get :: "NeighborTable \<Rightarrow> Ip4 \<Rightarrow> Neighbor option" where
  "NeighborTable_get t r = nt_neighbors t r"

definition NeighborTable_process :: "Ip4 \<Rightarrow> NeighborEvent \<Rightarrow> NeighborTable \<Rightarrow> NeighborState \<times> NeighborTable" where
  "NeighborTable_process r event t =
     (let n = (case nt_neighbors t r of None \<Rightarrow> Neighbor_new r | Some n \<Rightarrow> n);
          (s, n') = on_event event n
      in (s, t\<lparr>nt_neighbors := (nt_neighbors t)(r \<mapsto> n')\<rparr>))"

definition table_run :: "(Ip4 \<times> NeighborEvent) list \<Rightarrow> NeighborTable" where
  "table_run es = fold (\<lambda>(r, e) t. snd (NeighborTable_process r e t)) es NeighborTable_new"

section \<open>The table as independent machines\<close>

definition events_of :: "Ip4 \<Rightarrow> (Ip4 \<times> NeighborEvent) list \<Rightarrow> NeighborEvent list" where
  "events_of r es = map snd (filter (\<lambda>(k, _). k = r) es)"

abbreviation machine :: "NeighborEvent list \<Rightarrow> NeighborState" where
  "machine es \<equiv> foldl transition Down es"

lemma on_event_state: "n_state (snd (on_event e n)) = transition (n_state n) e"
  by (simp add: on_event_def Let_def)

lemma on_event_id: "n_router_id (snd (on_event e n)) = n_router_id n"
  by (simp add: on_event_def Let_def)

lemma table_run_snoc: "table_run (es @ [(r, e)]) = snd (NeighborTable_process r e (table_run es))"
  by (simp add: table_run_def)

lemma process_get:
  "NeighborTable_get (snd (NeighborTable_process r e t)) k =
     (if k = r then Some (snd (on_event e (case NeighborTable_get t r of None \<Rightarrow> Neighbor_new r | Some n \<Rightarrow> n)))
      else NeighborTable_get t k)"
  by (simp add: NeighborTable_process_def NeighborTable_get_def Let_def split_beta)

lemma table_machine:
  "case NeighborTable_get (table_run es) r of
     None \<Rightarrow> events_of r es = []
   | Some n \<Rightarrow> events_of r es \<noteq> [] \<and> n_router_id n = r \<and> n_state n = machine (events_of r es)"
proof (induction es rule: rev_induct)
  case Nil
  then show ?case by (simp add: table_run_def NeighborTable_new_def NeighborTable_get_def events_of_def)
next
  case (snoc x es)
  obtain k e where x: "x = (k, e)" by force
  show ?case
    using snoc
    by (cases "k = r"; cases "NeighborTable_get (table_run es) r")
      (auto simp: x table_run_snoc process_get events_of_def on_event_state on_event_id Neighbor_new_def)
qed

section \<open>What an adjacency presupposes\<close>

definition resets :: "NeighborEvent \<Rightarrow> bool" where
  "resets e \<longleftrightarrow> e \<in> {OneWayReceived, TwoWayReceived False, InactivityTimer, KillNeighbor, LinkDown}"

text \<open>The events so far end with a negotiation in \<open>ExStart\<close> and no reset after it.\<close>

definition negotiated :: "NeighborEvent list \<Rightarrow> NeighborEvent list \<Rightarrow> bool" where
  "negotiated es mid \<longleftrightarrow> (\<exists>pre. es = pre @ NegotiationDone # mid \<and> machine pre = ExStart \<and> list_all (\<lambda>e. \<not> resets e) mid)"

lemma negotiated_snoc: "negotiated es mid \<Longrightarrow> \<not> resets e \<Longrightarrow> negotiated (es @ [e]) (mid @ [e])"
  unfolding negotiated_def by auto

lemma into_exchange: "transition s e = Exchange \<Longrightarrow> s = Exchange \<and> \<not> resets e \<or> s = ExStart \<and> e = NegotiationDone"
  by (cases s; cases e) (auto simp: transition_def resets_def split: if_splits)

lemma into_sync:
  "transition s e \<in> {Loading, Full} \<Longrightarrow>
     \<not> resets e \<and> (s \<in> {Loading, Full} \<or> s = Exchange \<and> (\<exists>p. e = ExchangeDone p))"
  by (cases s; cases e) (auto simp: transition_def resets_def split: if_splits)

lemma into_adjacency:
  "transition s e \<in> {ExStart, Exchange, Loading, Full} \<Longrightarrow>
     s \<in> {ExStart, Exchange, Loading, Full} \<or> s \<in> {Init, TwoWay} \<and> e = TwoWayReceived True"
  by (cases s; cases e) (auto simp: transition_def split: if_splits)

lemma out_of_down: "transition s e \<notin> {Down, Attempt} \<Longrightarrow> s \<notin> {Down, Attempt} \<or> e = HelloReceived"
  by (cases s; cases e) (auto simp: transition_def split: if_splits)

lemma hello_history: "machine es \<notin> {Down, Attempt} \<Longrightarrow> HelloReceived \<in> set es"
proof (induction es rule: rev_induct)
  case (snoc e es)
  then show ?case using out_of_down [of "machine es" e] by auto
qed simp

lemma two_way_history:
  "machine es \<in> {ExStart, Exchange, Loading, Full} \<Longrightarrow> subseq [HelloReceived, TwoWayReceived True] es"
proof (induction es rule: rev_induct)
  case (snoc e es)
  show ?case
  proof (cases "machine es \<in> {ExStart, Exchange, Loading, Full}")
    case True
    then show ?thesis using snoc.IH by (blast intro: subseq_rev_drop_many)
  next
    case False
    then have "machine es \<notin> {Down, Attempt}" "e = TwoWayReceived True"
      using into_adjacency [of "machine es" e] snoc.prems by auto
    then have "subseq [HelloReceived] es" "e = TwoWayReceived True" using hello_history by (simp_all add: subseq_singleton_left)
    then show ?thesis using list_emb_append_mono [of "(=)" "[HelloReceived]" es "[e]" "[e]"] by simp
  qed
qed simp

lemma exchange_history: "machine es = Exchange \<Longrightarrow> \<exists>mid. negotiated es mid"
proof (induction es rule: rev_induct)
  case (snoc e es)
  from snoc.prems have "transition (machine es) e = Exchange" by simp
  from into_exchange [OF this] show ?case
  proof
    assume "machine es = Exchange \<and> \<not> resets e"
    then show ?thesis using snoc.IH negotiated_snoc by blast
  next
    assume "machine es = ExStart \<and> e = NegotiationDone"
    then have "negotiated (es @ [e]) []" by (simp add: negotiated_def)
    then show ?thesis ..
  qed
qed simp

lemma synchronised_history:
  "machine es \<in> {Loading, Full} \<Longrightarrow> \<exists>mid p. negotiated es mid \<and> ExchangeDone p \<in> set mid"
proof (induction es rule: rev_induct)
  case (snoc e es)
  from snoc.prems have "transition (machine es) e \<in> {Loading, Full}" by simp
  from into_sync [OF this] have ok: "\<not> resets e"
    and c: "machine es \<in> {Loading, Full} \<or> machine es = Exchange \<and> (\<exists>p. e = ExchangeDone p)" by blast+
  from c show ?case
  proof
    assume "machine es \<in> {Loading, Full}"
    then obtain mid p where "negotiated es mid" "ExchangeDone p \<in> set mid" using snoc.IH by blast
    then have "negotiated (es @ [e]) (mid @ [e])" "ExchangeDone p \<in> set (mid @ [e])" using negotiated_snoc ok by auto
    then show ?thesis by blast
  next
    assume x: "machine es = Exchange \<and> (\<exists>p. e = ExchangeDone p)"
    then obtain mid where "negotiated es mid" using exchange_history by blast
    then have "negotiated (es @ [e]) (mid @ [e])" using negotiated_snoc ok by blast
    with x show ?thesis by fastforce
  qed
qed simp



section \<open>Leaving Loading\<close>

text \<open>
  The event that reports the end of the loading phase never changes the state, so a neighbor in
  \<open>Loading\<close> becomes adjacent only through a further \<open>ExchangeDone\<close>, however many times the
  requested LSAs are reported complete.
\<close>

theorem loading_done_ignored:
  "transition s LoadingDone = s \<and> (foldl transition Loading es = Full \<longrightarrow> (\<exists>p. ExchangeDone p \<in> set es))"
proof -
  have "foldl transition s es = Full \<longrightarrow> s = Full \<or> (\<exists>p. ExchangeDone p \<in> set es)" for s
  proof (induction es arbitrary: s)
    case (Cons e es)
    have "transition s e = Full \<Longrightarrow> s = Full \<or> (\<exists>p. e = ExchangeDone p)"
      by (cases s; cases e) (auto simp: transition_def split: if_splits)
    then show ?case using Cons.IH [of "transition s e"] by auto
  qed simp
  moreover have "transition s LoadingDone = s" by (cases s) (simp_all add: transition_def)
  ultimately show ?thesis by blast
qed

theorem loading_done_ignored_witness:
  "foldl transition Loading [HelloReceived, LoadingDone, LoadingDone] \<noteq> Full \<and> transition Loading LoadingDone = Loading"
  using loading_done_ignored [of Loading "[HelloReceived, LoadingDone, LoadingDone]"] by simp

end
