(* ===== verification/Ospf_Spf.thy ===== *)
theory Ospf_Spf
  imports Ospf_Lsa "HOL-Library.Finite_Map" "HOL-Library.List_Lexorder" "HOL-Library.Product_Lexorder"
begin

text \<open>
  The shortest-path-first calculation of \<^verbatim>\<open>tpt-ospf/src/spf.rs\<close>: Dijkstra's algorithm with a heap of
  candidates from which outdated entries are skipped. The specification is the weighted
  graph the LSAs describe and the costs of its paths. The hash maps are finite maps, which
  bounds the number of iterations; \<open>next_hop[&node]\<close> panics on a missing key, which is \<open>None\<close>.
\<close>

datatype OspfError =
    LsaTooOld u32 u32
  | SpfRootMissing Ip4
  | InvalidNeighborEvent string string

datatype Node = RouterN Ip4 | NetworkN Ip4

text \<open>The derived order of \<open>Node\<close>: by variant, then by address.\<close>

instantiation Node :: linorder
begin

definition less_eq_Node :: "Node \<Rightarrow> Node \<Rightarrow> bool" where
  "less_eq_Node a b =
     (case (a, b) of
        (RouterN x, RouterN y) \<Rightarrow> x \<le> y
      | (RouterN _, NetworkN _) \<Rightarrow> True
      | (NetworkN _, RouterN _) \<Rightarrow> False
      | (NetworkN x, NetworkN y) \<Rightarrow> x \<le> y)"

definition less_Node :: "Node \<Rightarrow> Node \<Rightarrow> bool" where
  "less_Node a b \<longleftrightarrow> a \<le> b \<and> \<not> b \<le> (a :: Node)"

instance
  by standard (auto simp: less_eq_Node_def less_Node_def split: Node.splits)

end

record Route =
  destination :: Ip4
  rt_next_hop :: Ip4
  cost :: u32

record StubRoute =
  sr_network :: Ip4
  sr_mask :: Ip4
  sr_next_hop :: Ip4
  sr_cost :: u32

record RoutingTable =
  router_routes :: "Ip4 \<Rightarrow> Route option"
  stub_routes :: "StubRoute list"
  tree_order :: "Ip4 list"

definition route_to :: "RoutingTable \<Rightarrow> Ip4 \<Rightarrow> Route option" where
  "route_to t r = router_routes t r"

definition RoutingTable_next_hop :: "RoutingTable \<Rightarrow> Ip4 \<Rightarrow> Ip4 option" where
  "RoutingTable_next_hop t r = map_option rt_next_hop (router_routes t r)"

definition cost_to :: "RoutingTable \<Rightarrow> Ip4 \<Rightarrow> u32 option" where
  "cost_to t r = map_option cost (router_routes t r)"

record Spf =
  spf_root :: "Ip4 option"
  routers :: "(Ip4, RouterLsa) fmap"
  networks :: "(Ip4, NetworkLsa) fmap"

definition Spf_new :: "Ip4 \<Rightarrow> Spf" where
  "Spf_new r = \<lparr>spf_root = Some r, routers = fmempty, networks = fmempty\<rparr>"

definition add_router_lsa :: "RouterLsa \<Rightarrow> Spf \<Rightarrow> Spf" where
  "add_router_lsa l s = s\<lparr>routers := fmupd (advertising_router (rl_header l)) l (routers s)\<rparr>"

definition add_network_lsa :: "NetworkLsa \<Rightarrow> Spf \<Rightarrow> Spf" where
  "add_network_lsa l s = s\<lparr>networks := fmupd (link_state_id (nl_header l)) l (networks s)\<rparr>"

section \<open>The candidate heap\<close>

type_synonym entry = "(u32 \<times> u8) \<times> Node"

text \<open>\<open>BinaryHeap::pop\<close> returns the greatest entry: the smallest reversed key, then the greatest node.\<close>

definition above :: "entry \<Rightarrow> entry \<Rightarrow> bool" where
  "above x y \<longleftrightarrow> fst x < fst y \<or> fst x = fst y \<and> snd y < snd x"

definition heap_pop :: "entry list \<Rightarrow> (entry \<times> entry list) option" where
  "heap_pop h =
     (case h of
        [] \<Rightarrow> None
      | x # xs \<Rightarrow> let m = foldl (\<lambda>m e. if above e m then e else m) x xs in Some (m, remove1 m h))"

section \<open>The calculation\<close>

record SpfState =
  dist :: "Node \<Rightarrow> u32 option"
  hop :: "Node \<Rightarrow> Ip4 option"
  in_tree :: "Node set"
  order :: "Ip4 list"
  stubs :: "StubRoute list"
  heap :: "entry list"

text \<open>The body of the three candidate updates: the next hop is only looked up when the test succeeds.\<close>

definition relax :: "u8 \<Rightarrow> Node \<Rightarrow> u32 \<Rightarrow> Ip4 option \<Rightarrow> SpfState \<Rightarrow> SpfState option" where
  "relax tag v c nh st =
     (if v \<notin> in_tree st \<and> c < (case dist st v of None \<Rightarrow> 0xFFFFFFFF | Some x \<Rightarrow> x) then
        (case nh of
           None \<Rightarrow> None
         | Some h \<Rightarrow> Some (st\<lparr>dist := (dist st)(v \<mapsto> c), hop := (hop st)(v \<mapsto> h), heap := ((c, tag), v) # heap st\<rparr>))
      else Some st)"

definition process_link :: "Ip4 \<Rightarrow> Ip4 \<Rightarrow> u32 \<Rightarrow> RouterLink \<Rightarrow> SpfState \<Rightarrow> SpfState option" where
  "process_link root r d link st =
     (let link_cost = d + ucast (metric link) in
      if link_type link = 1 then
        relax 0 (RouterN (link_id link)) link_cost (if r = root then Some (link_id link) else hop st (RouterN r)) st
      else if link_type link = 2 then relax 1 (NetworkN (link_id link)) link_cost (hop st (RouterN r)) st
      else if link_type link = 3 then
        (case hop st (RouterN r) of
           None \<Rightarrow> None
         | Some h \<Rightarrow> Some (st\<lparr>stubs := stubs st @
             [\<lparr>sr_network = link_id link, sr_mask = link_data link, sr_next_hop = h, sr_cost = link_cost\<rparr>]\<rparr>))
      else Some st)"

definition process_attached :: "Ip4 \<Rightarrow> u32 \<Rightarrow> Ip4 \<Rightarrow> SpfState \<Rightarrow> SpfState option" where
  "process_attached n d ar st = relax 0 (RouterN ar) d (hop st (NetworkN n)) st"

text \<open>A \<open>for\<close> loop whose body may panic.\<close>

fun for_each :: "('x \<Rightarrow> 's \<Rightarrow> 's option) \<Rightarrow> 'x list \<Rightarrow> 's \<Rightarrow> 's option" where
  "for_each f [] s = Some s"
| "for_each f (x # xs) s = (case f x s of None \<Rightarrow> None | Some s' \<Rightarrow> for_each f xs s')"

text \<open>One node, already marked as in the tree.\<close>

fun visit :: "Spf \<Rightarrow> Ip4 \<Rightarrow> u32 \<Rightarrow> Node \<Rightarrow> SpfState \<Rightarrow> SpfState option" where
  "visit s root d (RouterN r) st =
     (let st1 = st\<lparr>order := order st @ [r]\<rparr> in
      case fmlookup (routers s) r of
        None \<Rightarrow> Some st1
      | Some rl \<Rightarrow> for_each (process_link root r d) (links rl) st1)"
| "visit s root d (NetworkN n) st =
     (case fmlookup (networks s) n of
        None \<Rightarrow> Some st
      | Some nl \<Rightarrow> for_each (process_attached n d) (attached_routers nl) st)"

fun outdeg :: "Spf \<Rightarrow> Node \<Rightarrow> nat" where
  "outdeg s (RouterN r) = (case fmlookup (routers s) r of None \<Rightarrow> 0 | Some rl \<Rightarrow> length (links rl))"
| "outdeg s (NetworkN n) = (case fmlookup (networks s) n of None \<Rightarrow> 0 | Some nl \<Rightarrow> length (attached_routers nl))"

definition nodes :: "Spf \<Rightarrow> Node set" where
  "nodes s = RouterN ` fset (fmdom (routers s)) \<union> NetworkN ` fset (fmdom (networks s))"

lemma finite_nodes [simp]: "finite (nodes s)"
  by (simp add: nodes_def)

lemma outdeg_outside: "v \<notin> nodes s \<Longrightarrow> outdeg s v = 0"
  by (cases v) (auto simp: nodes_def fmlookup_dom_iff split: option.split)

definition pending :: "Spf \<Rightarrow> SpfState \<Rightarrow> nat" where
  "pending s st = length (heap st) + (\<Sum>v\<in>nodes s - in_tree st. outdeg s v)"

lemma relax_grows: "relax tag v c nh st = Some st' \<Longrightarrow> in_tree st' = in_tree st \<and> length (heap st') \<le> Suc (length (heap st))"
  by (auto simp: relax_def split: if_splits option.splits)

lemma process_link_grows:
  "process_link root r d l st = Some st' \<Longrightarrow> in_tree st' = in_tree st \<and> length (heap st') \<le> Suc (length (heap st))"
  by (auto simp: process_link_def Let_def dest: relax_grows split: if_splits option.splits)

lemma process_attached_grows:
  "process_attached n d ar st = Some st' \<Longrightarrow> in_tree st' = in_tree st \<and> length (heap st') \<le> Suc (length (heap st))"
  unfolding process_attached_def by (rule relax_grows)

lemma for_each_grows:
  assumes "\<And>x st st'. f x st = Some st' \<Longrightarrow> in_tree st' = in_tree st \<and> length (heap st') \<le> Suc (length (heap st))"
    and "for_each f xs st = Some st'"
  shows "in_tree st' = in_tree st \<and> length (heap st') \<le> length xs + length (heap st)"
  using assms(2)
proof (induction xs arbitrary: st)
  case (Cons x xs)
  then obtain s1 where s1: "f x st = Some s1" "for_each f xs s1 = Some st'" by (auto split: option.splits)
  show ?case using Cons.IH [OF s1(2)] assms(1) [OF s1(1)] by simp
qed simp

lemma visit_grows:
  "visit s root d v st = Some st' \<Longrightarrow> in_tree st' = in_tree st \<and> length (heap st') \<le> outdeg s v + length (heap st)"
proof (cases v)
  case (RouterN r)
  assume "visit s root d v st = Some st'"
  then show ?thesis
    using RouterN for_each_grows [of "process_link root r d", OF process_link_grows]
    by (fastforce split: option.splits simp: Let_def)
next
  case (NetworkN n)
  assume "visit s root d v st = Some st'"
  then show ?thesis
    using NetworkN for_each_grows [of "process_attached n d", OF process_attached_grows]
    by (fastforce split: option.splits)
qed

lemma pick_least:
  "foldl (\<lambda>m e. if above e m then e else m) x xs \<in> insert x (set xs) \<and>
   (\<forall>y\<in>insert x (set xs). fst (foldl (\<lambda>m e. if above e m then e else m) x xs) \<le> fst y)"
proof (induction xs arbitrary: x)
  case (Cons e xs)
  have "fst (if above e x then e else x) \<le> fst e \<and> fst (if above e x then e else x) \<le> fst x"
    by (auto simp: above_def)
  then show ?case using Cons.IH [of "if above e x then e else x"] by fastforce
qed simp

lemma heap_pop_None: "heap_pop h = None \<longleftrightarrow> h = []"
  by (simp add: heap_pop_def Let_def split: list.split)

lemma heap_pop_Some:
  assumes "heap_pop h = Some (e, h')"
  shows "e \<in> set h" and "h' = remove1 e h" and "x \<in> set h \<Longrightarrow> fst e \<le> fst x" and "length h = Suc (length h')"
proof -
  obtain y ys where h: "h = y # ys" using assms by (cases h) (simp_all add: heap_pop_def)
  have e: "e = foldl (\<lambda>m e. if above e m then e else m) y ys" and h': "h' = remove1 e h"
    using assms by (auto simp: heap_pop_def h Let_def)
  show m: "e \<in> set h" "x \<in> set h \<Longrightarrow> fst e \<le> fst x" using pick_least [of y ys] by (auto simp: h simp flip: e)
  show "h' = remove1 e h" by (rule h')
  then show "length h = Suc (length h')" using m(1) length_pos_if_in_set [OF m(1)] by (simp add: length_remove1)
qed

lemma pending_visit:
  assumes "heap_pop (heap st) = Some (e, h)" and "v \<notin> in_tree st"
    and "visit s root d v (st\<lparr>heap := h, in_tree := insert v (in_tree st)\<rparr>) = Some st'"
  shows "pending s st' < pending s st"
proof -
  let ?R = "nodes s - in_tree st"
  note g = visit_grows [OF assms(3)]
  have "nodes s - insert v (in_tree st) = ?R - {v}" by auto
  then have "pending s st' \<le> outdeg s v + length h + (\<Sum>v\<in>?R - {v}. outdeg s v)" using g by (simp add: pending_def)
  also have "outdeg s v + length h + (\<Sum>v\<in>?R - {v}. outdeg s v) = length h + (\<Sum>v\<in>?R. outdeg s v)"
    using assms(2) outdeg_outside [of v s] sum.remove [of ?R v "outdeg s"] by (cases "v \<in> nodes s") auto
  also have "\<dots> < pending s st" using heap_pop_Some(4) [OF assms(1)] by (simp add: pending_def)
  finally show ?thesis .
qed

function spf_loop :: "Spf \<Rightarrow> Ip4 \<Rightarrow> SpfState \<Rightarrow> SpfState option" where
  "spf_loop s root st =
     (case heap_pop (heap st) of
        None \<Rightarrow> Some st
      | Some (((d, _), node), h) \<Rightarrow>
          if node \<in> in_tree st then spf_loop s root (st\<lparr>heap := h\<rparr>)
          else
            case visit s root d node (st\<lparr>heap := h, in_tree := insert node (in_tree st)\<rparr>) of
              None \<Rightarrow> None
            | Some st' \<Rightarrow> spf_loop s root st')"
  by pat_completeness auto

termination
  by (relation "measure (\<lambda>(s, root, st). pending s st)")
    (auto dest: heap_pop_Some(4) simp: pending_def intro: pending_visit [unfolded pending_def])

declare spf_loop.simps [simp del]

definition spf_init :: "Ip4 \<Rightarrow> SpfState" where
  "spf_init root =
     \<lparr>dist = [RouterN root \<mapsto> 0], hop = [RouterN root \<mapsto> root], in_tree = {}, order = [], stubs = [],
      heap = [((0, 0), RouterN root)]\<rparr>"

definition routing_table :: "SpfState \<Rightarrow> RoutingTable" where
  "routing_table st =
     \<lparr>router_routes = (\<lambda>r. map_option (\<lambda>h. \<lparr>destination = r, rt_next_hop = h,
        cost = (case dist st (RouterN r) of None \<Rightarrow> 0 | Some c \<Rightarrow> c)\<rparr>) (hop st (RouterN r))),
      stub_routes = stubs st, tree_order = order st\<rparr>"

definition calculate :: "Spf \<Rightarrow> OspfError failure + RoutingTable" where
  "calculate s =
     (case spf_root s of
        None \<Rightarrow> Inl (Err (SpfRootMissing [0, 0, 0, 0]))
      | Some root \<Rightarrow>
          if fmlookup (routers s) root = None then Inl (Err (SpfRootMissing root))
          else
            case spf_loop s root (spf_init root) of
              None \<Rightarrow> Inl Panic
            | Some st \<Rightarrow> Inr (routing_table st))"

end
