(* ===== verification/Ospf_Spf_Correct.thy ===== *)
theory Ospf_Spf_Correct
  imports Ospf_Spf
begin

text \<open>
  Correctness of the calculation in \<open>Ospf_Spf\<close>. The invariant of the loop: every tentative cost is the
  cost of a path, every candidate outside the tree has its current cost in the heap, the tree
  costs are at most every candidate's, and the edges that leave the tree are relaxed.
\<close>

section \<open>The graph of the LSAs\<close>

inductive edge :: "Spf \<Rightarrow> Node \<Rightarrow> Node \<Rightarrow> nat \<Rightarrow> bool" for s :: Spf where
  point_to_point: "fmlookup (routers s) r = Some rl \<Longrightarrow> l \<in> set (links rl) \<Longrightarrow> link_type l = 1 \<Longrightarrow>
    edge s (RouterN r) (RouterN (link_id l)) (unat (metric l))"
| transit: "fmlookup (routers s) r = Some rl \<Longrightarrow> l \<in> set (links rl) \<Longrightarrow> link_type l = 2 \<Longrightarrow>
    edge s (RouterN r) (NetworkN (link_id l)) (unat (metric l))"
| attached: "fmlookup (networks s) n = Some nl \<Longrightarrow> x \<in> set (attached_routers nl) \<Longrightarrow> edge s (NetworkN n) (RouterN x) 0"

inductive_cases edge_routerE: "edge s (RouterN r) v w"
inductive_cases edge_networkE: "edge s (NetworkN n) v w"

text \<open>The next hop a step hands on: the neighbour itself on a point-to-point link of the root.\<close>

fun step_hop :: "Ip4 \<Rightarrow> Node \<Rightarrow> Node \<Rightarrow> Ip4 \<Rightarrow> Ip4" where
  "step_hop root (RouterN r) (RouterN x) h = (if r = root then x else h)"
| "step_hop root _ _ h = h"

inductive spf_path :: "Spf \<Rightarrow> Ip4 \<Rightarrow> Node \<Rightarrow> nat \<Rightarrow> Ip4 \<Rightarrow> bool" for s :: Spf and root :: Ip4 where
  start: "spf_path s root (RouterN root) 0 root"
| step: "spf_path s root u c h \<Longrightarrow> edge s u v w \<Longrightarrow> spf_path s root v (c + w) (step_hop root u v h)"

section \<open>The invariant\<close>

definition visited :: "Spf \<Rightarrow> SpfState \<Rightarrow> nat" where
  "visited s st = card {r \<in> fset (fmdom (routers s)). RouterN r \<in> in_tree st}"

definition stub_of :: "SpfState \<Rightarrow> Ip4 \<Rightarrow> RouterLink \<Rightarrow> StubRoute" where
  "stub_of st r l = \<lparr>sr_network = link_id l, sr_mask = link_data l, sr_next_hop = the (hop st (RouterN r)),
     sr_cost = the (dist st (RouterN r)) + ucast (metric l)\<rparr>"

definition stub_link :: "Spf \<Rightarrow> Ip4 \<Rightarrow> RouterLink \<Rightarrow> bool" where
  "stub_link s r l \<longleftrightarrow> (\<exists>rl. fmlookup (routers s) r = Some rl \<and> l \<in> set (links rl) \<and> link_type l = 3)"

definition stub_ok :: "Spf \<Rightarrow> SpfState \<Rightarrow> StubRoute \<Rightarrow> bool" where
  "stub_ok s st x \<longleftrightarrow> (\<exists>r l. RouterN r \<in> in_tree st \<and> stub_link s r l \<and> x = stub_of st r l)"

definition core :: "Spf \<Rightarrow> Ip4 \<Rightarrow> SpfState \<Rightarrow> bool" where
  "core s root st \<longleftrightarrow>
     (\<forall>v c. dist st v = Some c \<longrightarrow> (\<exists>h. hop st v = Some h \<and> spf_path s root v (unat c) h)) \<and>
     (\<forall>v. dist st v = None \<longrightarrow> hop st v = None) \<and>
     dist st (RouterN root) = Some 0 \<and>
     (\<forall>v\<in>in_tree st. \<exists>c. dist st v = Some c) \<and>
     (\<forall>v c. v \<notin> in_tree st \<longrightarrow> dist st v = Some c \<longrightarrow> (\<exists>t. ((c, t), v) \<in> set (heap st))) \<and>
     (\<forall>c t v. ((c, t), v) \<in> set (heap st) \<longrightarrow> (\<exists>c'. dist st v = Some c' \<and> c' \<le> c)) \<and>
     (\<forall>u a c t v. u \<in> in_tree st \<longrightarrow> dist st u = Some a \<longrightarrow> ((c, t), v) \<in> set (heap st) \<longrightarrow> v \<notin> in_tree st \<longrightarrow> a \<le> c) \<and>
     (\<forall>v c. dist st v = Some c \<longrightarrow> unat c \<le> 65535 * visited s st) \<and>
     (\<forall>x\<in>set (stubs st). stub_ok s st x)"

lemma coreD:
  assumes "core s root st"
  shows "dist st v = Some c \<Longrightarrow> \<exists>h. hop st v = Some h \<and> spf_path s root v (unat c) h"
    and "dist st v = None \<Longrightarrow> hop st v = None"
    and "dist st (RouterN root) = Some 0"
    and "v \<in> in_tree st \<Longrightarrow> \<exists>c. dist st v = Some c"
    and "v \<notin> in_tree st \<Longrightarrow> dist st v = Some c \<Longrightarrow> \<exists>t. ((c, t), v) \<in> set (heap st)"
    and "((c, t), v) \<in> set (heap st) \<Longrightarrow> \<exists>c'. dist st v = Some c' \<and> c' \<le> c"
    and "u \<in> in_tree st \<Longrightarrow> dist st u = Some a \<Longrightarrow> ((c, t), v) \<in> set (heap st) \<Longrightarrow> v \<notin> in_tree st \<Longrightarrow> a \<le> c"
    and "dist st v = Some c \<Longrightarrow> unat c \<le> 65535 * visited s st"
    and "x \<in> set (stubs st) \<Longrightarrow> stub_ok s st x"
  using assms unfolding core_def by blast+

text \<open>What a candidate update leaves alone: the tree with its costs and hops; other costs only fall.\<close>

definition agree :: "SpfState \<Rightarrow> SpfState \<Rightarrow> bool" where
  "agree st st' \<longleftrightarrow> in_tree st' = in_tree st \<and> order st' = order st \<and> set (stubs st) \<subseteq> set (stubs st') \<and>
     (\<forall>u\<in>in_tree st. dist st' u = dist st u \<and> hop st' u = hop st u) \<and>
     (\<forall>x c. dist st x = Some c \<longrightarrow> (\<exists>c'. dist st' x = Some c' \<and> c' \<le> c))"

lemma agree_dist: "agree st st' \<Longrightarrow> dist st x = Some c \<Longrightarrow> \<exists>c'. dist st' x = Some c' \<and> c' \<le> c"
  unfolding agree_def by blast

lemma agree_refl [simp]: "agree st st"
  by (auto simp: agree_def)

lemma agree_trans: "agree a b \<Longrightarrow> agree b c \<Longrightarrow> agree a c"
  unfolding agree_def by (auto, metis order_trans)

lemma agree_stub: "agree st st' \<Longrightarrow> RouterN r \<in> in_tree st \<Longrightarrow> stub_of st' r l = stub_of st r l"
  by (simp add: agree_def stub_of_def)

lemma agree_stub_ok:
  assumes "agree st st'" and "stub_ok s st x"
  shows "stub_ok s st' x"
proof -
  obtain r l where r: "RouterN r \<in> in_tree st" "stub_link s r l" "x = stub_of st r l" using assms(2) by (auto simp: stub_ok_def)
  moreover have "RouterN r \<in> in_tree st'" using assms(1) r(1) by (simp add: agree_def)
  moreover have "stub_of st r l = stub_of st' r l" using agree_stub [OF assms(1) r(1)] by simp
  ultimately show ?thesis unfolding stub_ok_def by metis
qed

lemma relax_core:
  assumes core: "core s root st" and path: "spf_path s root v (unat c) h"
    and tree: "\<forall>u\<in>in_tree st. \<forall>a. dist st u = Some a \<longrightarrow> a \<le> c"
    and bound: "unat c \<le> 65535 * visited s st" "c < 0xFFFFFFFF"
  obtains st' c' where "relax tag v c (Some h) st = Some st'" "core s root st'" "agree st st'" "dist st' v = Some c'" "c' \<le> c"
proof (cases "v \<notin> in_tree st \<and> c < (case dist st v of None \<Rightarrow> 0xFFFFFFFF | Some x \<Rightarrow> x)")
  case False
  have "\<exists>c'. dist st v = Some c' \<and> c' \<le> c"
  proof (cases "v \<in> in_tree st")
    case True
    then show ?thesis using tree coreD(4) [OF core] by blast
  next
    case out: False
    then show ?thesis using False bound(2) by (cases "dist st v") auto
  qed
  then obtain c' where "dist st v = Some c'" "c' \<le> c" by blast
  moreover have "relax tag v c (Some h) st = Some st" unfolding relax_def using False by (simp only: if_False)
  ultimately show ?thesis using that [of st c'] core by simp
next
  case True
  let ?st = "st\<lparr>dist := (dist st)(v \<mapsto> c), hop := (hop st)(v \<mapsto> h), heap := ((c, tag), v) # heap st\<rparr>"
  have less: "c \<le> x" if "dist st v = Some x" for x using True that by (simp add: order_less_imp_le)
  have ag: "agree st ?st" using True less by (auto simp: agree_def)
  have "core s root ?st"
    unfolding core_def
  proof (intro conjI allI impI ballI)
    fix x assume "x \<in> set (stubs ?st)"
    then show "stub_ok s ?st x" using coreD(9) [OF core, of x] agree_stub_ok [OF ag] by simp
  next
    fix x y assume "dist ?st x = Some y"
    then show "unat y \<le> 65535 * visited s ?st"
      using coreD(8) [OF core, of x y] bound(1) by (auto simp: visited_def split: if_splits)
  next
    fix u a y t x
    assume "u \<in> in_tree ?st" "dist ?st u = Some a" "((y, t), x) \<in> set (heap ?st)" "x \<notin> in_tree ?st"
    then show "a \<le> y" using coreD(7) [OF core, of u a y t x] tree True by (auto split: if_splits)
  next
    fix y t x assume "((y, t), x) \<in> set (heap ?st)"
    then show "\<exists>c'. dist ?st x = Some c' \<and> c' \<le> y"
      using coreD(6) [OF core, of y t x] less by (auto intro: order_trans)
  qed (use core path True in \<open>auto simp: core_def split: if_splits\<close>)
  then show ?thesis using that [of ?st c] ag True by (simp add: relax_def)
qed

section \<open>Visiting a node\<close>

definition settled :: "SpfState \<Rightarrow> Node \<Rightarrow> Node \<Rightarrow> nat \<Rightarrow> bool" where
  "settled st u v w \<longleftrightarrow> (\<exists>a b. dist st u = Some a \<and> dist st v = Some b \<and> unat b \<le> unat a + w)"

definition link_done :: "SpfState \<Rightarrow> Ip4 \<Rightarrow> RouterLink \<Rightarrow> bool" where
  "link_done st r l \<longleftrightarrow>
     (link_type l = 1 \<longrightarrow> settled st (RouterN r) (RouterN (link_id l)) (unat (metric l))) \<and>
     (link_type l = 2 \<longrightarrow> settled st (RouterN r) (NetworkN (link_id l)) (unat (metric l))) \<and>
     (link_type l = 3 \<longrightarrow> stub_of st r l \<in> set (stubs st))"

definition finished :: "Spf \<Rightarrow> SpfState \<Rightarrow> Node \<Rightarrow> bool" where
  "finished s st u \<longleftrightarrow> (\<forall>v w. edge s u v w \<longrightarrow> settled st u v w) \<and>
     (\<forall>r l. u = RouterN r \<longrightarrow> stub_link s r l \<longrightarrow> stub_of st r l \<in> set (stubs st))"

definition visiting :: "Spf \<Rightarrow> Ip4 \<Rightarrow> Node \<Rightarrow> u32 \<Rightarrow> SpfState \<Rightarrow> bool" where
  "visiting s root u d st \<longleftrightarrow> core s root st \<and> u \<in> in_tree st \<and> dist st u = Some d \<and>
     (\<forall>x\<in>in_tree st. \<forall>a. dist st x = Some a \<longrightarrow> a \<le> d) \<and>
     (u \<in> RouterN ` fset (fmdom (routers s)) \<longrightarrow> unat d + 65535 \<le> 65535 * visited s st)"

lemma settled_agree:
  assumes "agree st st'" "u \<in> in_tree st" "settled st u v w"
  shows "settled st' u v w"
proof -
  obtain a b where ab: "dist st u = Some a" "dist st v = Some b" "unat b \<le> unat a + w" using assms(3) by (auto simp: settled_def)
  then obtain b' where "dist st' v = Some b'" "b' \<le> b" using agree_dist [OF assms(1)] by blast
  moreover have "dist st' u = Some a" using assms(1, 2) ab(1) by (simp add: agree_def)
  ultimately show ?thesis using ab(3) by (auto simp: settled_def word_le_nat_alt)
qed

lemma stub_agree:
  assumes "agree st st'" "RouterN r \<in> in_tree st" "stub_of st r l \<in> set (stubs st)"
  shows "stub_of st' r l \<in> set (stubs st')"
  using assms agree_stub [OF assms(1, 2)] by (auto simp: agree_def)

lemma link_done_agree: "agree st st' \<Longrightarrow> RouterN r \<in> in_tree st \<Longrightarrow> link_done st r l \<Longrightarrow> link_done st' r l"
  unfolding link_done_def using settled_agree stub_agree by blast

lemma finished_agree:
  assumes "agree st st'" "u \<in> in_tree st" "finished s st u"
  shows "finished s st' u"
  using assms(2, 3) settled_agree [OF assms(1, 2)] stub_agree [OF assms(1)] by (auto simp: finished_def)

lemma visiting_agree: "visiting s root u d st \<Longrightarrow> agree st st' \<Longrightarrow> core s root st' \<Longrightarrow> visiting s root u d st'"
  by (auto simp: visiting_def agree_def visited_def)

lemma visited_bound: "visited s st \<le> fcard (fmdom (routers s))"
  unfolding visited_def fcard.rep_eq by (rule card_mono) auto

lemma relax_visiting:
  assumes "visiting s root u d st" and "edge s u v w" and "unat c = unat d + w"
    and "unat c \<le> 65535 * visited s st" and "fcard (fmdom (routers s)) \<le> 65536"
    and "hop st u = Some h"
  obtains st' where "relax tag v c (Some (step_hop root u v h)) st = Some st'" "visiting s root u d st'" "agree st st'" "settled st' u v w"
proof -
  have core: "core s root st" and d: "dist st u = Some d" and u: "u \<in> in_tree st"
    and mx: "\<And>x a. x \<in> in_tree st \<Longrightarrow> dist st x = Some a \<Longrightarrow> a \<le> d"
    using assms(1) by (auto simp: visiting_def)
  have "spf_path s root u (unat d) h" using coreD(1) [OF core d] assms(6) by simp
  then have path: "spf_path s root v (unat c) (step_hop root u v h)" using spf_path.step [OF _ assms(2)] assms(3) by metis
  have "unat c \<le> 65535 * 65536" using assms(4, 5) visited_bound [of s st] by linarith
  then have lt: "c < 0xFFFFFFFF" by (simp add: word_less_nat_alt)
  have "d \<le> c" using assms(3) by (simp add: word_le_nat_alt)
  then have tree: "\<forall>x\<in>in_tree st. \<forall>a. dist st x = Some a \<longrightarrow> a \<le> c" using mx order_trans by blast
  obtain st' c' where r: "relax tag v c (Some (step_hop root u v h)) st = Some st'" "core s root st'" "agree st st'"
      "dist st' v = Some c'" "c' \<le> c"
    using relax_core [OF core path tree assms(4) lt] by blast
  have "dist st' u = Some d" using r(3) u d by (simp add: agree_def)
  then have "settled st' u v w" using r(4, 5) assms(3) by (auto simp: settled_def word_le_nat_alt)
  then show ?thesis using that [OF r(1) visiting_agree [OF assms(1) r(3, 2)] r(3)] by simp
qed

lemma process_link_visiting:
  assumes v: "visiting s root (RouterN r) d st" and l: "fmlookup (routers s) r = Some rl" "l \<in> set (links rl)"
    and fc: "fcard (fmdom (routers s)) \<le> 65536"
  shows "\<exists>st'. process_link root r d l st = Some st' \<and> visiting s root (RouterN r) d st' \<and> agree st st' \<and> link_done st' r l"
proof -
  let ?c = "d + ucast (metric l) :: u32"
  have core: "core s root st" and d: "dist st (RouterN r) = Some d" and u: "RouterN r \<in> in_tree st"
    and room: "unat d + 65535 \<le> 65535 * visited s st"
    using v l(1) by (auto simp: visiting_def fmlookup_dom_iff image_iff)
  obtain h where h: "hop st (RouterN r) = Some h" using coreD(1) [OF core d] by blast
  have "65535 * visited s st \<le> 65535 * 65536" using visited_bound [of s st] fc by linarith
  moreover have m: "unat (metric l) < 65536" using unat_less_power [of "metric l"] by simp
  ultimately have c: "unat ?c = unat d + unat (metric l)"
    using room by (subst unat_word_ariths) (simp add: unsigned_ucast_eq take_bit_nat_eq_self)
  have b: "unat ?c \<le> 65535 * visited s st" using room m c by linarith
  consider "link_type l = 1" | "link_type l = 2" | "link_type l = 3" | "link_type l \<notin> {1, 2, 3}" by blast
  then show ?thesis
  proof cases
    case 1
    obtain st' where "relax 0 (RouterN (link_id l)) ?c (Some (step_hop root (RouterN r) (RouterN (link_id l)) h)) st = Some st'"
        "visiting s root (RouterN r) d st'" "agree st st'" "settled st' (RouterN r) (RouterN (link_id l)) (unat (metric l))"
      by (rule relax_visiting [OF v edge.point_to_point [OF l 1] c b fc h])
    with 1 h show ?thesis by (auto simp: process_link_def link_done_def Let_def split: if_splits)
  next
    case 2
    obtain st' where "relax 1 (NetworkN (link_id l)) ?c (Some (step_hop root (RouterN r) (NetworkN (link_id l)) h)) st = Some st'"
        "visiting s root (RouterN r) d st'" "agree st st'" "settled st' (RouterN r) (NetworkN (link_id l)) (unat (metric l))"
      by (rule relax_visiting [OF v edge.transit [OF l 2] c b fc h])
    with 2 h show ?thesis by (auto simp: process_link_def link_done_def Let_def)
  next
    case 3
    let ?st = "st\<lparr>stubs := stubs st @ [\<lparr>sr_network = link_id l, sr_mask = link_data l, sr_next_hop = h, sr_cost = ?c\<rparr>]\<rparr>"
    have ag: "agree st ?st" by (auto simp: agree_def)
    have x: "stub_of ?st r l = \<lparr>sr_network = link_id l, sr_mask = link_data l, sr_next_hop = h, sr_cost = ?c\<rparr>"
      by (simp add: stub_of_def h d)
    have "stub_link s r l" "RouterN r \<in> in_tree ?st" using l 3 u by (auto simp: stub_link_def)
    then have new: "stub_ok s ?st (stub_of ?st r l)" unfolding stub_ok_def by blast
    have "stub_ok s ?st y" if "y \<in> set (stubs ?st)" for y
    proof -
      have "y \<in> set (stubs st) \<or> y = stub_of ?st r l" using that x by auto
      then show ?thesis using coreD(9) [OF core, of y] agree_stub_ok [OF ag] new by blast
    qed
    then have "core s root ?st" using core unfolding core_def by (simp add: visited_def)
    then have "visiting s root (RouterN r) d ?st" by (rule visiting_agree [OF v ag])
    moreover have "process_link root r d l st = Some ?st" using 3 h by (simp add: process_link_def Let_def)
    ultimately show ?thesis using ag x 3 by (auto simp: link_done_def)
  next
    case 4
    then show ?thesis using v by (auto simp: process_link_def link_done_def Let_def)
  qed
qed

lemma process_attached_visiting:
  assumes v: "visiting s root (NetworkN n) d st" and l: "fmlookup (networks s) n = Some nl" "x \<in> set (attached_routers nl)"
    and fc: "fcard (fmdom (routers s)) \<le> 65536"
  shows "\<exists>st'. process_attached n d x st = Some st' \<and> visiting s root (NetworkN n) d st' \<and> agree st st' \<and>
    settled st' (NetworkN n) (RouterN x) 0"
proof -
  have core: "core s root st" and d: "dist st (NetworkN n) = Some d" using v by (auto simp: visiting_def)
  obtain h where h: "hop st (NetworkN n) = Some h" using coreD(1) [OF core d] by blast
  obtain st' where "relax 0 (RouterN x) d (Some (step_hop root (NetworkN n) (RouterN x) h)) st = Some st'"
      "visiting s root (NetworkN n) d st'" "agree st st'" "settled st' (NetworkN n) (RouterN x) 0"
    by (rule relax_visiting [OF v edge.attached [OF l] _ coreD(8) [OF core d] fc h]) simp
  then show ?thesis by (simp add: process_attached_def h)
qed

lemma for_each_visiting:
  assumes "\<And>x st. x \<in> set xs \<Longrightarrow> P st \<Longrightarrow> \<exists>st'. f x st = Some st' \<and> P st' \<and> agree st st' \<and> R x st'"
    and "\<And>x st st'. P st \<Longrightarrow> agree st st' \<Longrightarrow> R x st \<Longrightarrow> R x st'"
    and "P st"
  shows "\<exists>st'. for_each f xs st = Some st' \<and> P st' \<and> agree st st' \<and> (\<forall>x\<in>set xs. R x st')"
  using assms(1, 3)
proof (induction xs arbitrary: st)
  case (Cons x xs)
  obtain s1 where s1: "f x st = Some s1" "P s1" "agree st s1" "R x s1" using Cons.prems by (metis list.set_intros(1))
  obtain s2 where s2: "for_each f xs s1 = Some s2" "P s2" "agree s1 s2" "\<forall>x\<in>set xs. R x s2"
    using Cons.IH [OF Cons.prems(1) s1(2)] by auto
  have "R x s2" using assms(2) [OF s1(2) s2(3) s1(4)] .
  then show ?case using s1 s2 agree_trans [OF s1(3) s2(3)] by auto
qed simp

definition enter :: "Node \<Rightarrow> entry list \<Rightarrow> SpfState \<Rightarrow> SpfState" where
  "enter u h st = st\<lparr>heap := h, in_tree := insert u (in_tree st),
     order := order st @ (case u of RouterN r \<Rightarrow> [r] | NetworkN _ \<Rightarrow> [])\<rparr>"

lemma visit_visiting:
  assumes v: "visiting s root u d (enter u h st)" and fc: "fcard (fmdom (routers s)) \<le> 65536"
  shows "\<exists>st'. visit s root d u (st\<lparr>heap := h, in_tree := insert u (in_tree st)\<rparr>) = Some st' \<and> core s root st' \<and>
    agree (enter u h st) st' \<and> finished s st' u"
proof (cases u)
  case (RouterN r)
  show ?thesis
  proof (cases "fmlookup (routers s) r")
    case None
    then show ?thesis
      using v RouterN by (auto simp: enter_def visiting_def finished_def stub_link_def elim: edge_routerE)
  next
    case (Some rl)
    have "\<exists>st'. for_each (process_link root r d) (links rl) (enter u h st) = Some st' \<and> visiting s root (RouterN r) d st' \<and>
        agree (enter u h st) st' \<and> (\<forall>l\<in>set (links rl). link_done st' r l)"
      by (rule for_each_visiting [OF process_link_visiting [OF _ Some _ fc]])
        (use v RouterN in \<open>auto simp: visiting_def intro: link_done_agree\<close>)
    then show ?thesis
      using RouterN Some
      by (auto simp: enter_def visiting_def finished_def link_done_def stub_link_def elim!: edge_routerE)
  qed
next
  case (NetworkN n)
  show ?thesis
  proof (cases "fmlookup (networks s) n")
    case None
    then show ?thesis using v NetworkN by (auto simp: enter_def visiting_def finished_def elim: edge_networkE)
  next
    case (Some nl)
    have "\<exists>st'. for_each (process_attached n d) (attached_routers nl) (enter u h st) = Some st' \<and> visiting s root (NetworkN n) d st' \<and>
        agree (enter u h st) st' \<and> (\<forall>x\<in>set (attached_routers nl). settled st' (NetworkN n) (RouterN x) 0)"
      by (rule for_each_visiting [OF process_attached_visiting [OF _ Some _ fc]])
        (use v NetworkN in \<open>auto simp: visiting_def intro: settled_agree\<close>)
    then show ?thesis
      using NetworkN Some by (auto simp: enter_def visiting_def finished_def elim!: edge_networkE)
  qed
qed

section \<open>The loop\<close>

lemma pop_least:
  assumes "core s root st" and "heap_pop (heap st) = Some (((d, t), u), h)" and "u \<notin> in_tree st"
  shows "dist st u = Some d" and "((c, t'), v) \<in> set (heap st) \<Longrightarrow> d \<le> c"
proof -
  note p = heap_pop_Some [OF assms(2)]
  show le: "d \<le> c" if "((c, t'), v) \<in> set (heap st)" for c t' v using p(3) [OF that] by (auto simp: less_eq_prod_def)
  obtain c where c: "dist st u = Some c" "c \<le> d" using coreD(6) [OF assms(1) p(1)] by blast
  obtain t' where "((c, t'), u) \<in> set (heap st)" using coreD(5) [OF assms(1, 3) c(1)] by blast
  then show "dist st u = Some d" using le c by force
qed

lemma visited_enter:
  assumes "u \<notin> in_tree st"
  shows "visited s (enter u h st) = (if u \<in> RouterN ` fset (fmdom (routers s)) then Suc (visited s st) else visited s st)"
proof (cases "u \<in> RouterN ` fset (fmdom (routers s))")
  case True
  then obtain r where r: "u = RouterN r" "r \<in> fset (fmdom (routers s))" by blast
  have "{x \<in> fset (fmdom (routers s)). RouterN x \<in> insert u (in_tree st)} =
      insert r {x \<in> fset (fmdom (routers s)). RouterN x \<in> in_tree st}" using r by auto
  then show ?thesis using True r assms by (simp add: visited_def enter_def)
next
  case False
  then have "{x \<in> fset (fmdom (routers s)). RouterN x \<in> insert u (in_tree st)} =
      {x \<in> fset (fmdom (routers s)). RouterN x \<in> in_tree st}" by auto
  then show ?thesis using False by (simp add: visited_def enter_def)
qed

lemma enter_fields [simp]:
  "dist (enter u h st) = dist st" "hop (enter u h st) = hop st" "stubs (enter u h st) = stubs st"
  "in_tree (enter u h st) = insert u (in_tree st)" "heap (enter u h st) = h"
  by (simp_all add: enter_def)

lemma enter_visiting:
  assumes core: "core s root st" and pop: "heap_pop (heap st) = Some (((d, t), u), h)" and u: "u \<notin> in_tree st"
  shows "visiting s root u d (enter u h st)"
proof -
  note p = heap_pop_Some [OF pop] and d = pop_least [OF core pop u]
  have sub: "set h \<subseteq> set (heap st)" using p(2) by (simp add: set_remove1_subset)
  have core': "core s root (enter u h st)"
    unfolding core_def
  proof (intro conjI allI impI ballI)
    fix v c assume "v \<notin> in_tree (enter u h st)" "dist (enter u h st) v = Some c"
    then show "\<exists>t. ((c, t), v) \<in> set (heap (enter u h st))"
      using coreD(5) [OF core, of v c] p(2) by (force simp: in_set_remove1)
  next
    fix x a c t' v
    assume "x \<in> in_tree (enter u h st)" "dist (enter u h st) x = Some a" "((c, t'), v) \<in> set (heap (enter u h st))"
      "v \<notin> in_tree (enter u h st)"
    then show "a \<le> c" using d coreD(7) [OF core, of x a c t' v] sub by auto
  next
    fix v c assume "dist (enter u h st) v = Some c"
    then show "unat c \<le> 65535 * visited s (enter u h st)"
      using coreD(8) [OF core, of v c] by (simp add: visited_enter [OF u])
  next
    fix x assume "x \<in> set (stubs (enter u h st))"
    then show "stub_ok s (enter u h st) x"
      using coreD(9) [OF core, of x] by (auto simp: stub_ok_def stub_of_def)
  qed (use core d sub in \<open>auto simp: core_def\<close>)
  have "a \<le> d" if "x \<in> insert u (in_tree st)" "dist st x = Some a" for x a
    using that d(1) coreD(7) [OF core _ _ p(1) u] by auto
  moreover have "unat d \<le> 65535 * visited s st" using coreD(8) [OF core d(1)] .
  ultimately show ?thesis using core' d(1) by (auto simp: visiting_def visited_enter [OF u])
qed

definition ordered :: "SpfState \<Rightarrow> bool" where
  "ordered st \<longleftrightarrow> distinct (order st) \<and> (\<forall>r. r \<in> set (order st) \<longleftrightarrow> RouterN r \<in> in_tree st) \<and>
     sorted (map (\<lambda>r. the (dist st (RouterN r))) (order st))"

lemma ordered_agree:
  assumes "agree st st'" and "ordered st"
  shows "ordered st'"
proof -
  have m: "map (\<lambda>r. the (dist st' (RouterN r))) (order st) = map (\<lambda>r. the (dist st (RouterN r))) (order st)"
    using assms by (simp add: agree_def ordered_def)
  show ?thesis using assms by (simp add: agree_def ordered_def m)
qed

lemma ordered_enter:
  assumes "ordered st" and v: "visiting s root u d (enter u h st)" and "u \<notin> in_tree st"
  shows "ordered (enter u h st)"
proof (cases u)
  case (RouterN r)
  have "the (dist st (RouterN x)) \<le> d" if "x \<in> set (order st)" for x
  proof -
    have "RouterN x \<in> in_tree st" using assms(1) that by (simp add: ordered_def)
    then show ?thesis using v coreD(4) [of s root "enter u h st" "RouterN x"] by (fastforce simp: visiting_def)
  qed
  moreover have "dist st u = Some d" using v by (simp add: visiting_def)
  ultimately show ?thesis
    using assms(1, 3) RouterN by (auto simp: ordered_def sorted_append enter_def)
qed (use assms in \<open>auto simp: ordered_def enter_def\<close>)

definition spf_inv :: "Spf \<Rightarrow> Ip4 \<Rightarrow> SpfState \<Rightarrow> bool" where
  "spf_inv s root st \<longleftrightarrow> core s root st \<and> (\<forall>u\<in>in_tree st. finished s st u) \<and> ordered st"

lemma finished_enter: "finished s (enter u h st) v = finished s st v"
  by (simp add: finished_def settled_def stub_of_def)

lemma skip_inv:
  assumes "spf_inv s root st" and "heap_pop (heap st) = Some (((d, t), u), h)" and "u \<in> in_tree st"
  shows "spf_inv s root (st\<lparr>heap := h\<rparr>)"
proof -
  let ?st = "st\<lparr>heap := h\<rparr>"
  note p = heap_pop_Some [OF assms(2)]
  have core: "core s root st" using assms(1) by (simp add: spf_inv_def)
  have sub: "set h \<subseteq> set (heap st)" using p(2) by (simp add: set_remove1_subset)
  have same: "visited s ?st = visited s st" "stub_ok s ?st x = stub_ok s st x" for x
    by (simp_all add: visited_def stub_ok_def stub_of_def)
  have "core s root ?st"
    unfolding core_def same
  proof (intro conjI allI impI)
    fix v c assume "v \<notin> in_tree ?st" "dist ?st v = Some c"
    then have out: "v \<notin> in_tree st" "dist st v = Some c" by simp_all
    obtain t' where "((c, t'), v) \<in> set (heap st)" using coreD(5) [OF core out] by blast
    moreover have "((c, t'), v) \<noteq> ((d, t), u)" using out assms(3) by auto
    ultimately have "((c, t'), v) \<in> set h" using p(2) by (simp add: in_set_remove1)
    then show "\<exists>t. ((c, t), v) \<in> set (heap ?st)" by auto
  next
    fix x a c t' v
    assume "x \<in> in_tree ?st" "dist ?st x = Some a" "((c, t'), v) \<in> set (heap ?st)" "v \<notin> in_tree ?st"
    then show "a \<le> c" using coreD(7) [OF core, of x a c t' v] sub by auto
  next
    fix c t' v assume "((c, t'), v) \<in> set (heap ?st)"
    then show "\<exists>c'. dist ?st v = Some c' \<and> c' \<le> c" using coreD(6) [OF core, of c t' v] sub by auto
  qed (use core in \<open>simp_all add: core_def\<close>)
  then show ?thesis using assms(1) by (simp add: spf_inv_def finished_def settled_def stub_of_def ordered_def)
qed

lemma visit_inv:
  assumes "spf_inv s root st" and "heap_pop (heap st) = Some (((d, t), u), h)" and "u \<notin> in_tree st"
    and fc: "fcard (fmdom (routers s)) \<le> 65536"
  shows "\<exists>st'. visit s root d u (st\<lparr>heap := h, in_tree := insert u (in_tree st)\<rparr>) = Some st' \<and> spf_inv s root st'"
proof -
  have v: "visiting s root u d (enter u h st)" using enter_visiting assms(1-3) by (simp add: spf_inv_def)
  obtain st' where st': "visit s root d u (st\<lparr>heap := h, in_tree := insert u (in_tree st)\<rparr>) = Some st'" "core s root st'"
      "agree (enter u h st) st'" "finished s st' u"
    using visit_visiting [OF v fc] by blast
  have "finished s st' x" if "x \<in> in_tree st'" for x
  proof (cases "x = u")
    case False
    then have "x \<in> in_tree st" using that st'(3) by (simp add: agree_def)
    then show ?thesis using assms(1) finished_agree [OF st'(3), of x s] by (simp add: spf_inv_def finished_enter)
  qed (use st' in simp)
  moreover have "ordered st'" using ordered_agree [OF st'(3)] ordered_enter [OF _ v assms(3)] assms(1) by (simp add: spf_inv_def)
  ultimately show ?thesis using st' by (auto simp: spf_inv_def)
qed

lemma spf_loop_inv:
  assumes "spf_inv s root st" and "fcard (fmdom (routers s)) \<le> 65536"
  shows "\<exists>st'. spf_loop s root st = Some st' \<and> spf_inv s root st' \<and> heap st' = []"
  using assms
proof (induction s root st rule: spf_loop.induct)
  case (1 s root st)
  show ?case
  proof (cases "heap_pop (heap st)")
    case None
    then show ?thesis using 1(3) heap_pop_None [of "heap st"] by (subst spf_loop.simps) simp
  next
    case (Some p)
    obtain d t u h where p: "p = (((d, t), u), h)" by (metis surj_pair)
    note pop = Some [unfolded p]
    show ?thesis
    proof (cases "u \<in> in_tree st")
      case True
      then show ?thesis
        using 1(1) [OF pop refl refl refl True skip_inv [OF 1(3) pop True] 1(4)] by (subst spf_loop.simps) (simp add: pop)
    next
      case False
      obtain st' where st': "visit s root d u (st\<lparr>heap := h, in_tree := insert u (in_tree st)\<rparr>) = Some st'" "spf_inv s root st'"
        using visit_inv [OF 1(3) pop False 1(4)] by blast
      then show ?thesis
        using 1(2) [OF pop refl refl refl False st' 1(4)] False by (subst spf_loop.simps) (simp add: pop)
    qed
  qed
qed

lemma init_inv: "spf_inv s root (spf_init root)"
  by (auto simp: spf_inv_def core_def spf_init_def ordered_def intro: spf_path.start split: if_splits)

lemma path_dist:
  assumes inv: "spf_inv s root st" and "heap st = []" and "spf_path s root v c h"
  shows "v \<in> in_tree st \<and> (\<exists>a. dist st v = Some a \<and> unat a \<le> c)"
  using assms(3)
proof (induction rule: spf_path.induct)
  case start
  then show ?case using coreD(3, 5) [of s root st] assms(1, 2) by (fastforce simp: spf_inv_def)
next
  case (step u c h v w)
  then have "settled st u v w" using inv by (auto simp: spf_inv_def finished_def)
  then obtain b where b: "dist st v = Some b" "unat b \<le> c + w" using step.IH by (auto simp: settled_def)
  then show ?case using coreD(5) [of s root st v b] assms(1, 2) by (fastforce simp: spf_inv_def)
qed

lemma final_route:
  assumes inv: "spf_inv s root st" and e: "heap st = []"
  shows "route_to (routing_table st) r = Some rt \<longleftrightarrow>
    RouterN r \<in> in_tree st \<and> dist st (RouterN r) = Some (cost rt) \<and> hop st (RouterN r) = Some (rt_next_hop rt) \<and> destination rt = r"
proof -
  have core: "core s root st" using inv by (simp add: spf_inv_def)
  show ?thesis
  proof (cases "dist st (RouterN r)")
    case None
    then show ?thesis using coreD(2) [OF core None] by (simp add: routing_table_def route_to_def)
  next
    case (Some c)
    then obtain h where "hop st (RouterN r) = Some h" "spf_path s root (RouterN r) (unat c) h" using coreD(1) [OF core] by blast
    then show ?thesis using Some path_dist [OF inv e] by (auto simp: routing_table_def route_to_def)
  qed
qed

lemma final_stubs: "spf_inv s root st \<Longrightarrow> x \<in> set (stubs st) \<longleftrightarrow> stub_ok s st x"
  by (auto simp: spf_inv_def core_def stub_ok_def finished_def)

lemma tree_route:
  assumes inv: "spf_inv s root st" and e: "heap st = []"
  shows "RouterN r \<in> in_tree st \<longleftrightarrow> (\<exists>rt. route_to (routing_table st) r = Some rt)"
proof
  have core: "core s root st" using inv by (simp add: spf_inv_def)
  assume "RouterN r \<in> in_tree st"
  moreover from this obtain c where "dist st (RouterN r) = Some c" using coreD(4) [OF core] by blast
  moreover from this obtain h where "hop st (RouterN r) = Some h" using coreD(1) [OF core] by blast
  ultimately show "\<exists>rt. route_to (routing_table st) r = Some rt"
    using final_route [OF inv e, of r "\<lparr>destination = r, rt_next_hop = h, cost = c\<rparr>"] by simp
qed (use final_route [OF inv e] in blast)

lemma final_stub_of:
  assumes "spf_inv s root st" and "heap st = []" and "route_to (routing_table st) r = Some rt"
  shows "stub_of st r l =
    \<lparr>sr_network = link_id l, sr_mask = link_data l, sr_next_hop = rt_next_hop rt, sr_cost = cost rt + ucast (metric l)\<rparr>"
  using assms(3) unfolding final_route [OF assms(1, 2)] by (simp add: stub_of_def)

text \<open>
  C1: For every area with a Router-LSA of the root and at most 65536 Router-LSAs the calculation returns
  a routing table. It has a route to a router exactly when the LSAs give a path to it; the route's
  cost is the least cost of such a path as a natural number, so the \<open>u32\<close> sums do not wrap, and
  its next hop is the one of a path of that cost. The stub routes are exactly the stub links of the reached routers at the router's
  cost plus the link's metric, and the tree order lists every reached router once, by cost.
\<close>

theorem spf_shortest_paths:
  assumes "spf_root s = Some root" and "fmlookup (routers s) root \<noteq> None" and "fcard (fmdom (routers s)) \<le> 65536"
  shows "\<exists>t. calculate s = Inr t \<and>
    (\<forall>r. route_to t r \<noteq> None \<longleftrightarrow> (\<exists>c h. spf_path s root (RouterN r) c h)) \<and>
    (\<forall>r rt. route_to t r = Some rt \<longrightarrow> spf_path s root (RouterN r) (unat (cost rt)) (rt_next_hop rt) \<and>
      (\<forall>c h. spf_path s root (RouterN r) c h \<longrightarrow> unat (cost rt) \<le> c)) \<and>
    (\<forall>x. x \<in> set (stub_routes t) \<longleftrightarrow> (\<exists>r l rt. route_to t r = Some rt \<and> stub_link s r l \<and>
      x = \<lparr>sr_network = link_id l, sr_mask = link_data l, sr_next_hop = rt_next_hop rt, sr_cost = cost rt + ucast (metric l)\<rparr>)) \<and>
    distinct (tree_order t) \<and> (\<forall>r. r \<in> set (tree_order t) \<longleftrightarrow> route_to t r \<noteq> None) \<and>
    sorted (map (\<lambda>r. cost (the (route_to t r))) (tree_order t))"
proof -
  obtain st where st: "spf_loop s root (spf_init root) = Some st" "spf_inv s root st" "heap st = []"
    using spf_loop_inv [OF init_inv assms(3)] by blast
  let ?t = "routing_table st"
  note route = final_route [OF st(2, 3)] and path = path_dist [OF st(2, 3)]
  have core: "core s root st" and ord: "ordered st" using st(2) by (simp_all add: spf_inv_def)
  have reach: "route_to ?t r \<noteq> None \<longleftrightarrow> RouterN r \<in> in_tree st" for r using tree_route [OF st(2, 3), of r] by simp
  have "calculate s = Inr ?t" using assms(1, 2) st(1) by (simp add: calculate_def)
  moreover have "route_to ?t r \<noteq> None \<longleftrightarrow> (\<exists>c h. spf_path s root (RouterN r) c h)" for r
    unfolding reach using path coreD(1, 4) [OF core, of "RouterN r"] by blast
  moreover have "spf_path s root (RouterN r) (unat (cost rt)) (rt_next_hop rt) \<and>
      (\<forall>c h. spf_path s root (RouterN r) c h \<longrightarrow> unat (cost rt) \<le> c)" if "route_to ?t r = Some rt" for r rt
    using that [unfolded route] coreD(1) [OF core, of "RouterN r"] path by fastforce
  moreover have "x \<in> set (stub_routes ?t) \<longleftrightarrow> (\<exists>r l rt. route_to ?t r = Some rt \<and> stub_link s r l \<and>
      x = \<lparr>sr_network = link_id l, sr_mask = link_data l, sr_next_hop = rt_next_hop rt, sr_cost = cost rt + ucast (metric l)\<rparr>)"
    (is "_ \<longleftrightarrow> ?R x") for x
  proof -
    have "x \<in> set (stub_routes ?t) \<longleftrightarrow> (\<exists>r l. RouterN r \<in> in_tree st \<and> stub_link s r l \<and> x = stub_of st r l)"
      using final_stubs [OF st(2)] by (simp add: routing_table_def stub_ok_def)
    also have "\<dots> \<longleftrightarrow> (\<exists>r l rt. route_to ?t r = Some rt \<and> stub_link s r l \<and> x = stub_of st r l)"
      unfolding tree_route [OF st(2, 3)] by blast
    also have "\<dots> \<longleftrightarrow> ?R x" using final_stub_of [OF st(2, 3)] by (simp cong: conj_cong)
    finally show ?thesis .
  qed
  moreover have "cost (the (route_to ?t r)) = the (dist st (RouterN r))" if "r \<in> set (order st)" for r
  proof -
    have "RouterN r \<in> in_tree st" using that ord by (simp add: ordered_def)
    then obtain rt where rt: "route_to ?t r = Some rt" using tree_route [OF st(2, 3)] by blast
    then show ?thesis using route [THEN iffD1, OF rt] by simp
  qed
  then have "map (\<lambda>r. cost (the (route_to ?t r))) (order st) = map (\<lambda>r. the (dist st (RouterN r))) (order st)" by simp
  then have "sorted (map (\<lambda>r. cost (the (route_to ?t r))) (tree_order ?t))"
    using ord unfolding ordered_def by (simp only: routing_table_def RoutingTable.select_convs)
  moreover have "distinct (tree_order ?t)" "r \<in> set (tree_order ?t) \<longleftrightarrow> route_to ?t r \<noteq> None" for r
    unfolding reach using ord by (simp_all add: ordered_def routing_table_def)
  ultimately show ?thesis by blast
qed

text \<open>A root with a point-to-point link to a neighbour and a stub network, for the example.\<close>

definition sample_area :: Spf where
  "sample_area = add_router_lsa \<lparr>rl_header = LsaHeader_router [1, 1, 1, 1] 0, rl_v = False, rl_e = False, rl_b = False,
     links = [Ospf_Lsa.point_to_point [2, 2, 2, 2] [10, 0, 0, 1] 5, stub [10, 1, 0, 0] [255, 255, 0, 0] 1]\<rparr> (Spf_new [1, 1, 1, 1])"

theorem spf_shortest_paths_witness:
  "\<exists>t rt. calculate sample_area = Inr t \<and> route_to t [2, 2, 2, 2] = Some rt \<and> unat (cost rt) \<le> 5"
proof -
  have "edge sample_area (RouterN [1, 1, 1, 1]) (RouterN [2, 2, 2, 2]) 5"
    using edge.point_to_point [of sample_area "[1, 1, 1, 1]" _ "Ospf_Lsa.point_to_point [2, 2, 2, 2] [10, 0, 0, 1] 5"]
    by (simp add: sample_area_def add_router_lsa_def Spf_new_def LsaHeader_router_def LsaHeader_new_def Ospf_Lsa.point_to_point_def)
  then have "spf_path sample_area [1, 1, 1, 1] (RouterN [2, 2, 2, 2]) 5 [2, 2, 2, 2]"
    using spf_path.step [OF spf_path.start [of sample_area "[1, 1, 1, 1]"]] by fastforce
  moreover have "spf_root sample_area = Some [1, 1, 1, 1]" "fmlookup (routers sample_area) [1, 1, 1, 1] \<noteq> None"
      "fcard (fmdom (routers sample_area)) \<le> 65536"
    by (simp_all add: sample_area_def add_router_lsa_def Spf_new_def LsaHeader_router_def LsaHeader_new_def fcard.rep_eq)
  ultimately show ?thesis
    using spf_shortest_paths [of sample_area "[1, 1, 1, 1]"] by (metis not_None_eq)
qed

end
