(* ===== verification/Limbs.thy ===== *)
theory Limbs
  imports Prelude
begin

unbundle bit_operations_syntax

text \<open>
  Numbers as little-endian lists of machine words, the representation of the field elements of
  \<^verbatim>\<open>tpt-x25519\<close> and \<^verbatim>\<open>tpt-ed25519\<close>: the value of a limb list, the carry and borrow loops,
  the selection by mask, and the bit buffer that converts between bytes and limbs.
\<close>

type_synonym u128 = "128 word"

section \<open>The value of a limb list\<close>

fun val :: "nat \<Rightarrow> 'a::len word list \<Rightarrow> nat" where
  "val k [] = 0"
| "val k (x # xs) = unat x + 2 ^ k * val k xs"

definition small :: "nat \<Rightarrow> 'a::len word list \<Rightarrow> bool" where
  "small k xs \<longleftrightarrow> list_all (\<lambda>x. unat x < 2 ^ k) xs"

lemma small_simps [simp]:
  "small k []" "small k (x # xs) \<longleftrightarrow> unat x < 2 ^ k \<and> small k xs" "small k (xs @ ys) \<longleftrightarrow> small k xs \<and> small k ys"
  "small k (replicate n 0)"
  by (auto simp: small_def list_all_iff)

lemma small_take [simp]: "small k xs \<Longrightarrow> small k (take n xs)" and small_drop [simp]: "small k xs \<Longrightarrow> small k (drop n xs)"
  by (auto simp: small_def list_all_iff dest: in_set_takeD in_set_dropD)

lemma val_append: "val k (xs @ ys) = val k xs + 2 ^ (k * length xs) * val k ys"
  by (induction xs) (simp_all add: algebra_simps power_add)

lemma val_replicate [simp]: "val k (replicate n 0) = 0"
  by (induction n) simp_all

lemma val_take_drop: "n \<le> length xs \<Longrightarrow> val k xs = val k (take n xs) + 2 ^ (k * n) * val k (drop n xs)"
  using val_append [of k "take n xs" "drop n xs"] by simp

lemma digit_bound:
  fixes a A b B :: nat
  assumes "a < A" and "b < B"
  shows "a + A * b < A * B"
proof -
  have "A * Suc b \<le> A * B" using assms(2) by (intro mult_le_mono2) simp
  then show ?thesis using assms(1) by simp
qed

lemma digit_mod: "a < A \<Longrightarrow> (a + A * V) mod (A * M) = a + A * (V mod M)" for a A V M :: nat
  by (simp add: mod_mult2_eq)

lemma val_bound: "small k xs \<Longrightarrow> val k xs < 2 ^ (k * length xs)"
proof (induction xs)
  case (Cons x xs)
  then show ?case using digit_bound [of "unat x" "2 ^ k" "val k xs" "2 ^ (k * length xs)"] by (simp add: power_add)
qed simp

lemma val_inj:
  "small k xs \<Longrightarrow> small k ys \<Longrightarrow> length xs = length ys \<Longrightarrow> val k xs = val k ys \<Longrightarrow> xs = ys"
proof (induction xs ys rule: list_induct2')
  case (4 x xs y ys)
  then have e: "unat x + 2 ^ k * val k xs = unat y + 2 ^ k * val k ys" and b: "unat x < 2 ^ k" "unat y < 2 ^ k" by auto
  have "unat x = (unat x + 2 ^ k * val k xs) mod 2 ^ k" "unat y = (unat y + 2 ^ k * val k ys) mod 2 ^ k" using b by simp_all
  then have h: "unat x = unat y" using e by simp
  moreover have "val k xs = val k ys" using e h by simp
  ultimately show ?case using 4 by (simp add: word_unat_eq_iff)
qed simp_all

lemma val_ucast:
  fixes xs :: "'a::len word list"
  assumes "small LENGTH('b) xs"
  shows "val k (map ucast xs :: 'b::len word list) = val k xs"
  using assms by (induction xs) (simp_all add: unsigned_ucast_eq take_bit_nat_eq_self)

lemma small_ucast:
  fixes xs :: "'a::len word list"
  assumes "small k xs" and "k \<le> LENGTH('b)"
  shows "small k (map ucast xs :: 'b::len word list)" and "small LENGTH('b) xs"
proof -
  have "unat x < 2 ^ LENGTH('b)" if "unat x < 2 ^ k" for x :: "'a word"
    using that power_increasing [OF assms(2), of "2::nat"] by (meson less_le_trans one_le_numeral)
  then show "small LENGTH('b) xs" using assms(1) by (auto simp: small_def list_all_iff)
  then show "small k (map ucast xs :: 'b word list)"
    using assms(1) by (induction xs) (simp_all add: unsigned_ucast_eq take_bit_nat_eq_self)
qed

lemma val_map2:
  assumes "length xs = length ys" and "\<And>x y. x \<in> set xs \<Longrightarrow> y \<in> set ys \<Longrightarrow> unat (f x y) = unat x + c * unat y"
  shows "val k (map2 f xs ys) = val k xs + c * val k ys"
  using assms by (induction xs ys rule: list_induct2) (simp_all add: algebra_simps)

lemma val_update:
  "m < length t \<Longrightarrow> val k (t[m := x]) + 2 ^ (k * m) * unat (t ! m) = val k t + 2 ^ (k * m) * unat x"
proof (induction t arbitrary: m)
  case (Cons y t)
  show ?case
  proof (cases m)
    case (Suc n)
    then have "2 ^ k * (val k (t[n := x]) + 2 ^ (k * n) * unat (t ! n)) = 2 ^ k * (val k t + 2 ^ (k * n) * unat x)"
      using Cons by simp
    then show ?thesis using Suc by (simp add: power_add algebra_simps)
  qed simp
qed simp

lemma val_le:
  assumes "list_all (\<lambda>x. unat x \<le> B) xs" and "0 < k"
  shows "val k xs + B \<le> B * 2 ^ (k * length xs)"
  using assms(1)
proof (induction xs)
  case (Cons x xs)
  have "(2::nat) \<le> 2 ^ k" using assms(2) by (cases k) simp_all
  have "val k (x # xs) + B \<le> 2 * B + 2 ^ k * val k xs" using Cons.prems by simp
  also have "\<dots> \<le> 2 ^ k * B + 2 ^ k * val k xs" using \<open>2 \<le> 2 ^ k\<close> by simp
  also have "\<dots> \<le> 2 ^ k * (B * 2 ^ (k * length xs))"
    using mult_le_mono2 [OF Cons.IH, of "2 ^ k"] Cons.prems by (simp add: distrib_left)
  finally show ?case by (simp add: power_add algebra_simps)
qed simp

lemma val_sum: "val k xs = (\<Sum>i<length xs. unat (xs ! i) * 2 ^ (k * i))"
  by (induction xs) (simp_all add: sum.lessThan_Suc_shift power_add sum_distrib_left algebra_simps del: sum.lessThan_Suc)

text \<open>The terms of a schoolbook product.\<close>

lemma product_sum:
  "sum_list (map (\<lambda>(i, j). f i * g j) (List.product xs ys)) = sum_list (map f xs) * (sum_list (map g ys) :: nat)"
  by (induction xs) (simp_all add: comp_def sum_list_const_mult algebra_simps)

lemma product_val:
  assumes "n \<le> length a" and "n \<le> length b"
  shows "sum_list (map (\<lambda>(i, j). unat (a ! i) * unat (b ! j) * 2 ^ (k * (i + j))) (List.product [0..<n] [0..<n])) =
    val k (take n a) * val k (take n b)"
proof -
  have v: "val k (take n xs) = sum_list (map (\<lambda>i. unat (xs ! i) * 2 ^ (k * i)) [0..<n])" if "n \<le> length xs" for xs :: "'c::len word list"
    using that by (simp add: val_sum interv_sum_list_conv_sum_set_nat atLeast0LessThan)
  have "(\<lambda>(i, j). unat (a ! i) * unat (b ! j) * 2 ^ (k * (i + j))) =
      (\<lambda>(i, j). (unat (a ! i) * 2 ^ (k * i)) * (unat (b ! j) * 2 ^ (k * j)))"
    by (simp add: fun_eq_iff power_add algebra_simps)
  then show ?thesis using product_sum [of "\<lambda>i. unat (a ! i) * 2 ^ (k * i)" "\<lambda>j. unat (b ! j) * 2 ^ (k * j)" "[0..<n]" "[0..<n]"]
    by (simp add: v assms)
qed

section \<open>Carry propagation\<close>

text \<open>The loop \<^verbatim>\<open>s = r[i] + carry; r[i] = s & MASK; carry = s >> RADIX\<close>; the last carry is dropped.\<close>

fun carry_run :: "nat \<Rightarrow> 'a::len word \<Rightarrow> 'a word list \<Rightarrow> 'a word list" where
  "carry_run k c [] = []"
| "carry_run k c (x # xs) = (let s = x + c in (s AND mask k) # carry_run k (drop_bit k s) xs)"

lemma length_carry_run [simp]: "length (carry_run k c xs) = length xs"
  by (induction xs arbitrary: c) (simp_all add: Let_def)

lemma carry_digit:
  fixes s :: "'a::len word"
  shows "unat (s AND mask k) = unat s mod 2 ^ k" and "unat (drop_bit k s) = unat s div 2 ^ k"
proof -
  show "unat (s AND mask k) = unat s mod 2 ^ k"
    unfolding take_bit_eq_mask [symmetric] unsigned_take_bit_eq by (rule take_bit_eq_mod)
  show "unat (drop_bit k s) = unat s div 2 ^ k"
    unfolding unsigned_drop_bit_eq take_bit_nat_eq_self [OF unat_less_power] by (rule drop_bit_eq_div)
qed

lemma split_digit: "(S + 2 ^ k * V) mod (2 ^ k * M) = S mod 2 ^ k + 2 ^ k * ((V + S div 2 ^ k) mod M)" for S V M :: nat
  by (simp add: mod_mult2_eq add.commute)

lemma carry_run_val:
  fixes xs :: "'a::len word list"
  assumes "list_all (\<lambda>x. unat x + 2 ^ (LENGTH('a) - k) \<le> 2 ^ LENGTH('a)) xs" and "unat c < 2 ^ (LENGTH('a) - k)" and "k \<le> LENGTH('a)"
  shows "val k (carry_run k c xs) = (val k xs + unat c) mod 2 ^ (k * length xs)" and "small k (carry_run k c xs)"
proof -
  have "val k (carry_run k c xs) = (val k xs + unat c) mod 2 ^ (k * length xs) \<and> small k (carry_run k c xs)"
    using assms(1, 2)
  proof (induction xs arbitrary: c)
    case (Cons x xs)
    let ?s = "x + c"
    have "unat x + unat c < 2 ^ LENGTH('a)" using Cons.prems by simp
    then have s: "unat ?s = unat x + unat c" by (simp add: unat_word_ariths)
    have "unat ?s < 2 ^ k * 2 ^ (LENGTH('a) - k)" using unat_less_power [of ?s] assms(3) by (simp flip: power_add)
    then have c: "unat (drop_bit k ?s) < 2 ^ (LENGTH('a) - k)"
      by (simp add: carry_digit less_mult_imp_div_less mult.commute)
    have IH: "val k (carry_run k (drop_bit k ?s) xs) = (val k xs + unat ?s div 2 ^ k) mod 2 ^ (k * length xs)"
        "small k (carry_run k (drop_bit k ?s) xs)"
      using Cons.IH [OF _ c] Cons.prems(1) by (simp_all add: carry_digit)
    have e: "val k (x # xs) + unat c = unat ?s + 2 ^ k * val k xs" using s by simp
    have m: "(2::nat) ^ (k * length (x # xs)) = 2 ^ k * 2 ^ (k * length xs)" by (simp add: power_add)
    show ?case using IH unfolding e m split_digit by (simp add: Let_def carry_digit)
  qed simp
  then show "val k (carry_run k c xs) = (val k xs + unat c) mod 2 ^ (k * length xs)" "small k (carry_run k c xs)" by simp_all
qed

section \<open>Borrow propagation\<close>

text \<open>
  The loop \<^verbatim>\<open>v = a[i] as i64 - b[i] as i64 - borrow\<close>, where \<open>i64\<close> arithmetic is word arithmetic and the
  sign is that of the signed value.
\<close>

fun borrow_run :: "nat \<Rightarrow> u64 \<Rightarrow> u64 list \<Rightarrow> u64 list \<Rightarrow> u64 list \<times> u64" where
  "borrow_run k b (x # xs) (y # ys) =
     (let v = x - y - b;
          (v', b') = (if sint v < 0 then (v + push_bit k 1, 1) else (v, 0));
          (out, borrow) = borrow_run k b' xs ys
      in (v' # out, borrow))"
| "borrow_run k b _ _ = ([], b)"

lemma sint_sub:
  fixes x y b :: u64
  assumes "unat x < 2 ^ 62" "unat y < 2 ^ 62" "unat b \<le> 1"
  shows "sint (x - y - b) = int (unat x) - int (unat y) - int (unat b)"
proof -
  let ?i = "int (unat x) - int (unat y) - int (unat b)"
  have "word_of_int ?i = x - y - b" by simp
  moreover have "sint (word_of_int ?i :: u64) = signed_take_bit 63 ?i" by (simp only: signed_of_int) simp
  moreover have "int (unat x) < int (2 ^ 62)" "int (unat y) < int (2 ^ 62)" "int (unat b) \<le> int 1"
    using assms by (simp_all only: of_nat_less_iff of_nat_le_iff)
  then have "signed_take_bit 63 ?i = ?i" by (intro signed_take_bit_int_eq_self) (simp_all del: of_nat_unat)
  ultimately show ?thesis by simp
qed

lemma borrow_digit:
  fixes x y b v :: u64
  assumes x: "unat x < 2 ^ k" and y: "unat y < 2 ^ k" and b: "unat b \<le> 1" and k: "k \<le> 62" and v: "v = x - y - b"
  shows "sint v < 0 \<Longrightarrow> unat (v + push_bit k 1) + unat y + unat b = unat x + 2 ^ k \<and> unat (v + push_bit k 1) < 2 ^ k"
    and "\<not> sint v < 0 \<Longrightarrow> unat v + unat y + unat b = unat x \<and> unat v < 2 ^ k"
proof -
  have k62: "(2::nat) ^ k \<le> 2 ^ 62" using k by (rule power_increasing) simp
  have s: "sint v = int (unat x) - int (unat y) - int (unat b)" using sint_sub [of x y b] x y b k62 v by simp
  show "unat v + unat y + unat b = unat x \<and> unat v < 2 ^ k" if "\<not> sint v < 0"
  proof -
    have le: "unat y + unat b \<le> unat x" using that s by linarith
    then have "unat v = unat x - unat y - unat b" using v by (simp add: unat_sub word_le_nat_alt)
    then show ?thesis using le x by linarith
  qed
  show "unat (v + push_bit k 1) + unat y + unat b = unat x + 2 ^ k \<and> unat (v + push_bit k 1) < 2 ^ k" if "sint v < 0"
  proof -
    have lt: "unat x < unat y + unat b" using that s by linarith
    have p: "unat (push_bit k 1 :: u64) = 2 ^ k"
      unfolding unsigned_push_bit_eq using k by (simp add: push_bit_eq_mult take_bit_nat_eq_self)
    have "unat x + 2 ^ k < 2 ^ 64" using x k62 by simp
    then have a: "unat (push_bit k 1 + x) = unat x + 2 ^ k" using p by (simp add: unat_word_ariths)
    have le: "unat y + unat b \<le> unat x + 2 ^ k" using y b by linarith
    have "v + push_bit k 1 = (push_bit k 1 + x) - y - b" using v by simp
    moreover have "unat ((push_bit k 1 + x) - y - b) = unat x + 2 ^ k - unat y - unat b"
      using le a by (simp add: unat_sub word_le_nat_alt)
    ultimately have "unat (v + push_bit k 1) = unat x + 2 ^ k - unat y - unat b" by (simp only:)
    then show ?thesis using le lt by (intro conjI) linarith+
  qed
qed

lemma borrow_run_val:
  assumes "length xs = length ys" and "small k xs" and "small k ys" and "unat b \<le> 1" and k: "k \<le> 62"
    and "borrow_run k b xs ys = (out, bo)"
  shows "unat bo \<le> 1 \<and> small k out \<and> length out = length xs \<and>
    val k out + val k ys + unat b = val k xs + 2 ^ (k * length xs) * unat bo"
  using assms
proof (induction xs ys arbitrary: b out rule: list_induct2)
  case (Cons x xs y ys)
  let ?v = "x - y - b"
  have d: "unat x < 2 ^ k" "unat y < 2 ^ k" using Cons.prems by simp_all
  note dig = borrow_digit [OF d Cons.prems(3) k refl]
  obtain v' b' :: u64 where vb: "(v', b') = (if sint ?v < 0 then (?v + push_bit k 1, 1) else (?v, 0))" by (metis surj_pair)
  have b': "unat b' \<le> 1" and v': "unat v' < 2 ^ k" "unat v' + unat y + unat b = unat x + 2 ^ k * unat b'"
    using vb dig by (auto split: if_splits)
  obtain o' where o': "borrow_run k b' xs ys = (o', bo)" "out = v' # o'"
    using Cons.prems(5) by (simp add: Let_def split_beta vb [symmetric]) (metis prod.collapse)
  from Cons.IH [OF _ _ b' k o'(1)] Cons.prems have IH: "unat bo \<le> 1" "small k o'" "length o' = length xs"
      "val k o' + val k ys + unat b' = val k xs + 2 ^ (k * length xs) * unat bo" by simp_all
  have "2 ^ k * (val k o' + val k ys + unat b') = 2 ^ k * (val k xs + 2 ^ (k * length xs) * unat bo)" using IH(4) by simp
  then show ?case using IH(1-3) v' o'(2) by (simp add: algebra_simps power_add)
qed simp

text \<open>Selection by an all-ones or all-zeros mask.\<close>

definition ct_select :: "u64 list \<Rightarrow> u64 list \<Rightarrow> u64 \<Rightarrow> u64 list" where
  "ct_select a b sel = (let m = 0 - sel in map2 (\<lambda>x y. (x AND m) OR (y AND NOT m)) a b)"

lemma ct_select_eq:
  assumes "length a = length b" and "unat sel \<le> 1"
  shows "ct_select a b sel = (if sel = 1 then a else b)"
proof -
  have "sel = 0 \<or> sel = 1" using assms(2) by (metis le_less less_one unat_1 unat_eq_zero word_unat_eq_iff)
  then show ?thesis
    using assms(1) by (auto simp: ct_select_def Let_def intro!: nth_equalityI)
qed

section \<open>Bytes to limbs\<close>

lemma small_bytes [simp]: "small 8 (bs :: bytes)"
proof -
  have "unat (b :: u8) < 2 ^ 8" for b using unat_less_power [of b] by simp
  then show ?thesis by (simp add: small_def list_all_iff)
qed

text \<open>
  The bit buffer of \<^verbatim>\<open>from_bytes\<close>: bytes are added above the \<open>bits\<close> buffered ones until a limb of \<open>k\<close> bits is
  complete or the input ends.
\<close>

fun fill :: "nat \<Rightarrow> u64 \<Rightarrow> nat \<Rightarrow> bytes \<Rightarrow> u64 \<times> nat \<times> bytes" where
  "fill k buf bits [] = (buf, bits, [])"
| "fill k buf bits (b # bs) =
     (if bits < k then fill k (buf OR push_bit bits (ucast b)) (bits + 8) bs else (buf, bits, b # bs))"

primrec unpack :: "nat \<Rightarrow> nat \<Rightarrow> u64 \<Rightarrow> nat \<Rightarrow> bytes \<Rightarrow> u64 list" where
  "unpack k 0 buf bits bs = []"
| "unpack k (Suc n) buf bits bs =
     (let (buf', bits', bs') = fill k buf bits bs in (buf' AND mask k) # unpack k n (drop_bit k buf') (bits' - k) bs')"

lemma or_push:
  fixes a x :: "'a::len word"
  assumes "unat a < 2 ^ n" and "2 ^ n * unat x < 2 ^ LENGTH('a)"
  shows "unat (a OR push_bit n x) = unat a + 2 ^ n * unat x"
proof -
  have "\<not> bit a i" if "n \<le> i" for i
  proof -
    have "unat a < 2 ^ i" using assms(1) power_increasing [OF that, of "2::nat"] by (meson less_le_trans one_le_numeral)
    then have "\<not> bit (unat a) i" by (simp add: bit_iff_odd)
    then show ?thesis by (simp add: bit_unsigned_iff)
  qed
  then have "a OR push_bit n x = a + push_bit n x" by (intro disjunctive_add [symmetric]) (auto simp: bit_push_bit_iff)
  moreover have p: "unat (push_bit n x) = 2 ^ n * unat x"
    unfolding unsigned_push_bit_eq using assms(2) by (simp add: push_bit_eq_mult take_bit_nat_eq_self mult.commute)
  moreover have "unat a + 2 ^ n * unat x < 2 ^ LENGTH('a)"
  proof (cases "unat x = 0")
    case False
    have "n \<le> LENGTH('a)"
    proof (rule ccontr)
      assume "\<not> n \<le> LENGTH('a)"
      then have "(2::nat) ^ LENGTH('a) \<le> 2 ^ n" by (simp add: power_increasing)
      moreover have "(2::nat) ^ n \<le> 2 ^ n * unat x" using False by simp
      ultimately show False using assms(2) by linarith
    qed
    then obtain m where m: "LENGTH('a) = n + m" using le_Suc_ex by blast
    then have "unat x < 2 ^ m" using assms(2) by (simp add: power_add)
    then show ?thesis using digit_bound [OF assms(1)] m by (simp add: power_add)
  qed (use unat_less_power in simp)
  ultimately show ?thesis by (simp add: unat_word_ariths)
qed

lemma fill_val:
  assumes "unat buf < 2 ^ bits" and "bits \<le> k + 7" and k: "k \<le> 56" and "fill k buf bits bs = (buf', bits', bs')"
  shows "unat buf' < 2 ^ bits' \<and> bits' \<le> k + 7 \<and> (k \<le> bits' \<or> bs' = []) \<and>
    unat buf' + 2 ^ bits' * val 8 bs' = unat buf + 2 ^ bits * val 8 bs"
  using assms
proof (induction k buf bits bs rule: fill.induct)
  case (2 k buf bits b bs)
  show ?case
  proof (cases "bits < k")
    case True
    have u: "unat (ucast b :: u64) = unat b" and b: "unat b < 2 ^ 8"
      using unat_less_power [of b] by (simp_all add: unsigned_ucast_eq take_bit_nat_eq_self)
    have m: "2 ^ bits * unat b < 2 ^ (bits + 8)" using b by (simp add: power_add)
    also have "(2::nat) ^ (bits + 8) \<le> 2 ^ 64" using True 2(4) by (intro power_increasing) auto
    finally have o: "unat (buf OR push_bit bits (ucast b)) = unat buf + 2 ^ bits * unat b"
      using or_push [OF 2(2), of "ucast b"] u by simp
    have "unat (buf OR push_bit bits (ucast b)) < 2 ^ (bits + 8)" using digit_bound [OF 2(2) b] by (simp add: power_add o)
    then show ?thesis
      using 2(1) [OF True _ _ 2(4)] 2(5) True o by (simp add: power_add algebra_simps)
  qed (use 2 in auto)
qed auto

lemma unpack_val:
  assumes "unat buf < 2 ^ bits" and "bits \<le> k + 7" and k: "k \<le> 56"
  shows "val k (unpack k n buf bits bs) = (unat buf + 2 ^ bits * val 8 bs) mod 2 ^ (k * n) \<and> small k (unpack k n buf bits bs) \<and>
    length (unpack k n buf bits bs) = n"
  using assms(1, 2)
proof (induction n arbitrary: buf bits bs)
  case (Suc n)
  obtain buf' bits' bs' where f: "fill k buf bits bs = (buf', bits', bs')" by (metis surj_pair)
  note v = fill_val [OF Suc.prems k f]
  let ?V = "unat buf' + 2 ^ bits' * val 8 bs'"
  have st: "unat (drop_bit k buf') < 2 ^ (bits' - k) \<and> ?V mod 2 ^ k = unat buf' mod 2 ^ k \<and>
      unat (drop_bit k buf') + 2 ^ (bits' - k) * val 8 bs' = ?V div 2 ^ k"
  proof (cases "k \<le> bits'")
    case True
    then obtain m where m: "bits' = k + m" using le_Suc_ex by blast
    then have "unat buf' < 2 ^ m * 2 ^ k" using v by (simp add: power_add mult.commute)
    then have "unat buf' div 2 ^ k < 2 ^ m" by (rule less_mult_imp_div_less)
    then show ?thesis by (simp add: m carry_digit power_add mult.assoc)
  next
    case False
    then have b: "bs' = []" "unat buf' < 2 ^ k" using v power_increasing [of bits' k "2::nat"] by (auto intro: less_le_trans)
    then show ?thesis using False by (simp add: carry_digit)
  qed
  have "bits' - k \<le> k + 7" using v by linarith
  from Suc.IH [OF _ this, of "drop_bit k buf'" bs'] st
  have IH: "val k (unpack k n (drop_bit k buf') (bits' - k) bs') = ?V div 2 ^ k mod 2 ^ (k * n)"
      "small k (unpack k n (drop_bit k buf') (bits' - k) bs')" "length (unpack k n (drop_bit k buf') (bits' - k) bs') = n" by simp_all
  have "?V mod 2 ^ (k * Suc n) = 2 ^ k * (?V div 2 ^ k mod 2 ^ (k * n)) + ?V mod 2 ^ k"
    by (simp add: power_add mod_mult2_eq)
  then show ?case using IH st v f by (simp add: carry_digit)
qed simp

section \<open>Limbs to bytes\<close>

text \<open>
  The bit buffer of \<^verbatim>\<open>to_bytes\<close>, with \<open>m\<close> bytes still to write: every limb is added to the buffer and the
  complete bytes are written; at the end the rest of the buffer is flushed.
\<close>

fun drain :: "u64 \<Rightarrow> nat \<Rightarrow> nat \<Rightarrow> bytes \<times> u64 \<times> nat \<times> nat" where
  "drain buf bits 0 = ([], buf, bits, 0)"
| "drain buf bits (Suc m) =
     (if bits \<ge> 8 then let (bs, r) = drain (drop_bit 8 buf) (bits - 8) m in (ucast (buf AND 0xFF) # bs, r)
      else ([], buf, bits, Suc m))"

primrec flush :: "nat \<Rightarrow> u64 \<Rightarrow> bytes" where
  "flush 0 buf = []"
| "flush (Suc m) buf = ucast (buf AND 0xFF) # flush m (drop_bit 8 buf)"

primrec pack :: "nat \<Rightarrow> u64 list \<Rightarrow> u64 \<Rightarrow> nat \<Rightarrow> nat \<Rightarrow> bytes" where
  "pack k [] buf bits m = flush m buf"
| "pack k (x # xs) buf bits m =
     (let (bs, buf', bits', m') = drain (buf OR push_bit bits x) (bits + k) m in bs @ pack k xs buf' bits' m')"

lemma low_byte: "unat (ucast (buf AND 0xFF :: u64) :: u8) = unat buf mod 2 ^ 8"
proof -
  have "unat (buf AND 0xFF) = unat buf mod 2 ^ 8" using carry_digit(1) [of buf 8] by (simp add: mask_eq_exp_minus_1)
  then show ?thesis by (simp add: unsigned_ucast_eq take_bit_eq_mod)
qed

lemma flush_val: "val 8 (flush m buf) = unat buf mod 2 ^ (8 * m) \<and> length (flush m buf) = m"
proof (induction m arbitrary: buf)
  case (Suc m)
  have "unat buf mod 2 ^ (8 * Suc m) = 2 ^ 8 * (unat buf div 2 ^ 8 mod 2 ^ (8 * m)) + unat buf mod 2 ^ 8"
    by (simp add: power_add mod_mult2_eq)
  then show ?case using Suc.IH [of "drop_bit 8 buf"] by (simp add: low_byte carry_digit)
qed simp

lemma drain_val:
  assumes "unat buf < 2 ^ bits" and "drain buf bits m = (bs, buf', bits', m')"
  shows "m = length bs + m' \<and> unat buf' < 2 ^ bits' \<and> (bits' < 8 \<or> m' = 0) \<and>
    val 8 bs + 2 ^ (8 * length bs) * (unat buf' + 2 ^ bits' * W) = unat buf + 2 ^ bits * W"
  using assms
proof (induction buf bits m arbitrary: bs rule: drain.induct)
  case (2 buf bits m)
  show ?case
  proof (cases "8 \<le> bits")
    case True
    then obtain n where n: "bits = 8 + n" using le_Suc_ex by blast
    obtain cs where cs: "drain (drop_bit 8 buf) n m = (cs, buf', bits', m')" "bs = ucast (buf AND 0xFF) # cs"
      using 2(3) n by (auto split: prod.splits)
    have "unat buf < 2 ^ n * 2 ^ 8" using 2(2) n by (simp add: power_add mult.commute)
    then have "unat (drop_bit 8 buf) < 2 ^ n" unfolding carry_digit by (rule less_mult_imp_div_less)
    from 2(1) [OF True _ ] this cs(1) n
    have IH: "m = length cs + m'" "unat buf' < 2 ^ bits'" "bits' < 8 \<or> m' = 0"
        "val 8 cs + 2 ^ (8 * length cs) * (unat buf' + 2 ^ bits' * W) = unat buf div 2 ^ 8 + 2 ^ n * W"
      by (simp_all add: carry_digit)
    have "unat buf + 2 ^ bits * W = unat buf mod 2 ^ 8 + 2 ^ 8 * (unat buf div 2 ^ 8 + 2 ^ n * W)"
      by (simp add: n power_add algebra_simps)
    also have "\<dots> = val 8 bs + 2 ^ (8 * length bs) * (unat buf' + 2 ^ bits' * W)"
      unfolding IH(4) [symmetric] cs(2) by (simp add: low_byte power_add algebra_simps)
    finally show ?thesis using IH cs(2) by simp
  qed (use 2 in auto)
qed auto

lemma pack_0 [simp]: "pack k xs buf bits 0 = []"
  by (induction xs arbitrary: buf bits) simp_all

lemma pack_val:
  assumes "small k xs" and "unat buf < 2 ^ bits" and "bits < 8 \<or> m = 0" and "k \<le> 57"
  shows "val 8 (pack k xs buf bits m) = (unat buf + 2 ^ bits * val k xs) mod 2 ^ (8 * m) \<and> length (pack k xs buf bits m) = m"
  using assms(1-3)
proof (induction xs arbitrary: buf bits m)
  case Nil
  then show ?case by (simp add: flush_val)
next
  case (Cons x xs)
  show ?case
  proof (cases "m = 0")
    case False
    then have bits: "bits < 8" using Cons.prems by simp
    have x: "unat x < 2 ^ k" using Cons.prems by simp
    have "2 ^ bits * unat x < 2 ^ (bits + k)" using x by (simp add: power_add)
    also have "(2::nat) ^ (bits + k) \<le> 2 ^ 64" using bits assms(4) by (intro power_increasing) auto
    finally have o: "unat (buf OR push_bit bits x) = unat buf + 2 ^ bits * unat x" using or_push [OF Cons.prems(2), of x] by simp
    have b: "unat (buf OR push_bit bits x) < 2 ^ (bits + k)" using digit_bound [OF Cons.prems(2) x] by (simp add: o power_add)
    obtain bs buf' bits' m' where d: "drain (buf OR push_bit bits x) (bits + k) m = (bs, buf', bits', m')" by (metis prod_cases4)
    note v = drain_val [OF b d, of "val k xs"]
    have IH: "val 8 (pack k xs buf' bits' m') = (unat buf' + 2 ^ bits' * val k xs) mod 2 ^ (8 * m')"
        "length (pack k xs buf' bits' m') = m'"
      using Cons.IH [of buf' bits' m'] Cons.prems(1) v by auto
    let ?V = "unat buf' + 2 ^ bits' * val k xs" and ?n = "length bs"
    have bs: "val 8 bs < 2 ^ (8 * ?n)" using val_bound [OF small_bytes] .
    have e: "unat buf + 2 ^ bits * val k (x # xs) = val 8 bs + 2 ^ (8 * ?n) * ?V" using v o by (simp add: power_add algebra_simps)
    have "(val 8 bs + 2 ^ (8 * ?n) * ?V) mod 2 ^ (8 * m) = val 8 bs + 2 ^ (8 * ?n) * (?V mod 2 ^ (8 * m'))"
      using digit_mod [OF bs, of ?V "2 ^ (8 * m')"] v by (simp only: add_mult_distrib2 [of 8] power_add)
    then show ?thesis using IH d v unfolding e by (simp add: val_append)
  qed simp
qed

lemma val_ones: "val 8 (replicate n (0xFF :: u8)) + 1 = 2 ^ (8 * n)"
  by (induction n) (simp_all add: power_add)

lemma clear_top_bit:
  fixes bs :: bytes
  assumes "length bs = Suc n"
  shows "val 8 (bs[n := bs ! n AND 0x7F]) = val 8 bs mod 2 ^ (8 * n + 7)"
proof -
  have last: "val 8 xs = val 8 (take n xs) + 2 ^ (8 * n) * unat (xs ! n)" if "length xs = Suc n" for xs :: bytes
  proof -
    have "drop n xs = [xs ! n]" using that by (intro nth_equalityI) simp_all
    then show ?thesis using val_take_drop [of n xs 8] that by simp
  qed
  have "unat (bs ! n AND 0x7F) = unat (bs ! n) mod 2 ^ 7" using carry_digit(1) [of "bs ! n" 7] by (simp add: mask_eq_exp_minus_1)
  then have b: "val 8 (bs[n := bs ! n AND 0x7F]) = val 8 (take n bs) + 2 ^ (8 * n) * (unat (bs ! n) mod 2 ^ 7)"
    using last [of "bs[n := bs ! n AND 0x7F]"] assms by simp
  have "val 8 (take n bs) < 2 ^ (8 * n)" using val_bound [of 8 "take n bs"] assms by simp
  from digit_mod [OF this, of "unat (bs ! n)" "2 ^ 7"] show ?thesis
    unfolding b last [OF assms] power_add by simp
qed

section \<open>Comparison without branches\<close>

text \<open>The loop \<^verbatim>\<open>diff |= x ^ y\<close> over two slices of the same length ends with 0 exactly when they are equal.\<close>

lemma or_fold: "foldl (\<lambda>acc b. acc OR b) d bs = 0 \<longleftrightarrow> d = 0 \<and> (\<forall>b\<in>set bs. b = 0)" for d :: "'w::len word"
  by (induction bs arbitrary: d) (auto simp: or_eq_0_iff)

lemma xor_zero_iff: "x XOR y = 0 \<longleftrightarrow> x = y" for x y :: "'w::len word"
  by (auto simp: bit_eq_iff bit_xor_iff)

lemma xor_zeros: "length a = length b \<Longrightarrow> (\<forall>z\<in>set (map (\<lambda>(x, y). x XOR y) (zip a b)). z = 0) \<longleftrightarrow> a = b"
  for a b :: "'w::len word list"
  by (induction a b rule: list_induct2) (simp_all add: xor_zero_iff)

lemma ct_fold:
  fixes a b :: "'w::len word list"
  assumes "length a = length b"
  shows "foldl (\<lambda>diff (x, y). diff OR (x XOR y)) 0 (zip a b) = 0 \<longleftrightarrow> a = b"
proof -
  have "foldl (\<lambda>diff (x, y). diff OR (x XOR y)) d zs = foldl (\<lambda>acc b. acc OR b) d (map (\<lambda>(x, y). x XOR y) zs)"
    for d :: "'w word" and zs by (induction zs arbitrary: d) (auto split: prod.split)
  then show ?thesis using xor_zeros [OF assms] by (simp only: or_fold simp_thms)
qed

end
