(* ===== verification/Residue.thy ===== *)
theory Residue
  imports Limbs
begin

unbundle bit_operations_syntax

text \<open>
  The interface of a modular arithmetic: elements with a canonical form whose value is below the
  modulus, and operations that compute sums, differences and products of the values. Its clients are
  the square-and-multiply exponentiation and the Montgomery ladder of \<^verbatim>\<open>tpt-x25519\<close> and
  \<^verbatim>\<open>tpt-ed25519\<close>; its providers are their field elements.
\<close>

section \<open>Square and multiply\<close>

text \<open>One exponent bit: square, then multiply by the base if the bit is set.\<close>

definition pow_step :: "('e \<Rightarrow> 'e \<Rightarrow> 'e) \<Rightarrow> 'e \<Rightarrow> 'e \<Rightarrow> bool \<Rightarrow> 'e" where
  "pow_step mul base acc b = (let acc = mul acc acc in if b then mul acc base else acc)"

text \<open>The bits of a byte and of a little-endian byte string, most significant first.\<close>

definition byte_bits :: "u8 \<Rightarrow> bool list" where
  "byte_bits b = map (bit b) (rev [0..<8])"

definition bits_msb :: "bytes \<Rightarrow> bool list" where
  "bits_msb bs = concat (map byte_bits (rev bs))"

definition pow_bits :: "('e \<Rightarrow> 'e \<Rightarrow> 'e) \<Rightarrow> 'e \<Rightarrow> 'e \<Rightarrow> bool list \<Rightarrow> 'e" where
  "pow_bits mul one base bits = foldl (pow_step mul base) one bits"

definition bits_val :: "bool list \<Rightarrow> nat" where
  "bits_val bits = foldl (\<lambda>n b. 2 * n + of_bool b) 0 bits"

lemma bits_val_acc: "foldl (\<lambda>n b. 2 * n + of_bool b) n bits = 2 ^ length bits * n + bits_val bits"
proof (induction bits arbitrary: n rule: rev_induct)
  case (snoc b bits)
  have "bits_val (bits @ [b]) = 2 * bits_val bits + of_bool b" by (simp add: bits_val_def)
  then show ?case using snoc [of n] by simp
qed (simp add: bits_val_def)

lemma bits_val_append: "bits_val (xs @ ys) = 2 ^ length ys * bits_val xs + bits_val ys"
  using bits_val_acc [of "bits_val xs" ys] by (simp add: bits_val_def)

lemma byte_bits_val: "bits_val (byte_bits b) = unat b"
proof -
  have u: "[0..<8] = [0, 1, 2, 3, 4, 5, 6, 7]" by (simp add: numeral_eq_Suc)
  have "bits_val (byte_bits b) = horner_sum of_bool 2 (map (bit b) [0..<8])"
    by (simp add: bits_val_def byte_bits_def u)
  also have "map (bit b) [0..<8] = map (bit (unat b)) [0..<8]" by (simp add: bit_unsigned_iff)
  also have "horner_sum of_bool 2 (map (bit (unat b)) [0..<8]) = take_bit 8 (unat b)"
    by (rule horner_sum_bit_eq_take_bit)
  also have "\<dots> = unat b" using unat_less_power [of b] by (simp add: take_bit_nat_eq_self)
  finally show ?thesis .
qed

lemma length_byte_bits [simp]: "length (byte_bits b) = 8"
  by (simp add: byte_bits_def)

lemma bits_msb_val: "bits_val (bits_msb bs) = val 8 bs"
proof (induction bs)
  case (Cons b bs)
  then show ?case by (simp add: bits_msb_def bits_val_append byte_bits_val)
qed (simp add: bits_msb_def bits_val_def)

section \<open>The Montgomery ladder\<close>

type_synonym 'e ladder = "'e \<times> 'e \<times> 'e \<times> 'e"

text \<open>The body of the loop after the swap, in the order of the source.\<close>

definition ladder_body ::
    "('e \<Rightarrow> 'e \<Rightarrow> 'e) \<Rightarrow> ('e \<Rightarrow> 'e \<Rightarrow> 'e) \<Rightarrow> ('e \<Rightarrow> 'e \<Rightarrow> 'e) \<Rightarrow> 'e \<Rightarrow> 'e \<Rightarrow> 'e ladder \<Rightarrow> 'e ladder" where
  "ladder_body add sub mul a24 x1 = (\<lambda>(x2, z2, x3, z3).
     let a = add x2 z2; aa = mul a a;
         b = sub x2 z2; bb = mul b b;
         e = sub aa bb;
         c = add x3 z3; d = sub x3 z3;
         da = mul d a; cb = mul c b;
         x3n = add da cb; x3n = mul x3n x3n;
         z3n = sub da cb; z3n = mul z3n z3n; z3n = mul x1 z3n;
         x2n = mul aa bb;
         z2n = mul e (add aa (mul a24 e))
     in (x2n, z2n, x3n, z3n))"

text \<open>
  The constant-time form: \<open>cswap\<close> exchanges by the bit \<open>swap\<close>, which is the difference to the previous bit of the
  scalar, so that the exchange of one step is undone together with that of the next.
\<close>

definition ladder_step ::
    "('e ladder \<Rightarrow> 'e ladder) \<Rightarrow> (u8 \<Rightarrow> 'e \<Rightarrow> 'e \<Rightarrow> 'e \<times> 'e) \<Rightarrow> 'e ladder \<times> u8 \<Rightarrow> bool \<Rightarrow> 'e ladder \<times> u8" where
  "ladder_step body cswap = (\<lambda>((x2, z2, x3, z3), swap) bt.
     let kt = of_bool bt;
         swap = swap XOR kt;
         (x2, x3) = cswap swap x2 x3;
         (z2, z3) = cswap swap z2 z3
     in (body (x2, z2, x3, z3), kt))"

definition ladder_finish :: "(u8 \<Rightarrow> 'e \<Rightarrow> 'e \<Rightarrow> 'e \<times> 'e) \<Rightarrow> 'e ladder \<times> u8 \<Rightarrow> 'e \<times> 'e" where
  "ladder_finish cswap = (\<lambda>((x2, z2, x3, z3), swap). (fst (cswap swap x2 x3), fst (cswap swap z2 z3)))"

text \<open>The specification: exchange for a set bit, step, and exchange back.\<close>

fun ladder_swap :: "bool \<Rightarrow> 'e ladder \<Rightarrow> 'e ladder" where
  "ladder_swap b (x2, z2, x3, z3) = (if b then (x3, z3, x2, z2) else (x2, z2, x3, z3))"

definition ladder_spec :: "('e ladder \<Rightarrow> 'e ladder) \<Rightarrow> 'e ladder \<Rightarrow> bool list \<Rightarrow> 'e ladder" where
  "ladder_spec body = foldl (\<lambda>s b. ladder_swap b (body (ladder_swap b s)))"

lemma ladder_swap_False [simp]: "ladder_swap False s = s"
  by (cases s) simp

lemma ladder_swap_twice: "ladder_swap b (ladder_swap c s) = ladder_swap (b \<noteq> c) s"
  by (cases s) auto

text \<open>
  The ladder of RFC 7748 on the numbers: \<open>n\<close> bits of the number \<open>k\<close>, the highest first, modulo \<open>p\<close>, and the
  quotient of the two coordinates as a product with the power \<open>p - 2\<close>.
\<close>

definition mont_ladder :: "nat \<Rightarrow> nat \<Rightarrow> nat \<Rightarrow> nat \<Rightarrow> nat \<Rightarrow> nat ladder" where
  "mont_ladder p a24 n k u =
     ladder_spec (ladder_body (\<lambda>a b. (a + b) mod p) (\<lambda>a b. (a + p - b) mod p) (\<lambda>a b. a * b mod p) a24 u)
       (1, 0, u, 1) (map (bit k) (rev [0..<n]))"

definition mont_result :: "nat \<Rightarrow> nat \<Rightarrow> nat \<Rightarrow> nat \<Rightarrow> nat \<Rightarrow> nat" where
  "mont_result p a24 n k u = (case mont_ladder p a24 n k u of (x2, z2, x3, z3) \<Rightarrow> x2 * z2 ^ (p - 2) mod p)"

lemma bit_split: "bit (u + 2 ^ m * n) t = (if t < m then bit u t else bit n (t - m))" if "u < 2 ^ m" for u n :: nat
proof (cases "t < m")
  case True
  then have "(2 :: nat) ^ m = 2 ^ t * (2 * 2 ^ (m - t - 1))" by (simp flip: power_add power_Suc)
  then have "(u + 2 ^ m * n) div 2 ^ t = u div 2 ^ t + 2 * (2 ^ (m - t - 1) * n)" by (simp add: mult.assoc)
  then show ?thesis using True by (simp add: bit_iff_odd)
next
  case False
  then have "(2 :: nat) ^ t = 2 ^ m * 2 ^ (t - m)" by (simp flip: power_add)
  then have "(u + 2 ^ m * n) div 2 ^ t = n div 2 ^ (t - m)" using that by (simp add: div_mult2_eq)
  then show ?thesis using False by (simp add: bit_iff_odd)
qed

lemma bit_val: "t < 8 * length bs \<Longrightarrow> bit (val 8 bs) t = bit (bs ! (t div 8)) (t mod 8)" for bs :: bytes
proof (induction bs arbitrary: t)
  case (Cons b bs)
  have b: "unat b < 2 ^ 8" using unat_less_power [of b] by simp
  show ?case
  proof (cases "t < 8")
    case True
    then show ?thesis using bit_split [OF b, of "val 8 bs" t] by (simp add: bit_unsigned_iff)
  next
    case False
    then have "t div 8 = Suc ((t - 8) div 8)" "t mod 8 = (t - 8) mod 8" by (simp_all add: le_div_geq le_mod_geq)
    then show ?thesis using False bit_split [OF b, of "val 8 bs" t] Cons by simp
  qed
qed simp

text \<open>The bit number \<open>t\<close> of the scalar as the loops of the source read it.\<close>

definition scalar_bit :: "bytes \<Rightarrow> nat \<Rightarrow> bool" where
  "scalar_bit k t = (drop_bit (t mod 8) (k ! (t div 8)) AND 1 = 1)"

lemma scalar_bits: "n \<le> 8 * length k \<Longrightarrow> map (scalar_bit k) (rev [0..<n]) = map (bit (val 8 k)) (rev [0..<n])"
  by (simp add: scalar_bit_def bit_val flip: bit_iff_and_drop_bit_eq_1)

section \<open>Clamped scalars\<close>

text \<open>The masks of the two \<open>clamp\<close> functions on the first and the last byte, and what they do to the number.\<close>

lemma less_8: "n < 8 \<longleftrightarrow> n = 0 \<or> n = 1 \<or> n = 2 \<or> n = 3 \<or> n = 4 \<or> n = 5 \<or> n = 6 \<or> n = (7 :: nat)"
  by arith

lemma unat_clear_low: "unat (push_bit c (drop_bit c b)) = unat b - unat b mod 2 ^ c" for b :: u8
proof -
  have "unat b div 2 ^ c * 2 ^ c \<le> unat b" by (simp add: div_times_less_eq_dividend)
  then have "unat b div 2 ^ c * 2 ^ c < 2 ^ 8" using unat_less_power [of b] by (simp del: div_times_less_eq_dividend)
  moreover have "unat b < 2 ^ 8" using unat_less_power [of b] by simp
  ultimately show ?thesis unfolding unsigned_push_bit_eq unsigned_drop_bit_eq
    by (simp add: push_bit_eq_mult drop_bit_eq_div take_bit_nat_eq_self minus_mod_eq_mult_div mult.commute)
qed

lemma and_248: "unat (b AND 248) = unat b - unat b mod 2 ^ 3" for b :: u8
proof -
  have "b AND 248 = push_bit 3 (drop_bit 3 b)"
    by (rule bit_word_eqI) (auto simp: bit_push_bit_iff bit_drop_bit_eq bit_and_iff less_8)
  then show ?thesis by (simp only: unat_clear_low)
qed

lemma and_252: "unat (b AND 252) = unat b - unat b mod 2 ^ 2" for b :: u8
proof -
  have "b AND 252 = push_bit 2 (drop_bit 2 b)"
    by (rule bit_word_eqI) (auto simp: bit_push_bit_iff bit_drop_bit_eq bit_and_iff less_8, simp_all add: numeral_eq_Suc)
  then show ?thesis by (simp only: unat_clear_low)
qed

lemma or_64: "unat ((b AND 127) OR 64) = 64 + unat b mod 64" for b :: u8
proof -
  have d: "\<not> bit (take_bit 6 b) n \<or> \<not> bit (64 :: u8) n" for n
  proof (cases "n < 6")
    case True
    then have "n = 0 \<or> n = 1 \<or> n = 2 \<or> n = 3 \<or> n = 4 \<or> n = 5" by arith
    then show ?thesis by auto
  qed (simp add: bit_take_bit_iff)
  have "(b AND 127) OR 64 = take_bit 6 b OR 64"
    by (rule bit_word_eqI) (auto simp: bit_take_bit_iff bit_and_iff bit_or_iff less_8)
  also have "\<dots> = take_bit 6 b + 64" by (rule disjunctive_add [symmetric, OF d])
  moreover have "unat (take_bit 6 b) = unat b mod 64" unfolding unsigned_take_bit_eq by (simp add: take_bit_eq_mod)
  ultimately show ?thesis by (simp add: unat_word_ariths)
qed

lemma byte_ends:
  assumes "length s = Suc (Suc n)"
  obtains a m z where "s = a # m @ [z]" and "length m = n"
proof -
  obtain a t where "s = a # t" "length t = Suc n" using assms by (auto simp: length_Suc_conv)
  moreover then obtain m z where "t = m @ [z]" by (metis append_butlast_last_id list.size(3) nat.distinct(1))
  ultimately show ?thesis using that by simp
qed

lemma clamp_number:
  fixes a m z :: nat
  assumes "a < 2 ^ 8" and "m < 2 ^ n" and "c \<le> 8"
  defines "s \<equiv> a + 2 ^ 8 * (m + 2 ^ n * z)"
  shows "a - a mod 2 ^ c + 2 ^ 8 * (m + 2 ^ n * (64 + z mod 64)) = 2 ^ (n + 14) + (s mod 2 ^ (n + 14) - s mod 2 ^ c)"
proof -
  let ?l = "a + 2 ^ 8 * (m + 2 ^ n * (z mod 64))"
  have e: "(2 :: nat) ^ (n + 14) = 2 ^ 8 * (64 * 2 ^ n)" by (simp add: power_add)
  obtain q r where z: "z div 64 = q" "z mod 64 = r" "z = r + 64 * q" by (metis mod_mult_div_eq)
  then have "s = ?l + 2 ^ (n + 14) * (z div 64)" unfolding s_def e z(1, 2) by (simp add: algebra_simps)
  moreover have "?l < 2 ^ (n + 14)"
  proof -
    have "z mod 64 \<le> 63" by simp
    then have "2 ^ n * (z mod 64) \<le> 2 ^ n * (63 :: nat)" by (rule mult_le_mono2)
    then have "Suc (m + 2 ^ n * (z mod 64)) \<le> 64 * 2 ^ n" using assms(2) by linarith
    then have "2 ^ 8 * Suc (m + 2 ^ n * (z mod 64)) \<le> 2 ^ 8 * (64 * 2 ^ n)" by (rule mult_le_mono2)
    then show ?thesis using assms(1) unfolding e by simp
  qed
  ultimately have "s mod 2 ^ (n + 14) = ?l" by simp
  moreover have "s mod 2 ^ c = a mod 2 ^ c"
  proof -
    have "(2 :: nat) ^ 8 = 2 ^ c * 2 ^ (8 - c)" using assms(3) by (simp flip: power_add)
    then have "s = a + 2 ^ c * (2 ^ (8 - c) * (m + 2 ^ n * z))" unfolding s_def by (simp only: mult.assoc)
    then show ?thesis by (metis mod_mult_self2)
  qed
  moreover have "a mod 2 ^ c \<le> a" by simp
  moreover have "2 ^ 8 * (m + 2 ^ n * (64 + z mod 64)) = 2 ^ (n + 14) + 2 ^ 8 * (m + 2 ^ n * (z mod 64))"
    unfolding e by (simp add: algebra_simps)
  ultimately show ?thesis by linarith
qed

lemma clamp_val:
  fixes a a' z :: u8
  assumes "length m = n" and "c \<le> 8" and "unat a' = unat a - unat a mod 2 ^ c"
  defines "s \<equiv> a # m @ [z]"
  shows "val 8 (a' # m @ [(z AND 127) OR 64]) = 2 ^ (8 * n + 14) + (val 8 s mod 2 ^ (8 * n + 14) - val 8 s mod 2 ^ c)"
proof -
  have m: "val 8 m < 2 ^ (8 * n)" using val_bound [OF small_bytes, of m] assms(1) by simp
  have "val 8 s = unat a + 2 ^ 8 * (val 8 m + 2 ^ (8 * n) * unat z)" by (simp add: s_def val_append assms(1))
  then show ?thesis
    using clamp_number [OF _ m assms(2), of "unat a" "unat z"] unat_less_power [of a] assms(1, 3) or_64 [of z]
    by (simp add: val_append)
qed

section \<open>The interface\<close>

locale residue_arith =
  fixes p :: nat and canon :: "'e \<Rightarrow> bool" and v :: "'e \<Rightarrow> nat" and one :: 'e
    and add :: "'e \<Rightarrow> 'e \<Rightarrow> 'e" and sub :: "'e \<Rightarrow> 'e \<Rightarrow> 'e" and mul :: "'e \<Rightarrow> 'e \<Rightarrow> 'e"
  assumes modulus: "1 < p"
    and one_law: "canon one \<and> v one = 1"
    and add_law: "canon a \<Longrightarrow> canon b \<Longrightarrow> canon (add a b) \<and> v (add a b) = (v a + v b) mod p"
    and sub_law: "canon a \<Longrightarrow> canon b \<Longrightarrow> canon (sub a b) \<and> v (sub a b) = (v a + p - v b) mod p"
    and mul_law: "canon a \<Longrightarrow> canon b \<Longrightarrow> canon (mul a b) \<and> v (mul a b) = v a * v b mod p"
begin

lemma pow_acc:
  assumes "canon base" and "canon acc" and "v acc = v base ^ n mod p"
  shows "canon (foldl (pow_step mul base) acc bits) \<and>
    v (foldl (pow_step mul base) acc bits) = v base ^ foldl (\<lambda>n b. 2 * n + of_bool b) n bits mod p"
  using assms(2, 3)
proof (induction bits arbitrary: acc n)
  case (Cons b bits)
  have sq: "canon (mul acc acc)" "v (mul acc acc) = v base ^ (2 * n) mod p"
    using mul_law [OF Cons.prems(1) Cons.prems(1)] Cons.prems(2) by (simp_all add: mod_mult_eq power_add mult_2)
  have "canon (pow_step mul base acc b) \<and> v (pow_step mul base acc b) = v base ^ (2 * n + of_bool b) mod p"
    using sq mul_law [OF sq(1) assms(1)] by (simp add: pow_step_def Let_def mod_mult_left_eq mod_mult_right_eq mult.commute)
  then show ?case using Cons.IH [of "pow_step mul base acc b" "2 * n + of_bool b"] by simp
qed simp

lemma pow_bits_law:
  assumes "canon base"
  shows "canon (pow_bits mul one base bits) \<and> v (pow_bits mul one base bits) = v base ^ bits_val bits mod p"
  unfolding pow_bits_def bits_val_def using pow_acc [OF assms, of one 0] one_law modulus by simp

abbreviation body_mod :: "nat \<Rightarrow> nat \<Rightarrow> nat ladder \<Rightarrow> nat ladder" where
  "body_mod \<equiv> ladder_body (\<lambda>a b. (a + b) mod p) (\<lambda>a b. (a + p - b) mod p) (\<lambda>a b. a * b mod p)"

fun canon4 :: "'e ladder \<Rightarrow> bool" where
  "canon4 (x2, z2, x3, z3) \<longleftrightarrow> canon x2 \<and> canon z2 \<and> canon x3 \<and> canon z3"

fun v4 :: "'e ladder \<Rightarrow> nat ladder" where
  "v4 (x2, z2, x3, z3) = (v x2, v z2, v x3, v z3)"

lemma body_law:
  assumes "canon4 s" and "canon a24" and "canon x1"
  shows "canon4 (ladder_body add sub mul a24 x1 s) \<and> v4 (ladder_body add sub mul a24 x1 s) = body_mod (v a24) (v x1) (v4 s)"
proof -
  obtain x2 z2 x3 z3 where s: "s = (x2, z2, x3, z3)" by (metis surj_pair)
  then have i: "canon x2" "canon z2" "canon x3" "canon z3" using assms(1) by simp_all
  define a where "a = add x2 z2"
  define b where "b = sub x2 z2"
  define aa where "aa = mul a a"
  define bb where "bb = mul b b"
  define e where "e = sub aa bb"
  define c where "c = add x3 z3"
  define d where "d = sub x3 z3"
  define da where "da = mul d a"
  define cb where "cb = mul c b"
  define m where "m = mul (sub da cb) (sub da cb)"
  note a = add_law [OF i(1, 2), folded a_def] and b = sub_law [OF i(1, 2), folded b_def]
  note c = add_law [OF i(3, 4), folded c_def] and d = sub_law [OF i(3, 4), folded d_def]
  note ca = conjunct1 [OF a] and cb' = conjunct1 [OF b] and cc = conjunct1 [OF c] and cd = conjunct1 [OF d]
  note aa = mul_law [OF ca ca, folded aa_def] and bb = mul_law [OF cb' cb', folded bb_def]
  note e = sub_law [OF conjunct1 [OF aa] conjunct1 [OF bb], folded e_def]
  note da = mul_law [OF cd ca, folded da_def] and cb = mul_law [OF cc cb', folded cb_def]
  note x = add_law [OF conjunct1 [OF da] conjunct1 [OF cb]] and z = sub_law [OF conjunct1 [OF da] conjunct1 [OF cb]]
  note m = mul_law [OF conjunct1 [OF z] conjunct1 [OF z], folded m_def]
  note k = mul_law [OF assms(2) conjunct1 [OF e]]
  note y = add_law [OF conjunct1 [OF aa] conjunct1 [OF k]]
  note out = mul_law [OF conjunct1 [OF aa] conjunct1 [OF bb]] mul_law [OF conjunct1 [OF e] conjunct1 [OF y]]
    mul_law [OF conjunct1 [OF x] conjunct1 [OF x]] mul_law [OF assms(3) conjunct1 [OF m]]
  have "ladder_body add sub mul a24 x1 s = (mul aa bb, mul e (add aa (mul a24 e)), mul (add da cb) (add da cb), mul x1 m)"
    unfolding s ladder_body_def Let_def prod.case m_def e_def aa_def bb_def da_def cb_def a_def b_def c_def d_def by (rule refl)
  then show ?thesis
    using out by (simp only: canon4.simps v4.simps s ladder_body_def Let_def prod.case a b c d aa bb e da cb x z m k y)
qed

end

locale ladder_arith = residue_arith +
  fixes cswap :: "u8 \<Rightarrow> 'a \<Rightarrow> 'a \<Rightarrow> 'a \<times> 'a"
  assumes cswap_law: "canon x \<Longrightarrow> canon y \<Longrightarrow> cswap (of_bool b) x y = (if b then (y, x) else (x, y))"
begin

lemma cswap_bits: "canon x \<Longrightarrow> canon y \<Longrightarrow> cswap 0 x y = (x, y)" "canon x \<Longrightarrow> canon y \<Longrightarrow> cswap 1 x y = (y, x)"
  using cswap_law [of x y False] cswap_law [of x y True] by simp_all

lemma step_law:
  assumes "canon4 s"
  shows "ladder_step body cswap (ladder_swap sw s, of_bool sw) b = (body (ladder_swap b s), of_bool b)"
proof -
  obtain x2 z2 x3 z3 where s: "s = (x2, z2, x3, z3)" by (metis surj_pair)
  show ?thesis
    using assms by (cases sw; cases b) (simp_all add: s ladder_step_def Let_def cswap_bits)
qed

lemma ladder_swap_canon [simp]: "canon4 (ladder_swap b s) \<longleftrightarrow> canon4 s"
  by (cases s) auto

lemma v4_ladder_swap: "v4 (ladder_swap b s) = ladder_swap b (v4 s)"
  by (cases s) simp

lemma run_law:
  assumes "canon4 s" and "canon a24" and "canon x1"
  defines "body \<equiv> ladder_body add sub mul a24 x1"
  shows "\<exists>sw'. foldl (ladder_step body cswap) (ladder_swap sw s, of_bool sw) bits = (ladder_swap sw' (ladder_spec body s bits), of_bool sw') \<and>
    canon4 (ladder_spec body s bits) \<and> v4 (ladder_spec body s bits) = ladder_spec (body_mod (v a24) (v x1)) (v4 s) bits"
  using assms(1)
proof (induction bits arbitrary: s sw)
  case Nil
  then show ?case by (intro exI [of _ sw]) (simp add: ladder_spec_def)
next
  case (Cons b bits)
  let ?s = "ladder_swap b (body (ladder_swap b s))"
  have b: "canon4 (body (ladder_swap b s))" "v4 (body (ladder_swap b s)) = body_mod (v a24) (v x1) (ladder_swap b (v4 s))"
    using body_law [of "ladder_swap b s" a24 x1] Cons.prems assms(2, 3) by (simp_all add: body_def v4_ladder_swap)
  have "foldl (ladder_step body cswap) (ladder_swap sw s, of_bool sw) (b # bits) =
      foldl (ladder_step body cswap) (ladder_swap b ?s, of_bool b) bits"
    using step_law [OF Cons.prems] by (simp add: ladder_swap_twice)
  moreover have "canon4 ?s" using b(1) by simp
  ultimately show ?case
    using Cons.IH [of ?s b] b(2) by (simp add: ladder_spec_def v4_ladder_swap)
qed

lemma ladder_law:
  assumes "canon4 s" and "canon a24" and "canon x1"
  shows "\<exists>x z. ladder_finish cswap (foldl (ladder_step (ladder_body add sub mul a24 x1) cswap) (s, 0) bits) = (x, z) \<and>
    canon x \<and> canon z \<and> (\<exists>x3 z3. ladder_spec (body_mod (v a24) (v x1)) (v4 s) bits = (v x, v z, x3, z3))"
proof -
  let ?body = "ladder_body add sub mul a24 x1"
  obtain sw' where r: "foldl (ladder_step ?body cswap) (s, 0) bits = (ladder_swap sw' (ladder_spec ?body s bits), of_bool sw')"
      "canon4 (ladder_spec ?body s bits)" "v4 (ladder_spec ?body s bits) = ladder_spec (body_mod (v a24) (v x1)) (v4 s) bits"
    using run_law [OF assms, of False bits] ladder_swap_twice [of False False s] by (cases s) auto
  obtain x2 z2 x3 z3 where t: "ladder_spec ?body s bits = (x2, z2, x3, z3)" by (metis surj_pair)
  have "ladder_finish cswap (ladder_swap sw' (x2, z2, x3, z3), of_bool sw') = (x2, z2)"
    using r(2) t by (cases sw') (simp_all add: ladder_finish_def cswap_bits)
  then show ?thesis using r(1, 2) r(3) [symmetric] by (simp add: t)
qed

lemma mont_law:
  assumes "canon u" and "canon a24" and "canon zero" and "v zero = 0"
  shows "\<exists>x z. ladder_finish cswap
      (foldl (ladder_step (ladder_body add sub mul a24 u) cswap) ((one, zero, u, one), 0) (map (bit k) (rev [0..<n]))) = (x, z) \<and>
    canon x \<and> canon z \<and> (\<exists>x3 z3. mont_ladder p (v a24) n k (v u) = (v x, v z, x3, z3))"
  using ladder_law [of "(one, zero, u, one)" a24 u "map (bit k) (rev [0..<n])"] assms one_law by (simp add: mont_ladder_def)

end

end
