(* ===== verification/X25519_Field.thy ===== *)
theory X25519_Field
  imports Residue
begin

unbundle bit_operations_syntax

text \<open>
  The field modulo \<open>2 ^ 255 - 19\<close> of \<^verbatim>\<open>tpt-x25519/src/field255.rs\<close>: ten 64-bit limbs of 51 bits, 128-bit
  products, carries, four folds by \<open>2 ^ 255 = 19\<close> and one conditional subtraction. Every operation
  returns the canonical limbs of the result in the integers modulo the prime.
\<close>

type_synonym fe255 = "u64 list"

abbreviation LIMBS255 :: nat where "LIMBS255 \<equiv> 10"
abbreviation RADIX255 :: nat where "RADIX255 \<equiv> 51"

definition P_LIMBS255 :: fe255 where
  "P_LIMBS255 = [2 ^ 51 - 19, 2 ^ 51 - 1, 2 ^ 51 - 1, 2 ^ 51 - 1, 2 ^ 51 - 1, 0, 0, 0, 0, 0]"

definition ZERO255 :: fe255 where "ZERO255 = replicate LIMBS255 0"
definition ONE255 :: fe255 where "ONE255 = [1, 0, 0, 0, 0, 0, 0, 0, 0, 0]"

definition normalize255 :: "fe255 \<Rightarrow> fe255" where
  "normalize255 r = carry_run RADIX255 0 r"

definition normalize_u128_255 :: "u128 list \<Rightarrow> fe255" where
  "normalize_u128_255 t = map ucast (carry_run RADIX255 0 t)"

definition sub_raw255 :: "fe255 \<Rightarrow> fe255 \<Rightarrow> fe255 \<times> u64" where
  "sub_raw255 a b = borrow_run RADIX255 0 a b"

text \<open>One of the four folds: \<open>low + 19 * high\<close> limb by limb.\<close>

definition fold255 :: "fe255 \<Rightarrow> fe255" where
  "fold255 r =
     (let low = map ucast (take 5 r) :: u128 list; high = map ucast (drop 5 r) :: u128 list
      in normalize_u128_255 (map2 (\<lambda>l h. l + 19 * h) low high @ replicate 5 0))"

definition reduce255 :: "fe255 \<Rightarrow> fe255" where
  "reduce255 r =
     (let r = (fold255 ^^ 4) (normalize255 r);
          (diff, borrow) = sub_raw255 r P_LIMBS255
      in ct_select r diff borrow)"

definition add255 :: "fe255 \<Rightarrow> fe255 \<Rightarrow> fe255" where
  "add255 a b = reduce255 (carry_run RADIX255 0 (map2 (+) a b))"

definition sub255 :: "fe255 \<Rightarrow> fe255 \<Rightarrow> fe255" where
  "sub255 a b =
     (let r = carry_run RADIX255 0 (map2 (+) a P_LIMBS255);
          (r, _) = borrow_run RADIX255 0 r b
      in reduce255 r)"

text \<open>One term of the schoolbook product.\<close>

definition mul_step255 :: "fe255 \<Rightarrow> fe255 \<Rightarrow> u128 list \<Rightarrow> nat \<times> nat \<Rightarrow> u128 list" where
  "mul_step255 a b t = (\<lambda>(i, j).
     let term = ucast (a ! i) * ucast (b ! j); m = i + j in
     if m \<ge> 5 then t[m - 5 := t ! (m - 5) + 19 * term] else t[m := t ! m + term])"

definition mul255 :: "fe255 \<Rightarrow> fe255 \<Rightarrow> fe255" where
  "mul255 a b =
     (let t = foldl (mul_step255 a b) (replicate LIMBS255 0) (List.product [0..<5] [0..<5])
      in reduce255 (normalize_u128_255 t))"

definition square255 :: "fe255 \<Rightarrow> fe255" where
  "square255 a = mul255 a a"

definition pow255 :: "fe255 \<Rightarrow> bytes \<Rightarrow> fe255" where
  "pow255 base e = pow_bits mul255 ONE255 base (bits_msb e)"

definition invert255 :: "fe255 \<Rightarrow> fe255" where
  "invert255 a = pow255 a (((replicate 32 0xFF)[0 := 0xEB])[31 := 0x7F])"

definition fe255_from_bytes :: "bytes \<Rightarrow> fe255" where
  "fe255_from_bytes bs = reduce255 (unpack RADIX255 LIMBS255 0 0 (bs[31 := bs ! 31 AND 0x7F]))"

definition fe255_to_bytes :: "fe255 \<Rightarrow> bytes" where
  "fe255_to_bytes a = pack RADIX255 (take 5 a) 0 0 32"

section \<open>Reduction\<close>

definition p255 :: nat where "p255 = 2 ^ 255 - 19"

definition canonical255 :: "fe255 \<Rightarrow> bool" where
  "canonical255 a \<longleftrightarrow> length a = 10 \<and> small 51 a \<and> val 51 a < p255"

definition shape255 :: "fe255 \<Rightarrow> bool" where
  "shape255 a \<longleftrightarrow> length a = 10 \<and> small 51 a"

lemma p_limbs255: "shape255 P_LIMBS255" "val 51 P_LIMBS255 = p255"
  by (simp_all add: shape255_def P_LIMBS255_def p255_def)

definition fold_val :: "nat \<Rightarrow> nat" where
  "fold_val v = v mod 2 ^ 255 + 19 * (v div 2 ^ 255)"

lemma fold_val_cong: "fold_val v mod p255 = v mod p255"
proof -
  have e: "(2::nat) ^ 255 = 19 + p255" by (simp add: p255_def)
  have "v = v mod 2 ^ 255 + 2 ^ 255 * (v div 2 ^ 255)" by simp
  then have "v = fold_val v + p255 * (v div 2 ^ 255)" unfolding fold_val_def e by (simp add: algebra_simps)
  then show ?thesis by (metis mod_mult_self2)
qed

lemma fold_val_bounds:
  "v < 2 ^ 510 \<Longrightarrow> fold_val v < 20 * 2 ^ 255"
  "v < 20 * 2 ^ 255 \<Longrightarrow> fold_val v < 2 ^ 255 + 380"
  "v < 2 ^ 255 + 380 \<Longrightarrow> fold_val v < 2 ^ 255"
  "v < 2 ^ 255 \<Longrightarrow> fold_val v = v"
proof -
  have m: "v mod 2 ^ 255 < 2 ^ 255" by simp
  show "fold_val v < 20 * 2 ^ 255" if "v < 2 ^ 510"
  proof -
    have "v < 2 ^ 255 * 2 ^ 255" using that by simp
    then have "v div 2 ^ 255 < 2 ^ 255" by (rule less_mult_imp_div_less)
    then show ?thesis unfolding fold_val_def using m by linarith
  qed
  show "fold_val v < 2 ^ 255 + 380" if "v < 20 * 2 ^ 255"
  proof -
    have "v div 2 ^ 255 < 20" using that by (rule less_mult_imp_div_less)
    then show ?thesis unfolding fold_val_def using m by linarith
  qed
  show keep: "fold_val v = v" if "v < 2 ^ 255" using that by (simp add: fold_val_def)
  show "fold_val v < 2 ^ 255" if "v < 2 ^ 255 + 380"
  proof (cases "v < 2 ^ 255")
    case True
    then show ?thesis using keep by simp
  next
    case False
    then obtain w where w: "v = 2 ^ 255 + w" by (metis le_Suc_ex not_less)
    then have "fold_val v = w + 19" using that by (simp add: fold_val_def)
    then show ?thesis using that w by simp
  qed
qed

lemma normalize_u128_255_val:
  assumes "length t = 10" and "list_all (\<lambda>x. unat x \<le> 2 ^ 120) t" and "val 51 t < 2 ^ 510"
  shows "shape255 (normalize_u128_255 t)" and "val 51 (normalize_u128_255 t) = val 51 t"
proof -
  have c: "list_all (\<lambda>x. unat x + 2 ^ (LENGTH(128) - 51) \<le> 2 ^ LENGTH(128)) t"
    using assms(2) by (auto simp: list_all_iff)
  note r = carry_run_val [OF c, of 0]
  have s: "small 51 (carry_run 51 0 t)" using r by simp
  note u = small_ucast [OF s, where 'b = 64]
  show "shape255 (normalize_u128_255 t)" using u assms(1) by (simp add: shape255_def normalize_u128_255_def)
  have "val 51 (map ucast (carry_run 51 0 t) :: u64 list) = val 51 (carry_run 51 0 t)" using u by (intro val_ucast) simp
  then show "val 51 (normalize_u128_255 t) = val 51 t" using r assms(1, 3) by (simp add: normalize_u128_255_def)
qed

lemma fold255_val:
  assumes "shape255 r"
  shows "shape255 (fold255 r)" and "val 51 (fold255 r) = fold_val (val 51 r)"
proof -
  let ?low = "map ucast (take 5 r) :: u128 list" and ?high = "map ucast (drop 5 r) :: u128 list"
  let ?t = "map2 (\<lambda>l h. l + 19 * h) ?low ?high @ replicate 5 0"
  have r: "length r = 10" "small 51 r" using assms by (simp_all add: shape255_def)
  have sm: "small 51 ?low" "small 51 ?high" using small_ucast(1) [where 'a = 64 and 'b = 128, of 51] r by simp_all
  have lv: "val 51 ?low = val 51 (take 5 r)" "val 51 ?high = val 51 (drop 5 r)"
    using small_ucast(2) [where 'a = 64 and 'b = 128, of 51] r by (simp_all add: val_ucast)
  have d: "unat (l + 19 * h) = unat l + 19 * unat h" if "l \<in> set ?low" "h \<in> set ?high" for l h :: u128
  proof -
    have "unat l < 2 ^ 51" "unat h < 2 ^ 51" using sm that by (auto simp: small_def list_all_iff)
    then show ?thesis by (simp add: unat_word_ariths)
  qed
  have v: "val 51 ?t = val 51 (take 5 r) + 19 * val 51 (drop 5 r)"
    using val_map2 [of ?low ?high "\<lambda>l h. l + 19 * h" 19 51, OF _ d] r lv by (simp add: val_append)
  have b: "val 51 (take 5 r) < 2 ^ 255" "val 51 (drop 5 r) < 2 ^ 255" using val_bound [of 51 "take 5 r"] val_bound [of 51 "drop 5 r"] r by simp_all
  have split: "val 51 r = val 51 (take 5 r) + 2 ^ 255 * val 51 (drop 5 r)" using val_take_drop [of 5 r 51] r by simp
  have fv: "fold_val (val 51 r) = val 51 (take 5 r) + 19 * val 51 (drop 5 r)" unfolding fold_val_def split using b by simp
  have "list_all (\<lambda>x. unat x \<le> 2 ^ 120) ?t"
  proof -
    have "unat (l + 19 * h) \<le> 2 ^ 120" if "(l, h) \<in> set (zip ?low ?high)" for l h
    proof -
      have i: "l \<in> set ?low" "h \<in> set ?high" using that by (auto dest: set_zip_leftD set_zip_rightD)
      then have "unat l < 2 ^ 51" "unat h < 2 ^ 51" using sm by (auto simp: small_def list_all_iff)
      then show ?thesis using d [OF i] by simp
    qed
    then show ?thesis by (auto simp: list_all_iff)
  qed
  moreover have "val 51 ?t < 2 ^ 510" unfolding v using b by simp
  ultimately show "shape255 (fold255 r)" "val 51 (fold255 r) = fold_val (val 51 r)"
    using normalize_u128_255_val [of ?t] r v fv by (simp_all add: fold255_def Let_def)
qed

lemma carry_run255:
  assumes "length r = 10" and "list_all (\<lambda>x. unat x < 2 ^ 63) r" and "val 51 r < 2 ^ 510"
  shows "shape255 (carry_run 51 0 r)" and "val 51 (carry_run 51 0 r) = val 51 r"
proof -
  have c: "list_all (\<lambda>x. unat x + 2 ^ (LENGTH(64) - 51) \<le> 2 ^ LENGTH(64)) r" using assms(2) by (auto simp: list_all_iff)
  show "shape255 (carry_run 51 0 r)" "val 51 (carry_run 51 0 r) = val 51 r"
    using carry_run_val [OF c, of 0] assms(1, 3) by (simp_all add: shape255_def)
qed

lemma shape255_bound: "shape255 r \<Longrightarrow> val 51 r < 2 ^ 510"
  using val_bound [of 51 r] by (simp add: shape255_def)

lemma normalize255_val:
  assumes "shape255 r"
  shows "shape255 (normalize255 r)" and "val 51 (normalize255 r) = val 51 r"
proof -
  have "list_all (\<lambda>x. unat x < 2 ^ 63) r" using assms by (auto simp: shape255_def small_def list_all_iff)
  from carry_run255 [OF _ this] shape255_bound [OF assms] assms
  show "shape255 (normalize255 r)" "val 51 (normalize255 r) = val 51 r" by (simp_all add: normalize255_def shape255_def)
qed

lemma reduce255_val:
  assumes "shape255 r"
  shows "canonical255 (reduce255 r) \<and> val 51 (reduce255 r) = val 51 r mod p255"
proof -
  let ?n = "normalize255 r" and ?r = "(fold255 ^^ 4) (normalize255 r)"
  note n = normalize255_val [OF assms]
  have sh: "shape255 ((fold255 ^^ i) ?n)" for i by (induction i) (use n fold255_val in simp_all)
  have it: "val 51 ((fold255 ^^ i) ?n) = (fold_val ^^ i) (val 51 r)" for i
    by (induction i) (use n fold255_val sh in simp_all)
  have "(fold_val ^^ 4) x = fold_val (fold_val (fold_val (fold_val x)))" for x by (simp add: numeral_eq_Suc)
  then have f: "val 51 ?r = fold_val (fold_val (fold_val (fold_val (val 51 r))))" unfolding it .
  have lt: "val 51 ?r < 2 ^ 255" using fold_val_bounds shape255_bound [OF assms] unfolding f by metis
  have cong: "val 51 ?r mod p255 = val 51 r mod p255" unfolding f fold_val_cong ..
  obtain diff bo where d: "borrow_run 51 0 ?r P_LIMBS255 = (diff, bo)" by force
  have bo: "unat bo \<le> 1" and df: "small 51 diff" "length diff = 10"
    and e: "val 51 diff + p255 = val 51 ?r + 2 ^ 510 * unat bo"
    using borrow_run_val [OF _ _ _ _ _ d] sh [of 4] p_limbs255 by (auto simp: shape255_def)
  have red: "reduce255 r = (if bo = 1 then ?r else diff)"
    using ct_select_eq [of ?r diff bo] d bo df sh [of 4] by (simp add: reduce255_def sub_raw255_def shape255_def)
  show ?thesis
  proof (cases "bo = 1")
    case True
    have "val 51 diff < 2 ^ 510" using val_bound [OF df(1)] df(2) by simp
    then have "val 51 ?r < p255" using e True by simp
    then show ?thesis using red True sh [of 4] cong by (simp add: canonical255_def shape255_def)
  next
    case False
    then have "unat bo = 0" using bo by (metis le_less less_one unat_1 word_unat_eq_iff)
    then have e': "val 51 ?r = val 51 diff + p255" using e by simp
    have p: "(2::nat) ^ 255 = 19 + p255" by (simp add: p255_def)
    have "val 51 diff < 19" using e' lt unfolding p by simp
    moreover have "19 < p255" by (simp add: p255_def)
    ultimately have dl: "val 51 diff < p255" by (rule less_trans)
    then have "val 51 diff = val 51 r mod p255" using cong unfolding e' by simp
    then show ?thesis using red False df dl by (simp add: canonical255_def)
  qed
qed

section \<open>The operations\<close>

lemma canonical255D:
  assumes "canonical255 a"
  shows "shape255 a" "val 51 a < p255" "val 51 a < 2 ^ 255"
  using assms by (simp_all add: canonical255_def shape255_def p255_def)

lemma limb255: "shape255 a \<Longrightarrow> x \<in> set a \<Longrightarrow> unat x < 2 ^ 51"
  by (auto simp: shape255_def small_def list_all_iff)

lemma add_limbs255:
  assumes "shape255 a" and "shape255 b" and "val 51 a + val 51 b < 2 ^ 510"
  shows "shape255 (carry_run 51 0 (map2 (+) a b))" and "val 51 (carry_run 51 0 (map2 (+) a b)) = val 51 a + val 51 b"
proof -
  have u: "unat (x + y) = unat x + unat y" "unat (x + y) < 2 ^ 63" if "x \<in> set a" "y \<in> set b" for x y
    using limb255 [OF assms(1) that(1)] limb255 [OF assms(2) that(2)] by (simp_all add: unat_word_ariths)
  have len: "length a = length b" "length a = 10" using assms by (simp_all add: shape255_def)
  have v: "val 51 (map2 (+) a b) = val 51 a + val 51 b" using val_map2 [OF len(1), of "(+)" 1 51] u(1) by simp
  have "list_all (\<lambda>x. unat x < 2 ^ 63) (map2 (+) a b)"
    using u(2) by (auto simp: list_all_iff dest: set_zip_leftD set_zip_rightD)
  then show "shape255 (carry_run 51 0 (map2 (+) a b))" "val 51 (carry_run 51 0 (map2 (+) a b)) = val 51 a + val 51 b"
    using carry_run255 [of "map2 (+) a b"] len v assms(3) by simp_all
qed

lemma add255_val:
  assumes "canonical255 a" and "canonical255 b"
  shows "canonical255 (add255 a b) \<and> val 51 (add255 a b) = (val 51 a + val 51 b) mod p255"
proof -
  note a = canonical255D [OF assms(1)] and b = canonical255D [OF assms(2)]
  have "val 51 a + val 51 b < 2 ^ 510" using a(3) b(3) by simp
  from add_limbs255 [OF a(1) b(1) this] show ?thesis
    using reduce255_val by (simp add: add255_def)
qed

lemma sub255_val:
  assumes "canonical255 a" and "canonical255 b"
  shows "canonical255 (sub255 a b) \<and> val 51 (sub255 a b) = (val 51 a + p255 - val 51 b) mod p255"
proof -
  note a = canonical255D [OF assms(1)] and b = canonical255D [OF assms(2)]
  have "p255 < 2 ^ 255" by (simp add: p255_def)
  then have "val 51 a + val 51 P_LIMBS255 < 2 ^ 510" using a(3) unfolding p_limbs255 by simp
  note r = add_limbs255 [OF a(1) p_limbs255(1) this, unfolded p_limbs255(2)]
  let ?r = "carry_run 51 0 (map2 (+) a P_LIMBS255)"
  obtain out bo where d: "borrow_run 51 0 ?r b = (out, bo)" by force
  have o: "unat bo \<le> 1" "small 51 out" "length out = 10" "val 51 out + val 51 b = val 51 ?r + 2 ^ 510 * unat bo"
    using borrow_run_val [OF _ _ _ _ _ d] r(1) b(1) by (auto simp: shape255_def)
  have "val 51 out < 2 ^ 510" using val_bound [OF o(2)] o(3) by simp
  then have "unat bo = 0" using o(1, 4) b(2) r(2) by (cases "unat bo = 0") (auto simp: le_Suc_eq)
  then have "val 51 out = val 51 a + p255 - val 51 b" using o(4) r(2) by simp
  moreover have "shape255 out" using o by (simp add: shape255_def)
  ultimately show ?thesis using reduce255_val [of out] d by (simp add: sub255_def)
qed

text \<open>The accumulator after some terms of the product, whose sum is \<open>S\<close> modulo the prime.\<close>

definition mul_inv255 :: "nat \<Rightarrow> nat \<Rightarrow> u128 list \<Rightarrow> bool" where
  "mul_inv255 n S t \<longleftrightarrow> length t = 10 \<and> (\<forall>m<10. unat (t ! m) \<le> n * (19 * 2 ^ 102)) \<and>
     drop 5 t = replicate 5 0 \<and> val 51 t mod p255 = S mod p255"

lemma mul_term255:
  assumes "unat (x :: u64) < 2 ^ 51" and "unat (y :: u64) < 2 ^ 51"
  shows "unat (ucast x * ucast y :: u128) = unat x * unat y" and "unat x * unat y \<le> 2 ^ 102"
proof -
  have "unat x * unat y \<le> 2 ^ 51 * 2 ^ 51" using assms by (intro mult_le_mono) simp_all
  then show le: "unat x * unat y \<le> 2 ^ 102" by simp
  have "unat (ucast x :: u128) = unat x" "unat (ucast y :: u128) = unat y"
    using assms by (simp_all add: unsigned_ucast_eq take_bit_nat_eq_self)
  then show "unat (ucast x * ucast y :: u128) = unat x * unat y" using le by (simp add: unat_word_ariths)
qed

lemma fold_weight255:
  assumes "5 \<le> m"
  shows "2 ^ (51 * m) mod p255 = 19 * 2 ^ (51 * (m - 5)) mod p255"
proof -
  obtain k where k: "m = 5 + k" using le_Suc_ex [OF assms] by blast
  have e: "(2::nat) ^ 255 = 19 + p255" by (simp add: p255_def)
  have "(2::nat) ^ (51 * m) = 2 ^ (51 * k) * 2 ^ 255" by (simp add: k power_add)
  then have "(2::nat) ^ (51 * m) = 19 * 2 ^ (51 * k) + p255 * 2 ^ (51 * k)" unfolding e by (simp add: algebra_simps)
  then show ?thesis by (simp add: k)
qed

lemma mul_update255:
  assumes "mul_inv255 n S t" and "m < 5" and "n < 25" and "unat w \<le> 19 * 2 ^ 102" and "2 ^ (51 * m) * unat w mod p255 = T mod p255"
  shows "mul_inv255 (Suc n) (S + T) (t[m := t ! m + w])"
proof -
  have t: "length t = 10" "\<And>i. i < 10 \<Longrightarrow> unat (t ! i) \<le> n * (19 * 2 ^ 102)" "val 51 t mod p255 = S mod p255"
      "drop 5 t = replicate 5 0"
    using assms(1) by (simp_all add: mul_inv255_def)
  have "n * (19 * 2 ^ 102) \<le> 24 * (19 * 2 ^ 102)" using assms(3) by (intro mult_le_mono1) simp
  then have u: "unat (t ! m + w) = unat (t ! m) + unat w" using t(2) [of m] assms(2, 4) by (simp add: unat_word_ariths)
  have "unat ((t[m := t ! m + w]) ! i) \<le> Suc n * (19 * 2 ^ 102)" if "i < 10" for i
    using t(1) t(2) [OF that] that u assms(4) by (cases "i = m") simp_all
  moreover have "val 51 (t[m := t ! m + w]) = val 51 t + 2 ^ (51 * m) * unat w"
    using val_update [of m t 51 "t ! m + w"] t(1) assms(2) u by (simp add: distrib_left)
  then have "val 51 (t[m := t ! m + w]) mod p255 = (S + T) mod p255"
    using t(3) assms(5) by (metis mod_add_eq)
  ultimately show ?thesis using t(1, 4) assms(2) by (simp add: mul_inv255_def)
qed

lemma mul_step255_inv:
  assumes "mul_inv255 n S t" and "n < 25" and "shape255 a" and "shape255 b" and "i < 5" and "j < 5"
  shows "mul_inv255 (Suc n) (S + unat (a ! i) * unat (b ! j) * 2 ^ (51 * (i + j))) (mul_step255 a b t (i, j))"
proof -
  let ?w = "ucast (a ! i) * ucast (b ! j) :: u128" and ?x = "unat (a ! i) * unat (b ! j)"
  have "a ! i \<in> set a" "b ! j \<in> set b" using assms(3-6) by (simp_all add: shape255_def)
  from mul_term255 [OF limb255 [OF assms(3) this(1)] limb255 [OF assms(4) this(2)]]
  have w: "unat ?w = ?x" "?x \<le> 2 ^ 102" .
  show ?thesis
  proof (cases "5 \<le> i + j")
    case True
    have "unat (19 * ?w) = 19 * ?x" using w by (simp add: unat_word_ariths)
    moreover have "2 ^ (51 * (i + j - 5)) * (19 * ?x) mod p255 = ?x * 2 ^ (51 * (i + j)) mod p255"
    proof -
      have "?x * 2 ^ (51 * (i + j)) mod p255 = ?x * (19 * 2 ^ (51 * (i + j - 5))) mod p255"
        using fold_weight255 [OF True] mod_mult_right_eq by metis
      then show ?thesis by (simp only: ac_simps)
    qed
    moreover have "19 * ?x \<le> 19 * 2 ^ 102" using w(2) by simp
    ultimately show ?thesis
      using mul_update255 [OF assms(1) _ assms(2), of "i + j - 5" "19 * ?w"] True assms(5, 6) by (simp add: mul_step255_def Let_def)
  next
    case False
    then show ?thesis
      using mul_update255 [OF assms(1) _ assms(2), of "i + j" ?w] w by (simp add: mul_step255_def Let_def mult.commute)
  qed
qed

lemma mul_terms255:
  assumes "mul_inv255 n S t" and "shape255 a" and "shape255 b" and "n + length L \<le> 25" and "\<forall>(i, j)\<in>set L. i < 5 \<and> j < 5"
  shows "mul_inv255 (n + length L) (S + sum_list (map (\<lambda>(i, j). unat (a ! i) * unat (b ! j) * 2 ^ (51 * (i + j))) L))
    (foldl (mul_step255 a b) t L)"
  using assms(1, 4, 5)
proof (induction L arbitrary: n S t)
  case (Cons ij L)
  obtain i j where ij: "ij = (i, j)" by force
  have "mul_inv255 (Suc n) (S + unat (a ! i) * unat (b ! j) * 2 ^ (51 * (i + j))) (mul_step255 a b t (i, j))"
    using mul_step255_inv [OF Cons.prems(1) _ assms(2, 3)] Cons.prems(2, 3) ij by simp
  from Cons.IH [OF this] show ?case using Cons.prems(2, 3) by (simp add: ij add.assoc)
qed simp

lemma mul255_val:
  assumes "canonical255 a" and "canonical255 b"
  shows "canonical255 (mul255 a b) \<and> val 51 (mul255 a b) = val 51 a * val 51 b mod p255"
proof -
  let ?L = "List.product [0..<5] [0..<5] :: (nat \<times> nat) list"
  let ?t = "foldl (mul_step255 a b) (replicate 10 0) ?L"
  note a = canonical255D [OF assms(1)] and b = canonical255D [OF assms(2)]
  have low: "val 51 (take 5 x) = val 51 x" if "canonical255 x" for x
    using val_take_drop [of 5 x 51] canonical255D(3) [OF that] canonical255D(1) [OF that] by (simp add: shape255_def)
  have z: "mul_inv255 0 0 (replicate 10 0)" by (simp add: mul_inv255_def)
  have "mul_inv255 (0 + length ?L) (0 + sum_list (map (\<lambda>(i, j). unat (a ! i) * unat (b ! j) * 2 ^ (51 * (i + j))) ?L)) ?t"
    by (rule mul_terms255 [OF z a(1) b(1)]) (auto simp: set_product)
  moreover have "5 \<le> length a" "5 \<le> length b" using a(1) b(1) by (simp_all add: shape255_def)
  ultimately have "mul_inv255 25 (val 51 a * val 51 b) ?t"
    unfolding product_val [OF \<open>5 \<le> length a\<close> \<open>5 \<le> length b\<close>] low [OF assms(1)] low [OF assms(2)] by simp
  then have t: "length ?t = 10" "list_all (\<lambda>x. unat x \<le> 2 ^ 120) ?t" "val 51 ?t mod p255 = val 51 a * val 51 b mod p255"
      "drop 5 ?t = replicate 5 0"
    by (auto simp: mul_inv255_def list_all_length intro: order_trans)
  have "list_all (\<lambda>x. unat x \<le> 2 ^ 120) (take 5 ?t)" using t(2) by (auto simp: list_all_iff dest: in_set_takeD)
  from val_le [OF this, of 51] have "val 51 (take 5 ?t) \<le> 2 ^ 120 * 2 ^ 255" using t(1) by simp
  then have "val 51 ?t < 2 ^ 510" using val_take_drop [of 5 ?t 51] t(1, 4) by simp
  from normalize_u128_255_val [OF t(1, 2) this] show ?thesis
    using reduce255_val t(3) by (simp add: mul255_def)
qed

interpretation f255: residue_arith p255 canonical255 "val 51" ONE255 add255 sub255 mul255
proof unfold_locales
  show "1 < p255" by (simp add: p255_def)
  show "canonical255 ONE255 \<and> val 51 ONE255 = 1" by (simp add: canonical255_def ONE255_def p255_def)
qed (use add255_val sub255_val mul255_val in blast)+

lemma invert255_val:
  assumes "canonical255 a"
  shows "canonical255 (invert255 a) \<and> val 51 (invert255 a) = val 51 a ^ (p255 - 2) mod p255"
proof -
  have "((replicate 32 0xFF)[0 := 0xEB])[31 := 0x7F] = 0xEB # replicate 30 0xFF @ [0x7F :: u8]"
    by (simp add: numeral_eq_Suc)
  moreover have "val 8 (0xEB # replicate 30 0xFF @ [0x7F :: u8]) = p255 - 2"
    using val_ones [of 30] by (simp add: val_append p255_def)
  ultimately show ?thesis
    using f255.pow_bits_law [OF assms] by (simp add: invert255_def pow255_def bits_msb_val)
qed

lemma fe255_from_bytes_val:
  assumes "length bs = 32"
  shows "canonical255 (fe255_from_bytes bs) \<and> val 51 (fe255_from_bytes bs) = val 8 bs mod 2 ^ 255 mod p255"
proof -
  let ?b = "bs[31 := bs ! 31 AND 0x7F]"
  have u: "val 51 (unpack 51 10 0 0 ?b) = val 8 ?b mod 2 ^ 510" "shape255 (unpack 51 10 0 0 ?b)"
    using unpack_val [of 0 0 51 10 ?b] by (simp_all add: shape255_def)
  have m: "val 8 ?b = val 8 bs mod 2 ^ 255" using clear_top_bit [of bs 31] assms by simp
  have "val 8 ?b < 2 ^ 255" unfolding m by simp
  then have "val 51 (unpack 51 10 0 0 ?b) = val 8 bs mod 2 ^ 255" using u(1) m by simp
  then show ?thesis using reduce255_val [OF u(2)] by (simp add: fe255_from_bytes_def)
qed

lemma fe255_to_bytes_val:
  assumes "canonical255 a"
  shows "length (fe255_to_bytes a) = 32 \<and> val 8 (fe255_to_bytes a) = val 51 a"
proof -
  note a = canonical255D [OF assms]
  have sh: "length a = 10" "small 51 a" using a(1) by (simp_all add: shape255_def)
  have "val 51 (take 5 a) = val 51 a" using val_take_drop [of 5 a 51] a(3) sh by simp
  then show ?thesis
    using pack_val [of 51 "take 5 a" 0 0 32] sh a(3) by (simp add: fe255_to_bytes_def)
qed

text \<open>
  The documented invariant of a field element, ten limbs below \<open>2 ^ 51\<close> with a value below the prime,
  holds of the constants, of every decoded 32-byte string, and of the result of every operation on
  elements that satisfy it.
\<close>

theorem field255_canonical:
  "canonical255 ZERO255 \<and> canonical255 ONE255 \<and> (length bs = 32 \<longrightarrow> canonical255 (fe255_from_bytes bs)) \<and>
   (canonical255 a \<and> canonical255 b \<longrightarrow> canonical255 (add255 a b) \<and> canonical255 (sub255 a b) \<and>
     canonical255 (mul255 a b) \<and> canonical255 (square255 a) \<and> canonical255 (pow255 a e) \<and> canonical255 (invert255 a))"
  using f255.one_law f255.pow_bits_law fe255_from_bytes_val add255_val sub255_val mul255_val invert255_val
  by (simp add: square255_def pow255_def) (simp add: canonical255_def ZERO255_def p255_def)

theorem field255_canonical_witness:
  "canonical255 (fe255_from_bytes (replicate 32 0xFF)) \<and> canonical255 (mul255 ONE255 ZERO255)"
  using field255_canonical [of "replicate 32 0xFF" ONE255 ZERO255 "[]"] by simp

text \<open>
  C18: On canonical elements the limb arithmetic is the arithmetic of the integers modulo
  \<open>2 ^ 255 - 19\<close>: sums, differences, products, and the inverse as the power with exponent \<open>p - 2\<close>; no
  64-bit or 128-bit sum on the way loses a carry.
\<close>

theorem field255_exact:
  assumes "canonical255 a" and "canonical255 b"
  shows "val 51 (add255 a b) = (val 51 a + val 51 b) mod p255 \<and>
    int (val 51 (sub255 a b)) = (int (val 51 a) - int (val 51 b)) mod int p255 \<and>
    val 51 (mul255 a b) = val 51 a * val 51 b mod p255 \<and>
    val 51 (invert255 a) = val 51 a ^ (p255 - 2) mod p255"
proof -
  have "int (val 51 a + p255 - val 51 b) = int (val 51 a) - int (val 51 b) + int p255"
    using canonical255D(2) [OF assms(2)] by simp
  then have "int (val 51 (sub255 a b)) = (int (val 51 a) - int (val 51 b)) mod int p255"
    using sub255_val [OF assms] by (simp add: zmod_int)
  then show ?thesis using add255_val [OF assms] mul255_val [OF assms] invert255_val [OF assms(1)] by simp
qed

theorem field255_exact_witness:
  "canonical255 ZERO255 \<and> canonical255 ONE255 \<and> int (val 51 (sub255 ZERO255 ONE255)) = (0 - 1) mod int p255"
proof -
  have "canonical255 ZERO255" "canonical255 ONE255" "val 51 ZERO255 = 0" "val 51 ONE255 = 1"
    by (simp_all add: canonical255_def ZERO255_def ONE255_def p255_def)
  then show ?thesis using field255_exact [of ZERO255 ONE255] by simp
qed

text \<open>
  C0: Decoding reads the low 255 bits of the 32 bytes and reduces them, encoding writes the value of a canonical
  element as 32 little-endian bytes, and decoding the encoding gives the element back.
\<close>

theorem field255_bytes_round_trip:
  "(canonical255 a \<longrightarrow> length (fe255_to_bytes a) = 32 \<and> val 8 (fe255_to_bytes a) = val 51 a \<and>
     fe255_from_bytes (fe255_to_bytes a) = a) \<and>
   (length bs = 32 \<longrightarrow> val 8 (fe255_to_bytes (fe255_from_bytes bs)) = val 8 bs mod 2 ^ 255 mod p255)"
proof (intro conjI impI)
  assume a: "canonical255 a"
  show t: "length (fe255_to_bytes a) = 32" "val 8 (fe255_to_bytes a) = val 51 a" using fe255_to_bytes_val [OF a] by simp_all
  note c = fe255_from_bytes_val [OF t(1)]
  have "val 51 (fe255_from_bytes (fe255_to_bytes a)) = val 51 a" using c t canonical255D(2, 3) [OF a] by simp
  then show "fe255_from_bytes (fe255_to_bytes a) = a" using c a by (intro val_inj [where k = 51]) (simp_all add: canonical255_def)
next
  assume "length bs = 32"
  then show "val 8 (fe255_to_bytes (fe255_from_bytes bs)) = val 8 bs mod 2 ^ 255 mod p255"
    using fe255_from_bytes_val [of bs] fe255_to_bytes_val [of "fe255_from_bytes bs"] by simp
qed

theorem field255_bytes_round_trip_witness:
  "fe255_from_bytes (fe255_to_bytes ONE255) = ONE255 \<and>
   val 8 (fe255_to_bytes (fe255_from_bytes (replicate 32 0xFF))) = 18"
proof -
  have "canonical255 ONE255" by (simp add: canonical255_def ONE255_def p255_def)
  moreover have "val 8 (replicate 32 (0xFF :: u8)) mod 2 ^ 255 mod p255 = 18"
  proof -
    have "val 8 (replicate 32 (0xFF :: u8)) = 2 ^ 256 - 1" using val_ones [of 32] by simp
    then show ?thesis by (simp add: p255_def)
  qed
  ultimately show ?thesis using field255_bytes_round_trip [of ONE255 "replicate 32 0xFF"] by simp
qed

end
