(* ===== verification/X25519.thy ===== *)
theory X25519
  imports X25519_Field
begin

unbundle bit_operations_syntax

text \<open>
  X25519 key agreement, \<^verbatim>\<open>tpt-x25519/src/x25519.rs\<close>, \<^verbatim>\<open>util.rs\<close> and \<^verbatim>\<open>lib.rs\<close>: the clamped
  scalar, the constant-time swap, the ladder, and the key types over it. The \<open>debug_assert!\<close> at the
  end of the ladder is active in builds with debug assertions only; the first argument of
  \<open>x25519\<close> says which build it is.
\<close>

section \<open>Helpers on bytes\<close>

definition ct_eq_bytes :: "bytes \<Rightarrow> bytes \<Rightarrow> bool" where
  "ct_eq_bytes a b =
     (if length a \<noteq> length b then False
      else foldl (\<lambda>diff (x, y). diff OR (x XOR y)) 0 (zip a b) = 0)"

definition is_zero :: "bytes \<Rightarrow> bool" where
  "is_zero buf = (foldl (\<lambda>acc b. acc OR b) 0 buf = 0)"

definition zeroize :: "bytes \<Rightarrow> bytes" where
  "zeroize buf = map (\<lambda>_. 0) buf"

datatype KeyError = ZeroSharedSecret

lemma ct_eq_bytes_iff: "ct_eq_bytes a b \<longleftrightarrow> a = b"
  using ct_fold [of a b] by (auto simp: ct_eq_bytes_def)

lemma is_zero_iff: "is_zero bs \<longleftrightarrow> bs = replicate (length bs) 0"
  by (auto simp: is_zero_def or_fold intro: replicate_eqI) (metis in_set_replicate)

section \<open>The ladder\<close>

abbreviation A24_255 :: fe255 where "A24_255 \<equiv> [121665, 0, 0, 0, 0, 0, 0, 0, 0, 0]"

abbreviation BASE_POINT :: bytes where
  "BASE_POINT \<equiv> 9 # replicate 31 0"

definition clamp255 :: "bytes \<Rightarrow> bytes" where
  "clamp255 scalar =
     (let k = scalar;
          k = k[0 := k ! 0 AND 248];
          k = k[31 := k ! 31 AND 127];
          k = k[31 := k ! 31 OR 64]
      in k)"

definition cswap255 :: "u8 \<Rightarrow> fe255 \<Rightarrow> fe255 \<Rightarrow> fe255 \<times> fe255" where
  "cswap255 swap a b =
     (let mask = 0 - ucast swap
      in (map2 (\<lambda>x y. (x AND NOT mask) OR (y AND mask)) a b, map2 (\<lambda>x y. (x AND mask) OR (y AND NOT mask)) a b))"

definition fe255_ct_eq :: "fe255 \<Rightarrow> fe255 \<Rightarrow> bool" where
  "fe255_ct_eq a b = ct_eq_bytes (fe255_to_bytes a) (fe255_to_bytes b)"

definition ladder255 :: "bytes \<Rightarrow> bytes \<Rightarrow> fe255 \<times> fe255" where
  "ladder255 scalar point =
     (let k = clamp255 scalar;
          u = fe255_from_bytes point;
          x1 = u
      in ladder_finish cswap255
           (foldl (ladder_step (ladder_body add255 sub255 mul255 A24_255 x1) cswap255)
             ((ONE255, ZERO255, u, ONE255), 0) (map (scalar_bit k) (rev [0..<255]))))"

definition x25519 :: "bool \<Rightarrow> bytes \<Rightarrow> bytes \<Rightarrow> KeyError failure + bytes" where
  "x25519 debug scalar point =
     (let (x2, z2) = ladder255 scalar point;
          inv = invert255 z2;
          result = mul255 x2 inv;
          bytes = fe255_to_bytes result
      in if debug \<and> \<not> fe255_ct_eq (mul255 result z2) x2 then Inl Panic else Inr bytes)"

section \<open>Keys\<close>

datatype StaticSecret = StaticSecret bytes
datatype PublicKey = PublicKey bytes
datatype SharedSecret = SharedSecret bytes

fun static_secret_drop :: "StaticSecret \<Rightarrow> StaticSecret" where
  "static_secret_drop (StaticSecret b) = StaticSecret (zeroize b)"

fun shared_secret_drop :: "SharedSecret \<Rightarrow> SharedSecret" where
  "shared_secret_drop (SharedSecret b) = SharedSecret (zeroize b)"

fun public_key_ct_eq :: "PublicKey \<Rightarrow> PublicKey \<Rightarrow> bool" where
  "public_key_ct_eq (PublicKey a) (PublicKey b) = ct_eq_bytes a b"

fun shared_secret_ct_eq :: "SharedSecret \<Rightarrow> SharedSecret \<Rightarrow> bool" where
  "shared_secret_ct_eq (SharedSecret a) (SharedSecret b) = ct_eq_bytes a b"

fun shared_secret_is_zero :: "SharedSecret \<Rightarrow> bool" where
  "shared_secret_is_zero (SharedSecret a) = is_zero a"

fun public_key :: "bool \<Rightarrow> StaticSecret \<Rightarrow> KeyError failure + PublicKey" where
  "public_key debug (StaticSecret s) = map_sum id PublicKey (x25519 debug s BASE_POINT)"

fun diffie_hellman :: "bool \<Rightarrow> StaticSecret \<Rightarrow> PublicKey \<Rightarrow> KeyError failure + SharedSecret" where
  "diffie_hellman debug (StaticSecret s) (PublicKey p) =
     (case x25519 debug s p of
        Inl e \<Rightarrow> Inl e
      | Inr out \<Rightarrow>
          (let secret = SharedSecret out
           in if shared_secret_is_zero secret then Inl (Err ZeroSharedSecret) else Inr secret))"

fun diffie_hellman_unchecked :: "bool \<Rightarrow> StaticSecret \<Rightarrow> PublicKey \<Rightarrow> KeyError failure + SharedSecret" where
  "diffie_hellman_unchecked debug (StaticSecret s) (PublicKey p) = map_sum id SharedSecret (x25519 debug s p)"

section \<open>The swap and the ladder\<close>

lemma mask_zero: "0 - ucast (of_bool b :: u8) = (if b then NOT 0 else 0 :: u64)"
  by simp

lemma cswap255_law:
  assumes "length x = length y"
  shows "cswap255 (of_bool b) x y = (if b then (y, x) else (x, y))"
proof -
  have "map2 (\<lambda>x y. x) x y = x" "map2 (\<lambda>x y. y) x y = y"
    using assms by (simp_all add: case_prod_unfold)
  then show ?thesis by (cases b) (simp_all add: cswap255_def Let_def)
qed

interpretation l255: ladder_arith p255 canonical255 "val 51" ONE255 add255 sub255 mul255 cswap255
  by unfold_locales (simp add: cswap255_law canonical255_def)

section \<open>The ladder computes the reference ladder\<close>

lemma clamp255_val:
  assumes "length s = 32"
  shows "length (clamp255 s) = 32 \<and> val 8 (clamp255 s) = 2 ^ 254 + (val 8 s mod 2 ^ 254 - val 8 s mod 8)"
proof -
  obtain a m z where s: "s = a # m @ [z]" and m: "length m = 30" using byte_ends [of s 30] assms by auto
  have "clamp255 s = (a AND 248) # m @ [(z AND 127) OR 64]"
    by (simp add: clamp255_def Let_def s nth_append m list_update_append)
  then show ?thesis using clamp_val [OF m _ and_248, of a z] by (simp add: s m)
qed

lemma ladder255_val:
  assumes "length s = 32" and "length u = 32"
  shows "\<exists>x z. ladder255 s u = (x, z) \<and> canonical255 x \<and> canonical255 z \<and>
    (\<exists>x3 z3. mont_ladder p255 121665 255 (val 8 (clamp255 s)) (val 8 u mod 2 ^ 255 mod p255) = (val 51 x, val 51 z, x3, z3))"
proof -
  have z: "canonical255 ZERO255" "val 51 ZERO255 = 0" "canonical255 A24_255" "val 51 A24_255 = 121665"
    by (simp_all add: canonical255_def ZERO255_def p255_def)
  note u = fe255_from_bytes_val [OF assms(2)]
  have c: "length (clamp255 s) = 32" using clamp255_val [OF assms(1)] by simp
  show ?thesis
    using l255.mont_law [OF conjunct1 [OF u] z(3, 1, 2), of "val 8 (clamp255 s)" 255] u c z(4)
    by (simp add: ladder255_def Let_def scalar_bits)
qed

lemma x25519_run:
  assumes "length s = 32" and "length u = 32"
    and "mont_ladder p255 121665 255 (val 8 (clamp255 s)) (val 8 u mod 2 ^ 255 mod p255) = (x, z, x3, z3)"
  shows "\<exists>out. length out = 32 \<and> val 8 out = x * z ^ (p255 - 2) mod p255 \<and> x25519 False s u = Inr out \<and>
    x25519 True s u = (if x * z ^ (p255 - 2) * z mod p255 = x then Inr out else Inl Panic)"
proof -
  obtain fx fz where l: "ladder255 s u = (fx, fz)" "canonical255 fx" "canonical255 fz" "x = val 51 fx" "z = val 51 fz"
    using ladder255_val [OF assms(1, 2)] assms(3) by auto
  note i = invert255_val [OF l(3)]
  note r = mul255_val [OF l(2) conjunct1 [OF i]]
  let ?r = "mul255 fx (invert255 fz)"
  note m = mul255_val [OF conjunct1 [OF r] l(3)]
  have "fe255_ct_eq (mul255 ?r fz) fx \<longleftrightarrow> val 51 (mul255 ?r fz) = val 51 fx"
    using fe255_to_bytes_val [OF conjunct1 [OF m]] fe255_to_bytes_val [OF l(2)] val_inj [OF small_bytes small_bytes]
    unfolding fe255_ct_eq_def ct_eq_bytes_iff by metis
  moreover have "val 51 (mul255 ?r fz) = x * z ^ (p255 - 2) * z mod p255"
    using m r i by (simp add: l(4, 5) mod_mult_left_eq mod_mult_right_eq)
  moreover have "length (fe255_to_bytes ?r) = 32 \<and> val 8 (fe255_to_bytes ?r) = x * z ^ (p255 - 2) mod p255"
    using fe255_to_bytes_val [OF conjunct1 [OF r]] r i by (simp add: l(4, 5) mod_mult_right_eq)
  ultimately show ?thesis by (intro exI [of _ "fe255_to_bytes ?r"]) (simp add: x25519_def l(1) Let_def l(4))
qed



section \<open>A point of order four\<close>

text \<open>
  The point with coordinate 1 has order four. The ladder of the scalar \<open>2 ^ 254\<close> meets the point at infinity after three
  steps and stays there: the second coordinate is 0, the first is not.
\<close>

abbreviation mod_body :: "nat \<Rightarrow> nat \<Rightarrow> nat \<Rightarrow> nat ladder \<Rightarrow> nat ladder" where
  "mod_body p \<equiv> ladder_body (\<lambda>a b. (a + b) mod p) (\<lambda>a b. (a + p - b) mod p) (\<lambda>a b. a * b mod p)"

lemma body_double:
  "\<exists>c d. ladder_body add sub mul a24 x1 (x2, z2, x3, z3) =
    (let aa = mul (add x2 z2) (add x2 z2); bb = mul (sub x2 z2) (sub x2 z2); e = sub aa bb
     in (mul aa bb, mul e (add aa (mul a24 e)), c, d))"
  by (simp add: ladder_body_def Let_def)

lemma body_infinity:
  assumes "coprime x p" and "x < p" and "1 < p"
  shows "\<exists>x' c d. mod_body p a24 u (x, 0, x3, z3) = (x', 0, c, d) \<and> coprime x' p \<and> x' < p"
proof -
  define aa where "aa = x * x mod p"
  have "coprime (aa * aa mod p) p" using assms by (simp add: aa_def coprime_mod_left_iff)
  moreover obtain c d where "mod_body p a24 u (x, 0, x3, z3) = (aa * aa mod p, 0, c, d)"
    using body_double [of "\<lambda>a b. (a + b) mod p" "\<lambda>a b. (a + p - b) mod p" "\<lambda>a b. a * b mod p" a24 u x 0 x3 z3] assms(2)
    by (auto simp: Let_def aa_def [symmetric])
  ultimately show ?thesis using assms(3) by auto
qed

lemma run_infinity:
  assumes "1 < p"
  shows "coprime x p \<Longrightarrow> x < p \<Longrightarrow>
    \<exists>x' c d. ladder_spec (mod_body p a24 u) (x, 0, x3, z3) (replicate n False) = (x', 0, c, d) \<and> coprime x' p \<and> x' < p"
proof (induction n arbitrary: x x3 z3)
  case (Suc n)
  obtain x' c d where b: "mod_body p a24 u (x, 0, x3, z3) = (x', 0, c, d)" "coprime x' p" "x' < p"
    using body_infinity [OF Suc.prems assms, of a24 u x3 z3] by blast
  then show ?case using Suc.IH [OF b(2, 3), of c d] by (simp add: ladder_spec_def)
qed (simp add: ladder_spec_def)

lemma top_bit: "map (bit (2 ^ n :: nat)) (rev [0..<Suc n]) = True # replicate n False"
proof -
  have "map (bit (2 ^ n :: nat)) (rev [0..<n]) = replicate n False"
    by (rule replicate_eqI) (auto simp: bit_exp_iff)
  then show ?thesis by (simp add: bit_exp_iff)
qed

lemma body_eval:
  assumes "add x2 z2 = a" "mul a a = aa" "sub x2 z2 = b" "mul b b = bb" "sub aa bb = e" "add x3 z3 = c" "sub x3 z3 = d"
    "mul d a = da" "mul c b = cb" "add da cb = f" "sub da cb = g" "mul g g = h"
    "mul a24 e = k" "add aa k = l" "mul aa bb = x2'" "mul e l = z2'" "mul f f = x3'" "mul x1 h = z3'"
  shows "ladder_body add sub mul a24 x1 (x2, z2, x3, z3) = (x2', z2', x3', z3')"
  by (simp add: ladder_body_def Let_def assms)

lemma order4_first: "600000000 < p \<Longrightarrow> mod_body p 121665 1 (1, 1, 1, 0) = (0, 1946656, 4, 4)"
  by (rule body_eval [of _ _ _ 2 _ 4 _ 0 0 4 _ _ 1 1 2 0 2 2 4 _ 486660 486664]) (simp_all add: mod_Suc)

lemma order4_second: "498343936 < p \<Longrightarrow> \<exists>c d. mod_body p 121665 1 (4, 4, 0, 1946656) = (0, 498343936, c, d)"
  using body_double [of "\<lambda>a b. (a + b) mod p" "\<lambda>a b. (a + p - b) mod p" "\<lambda>a b. a * b mod p" 121665 1 4 4 0 1946656]
  by (simp add: Let_def)

lemma order4_coprime: "coprime (498343936::nat) p255"
  by (simp add: coprime_iff_gcd_eq_1 gcd_non_0_nat p255_def)

lemma square_negate: "(p - w) * (p - w) mod p = w * w mod p" if "w \<le> p" for p w :: nat
proof -
  obtain k where k: "p = w + k" using \<open>w \<le> p\<close> le_Suc_ex by blast
  have "(p - w) * (p - w) + p * (2 * w) = w * w + p * p" by (simp add: k algebra_simps)
  then show ?thesis by (metis mod_mult_self2)
qed

lemma body_order2:
  assumes "coprime w p" and "0 < w" and "w < p" and "1 < p"
  shows "\<exists>x' c d. mod_body p a24 u (0, w, x3, z3) = (x', 0, c, d) \<and> coprime x' p \<and> x' < p"
proof -
  define aa where "aa = w * w mod p"
  have "coprime (aa * aa mod p) p" using assms by (simp add: aa_def coprime_mod_left_iff)
  moreover obtain c d where "mod_body p a24 u (0, w, x3, z3) = (aa * aa mod p, 0, c, d)"
    using body_double [of "\<lambda>a b. (a + b) mod p" "\<lambda>a b. (a + p - b) mod p" "\<lambda>a b. a * b mod p" a24 u 0 w x3 z3]
      square_negate [of w p] assms(2, 3)
    by (auto simp: Let_def aa_def [symmetric])
  ultimately show ?thesis using assms(4) by auto
qed

lemma order4_ladder:
  assumes "600000000 < p" and "coprime 498343936 p"
  shows "\<exists>x c d. mont_ladder p 121665 (n + 3) (2 ^ (n + 2)) 1 = (x, 0, c, d) \<and> x \<noteq> 0"
proof -
  have bits: "map (bit (2 ^ (n + 2) :: nat)) (rev [0..<n + 3]) = True # False # False # replicate n False"
    using top_bit [of "n + 2"] by (simp add: numeral_3_eq_3)
  obtain c d where s2: "mod_body p 121665 1 (4, 4, 0, 1946656) = (0, 498343936, c, d)" using order4_second [of p] assms(1) by auto
  obtain x c' d' where s3: "mod_body p 121665 1 (0, 498343936, c, d) = (x, 0, c', d')" "coprime x p" "x < p"
    using body_order2 [OF assms(2), of 121665 1 c d] assms(1) by auto
  obtain x' c'' d'' where "ladder_spec (mod_body p 121665 1) (x, 0, c', d') (replicate n False) = (x', 0, c'', d'')" "coprime x' p"
    using run_infinity [OF _ s3(2, 3), of 121665 1 c' d' n] assms(1) by auto
  moreover have "x' \<noteq> 0" using calculation(2) assms(1) by (intro notI) simp
  ultimately show ?thesis using s2 s3(1) order4_first [OF assms(1)] unfolding mont_ladder_def bits by (simp add: ladder_spec_def)
qed


text \<open>
  On the low-order public key 1 the ladder ends at the point at infinity. A build without debug assertions
  returns the documented error; a build with them panics in the \<open>debug_assert!\<close> that checks the quotient, because the
  quotient by 0 is 0.
\<close>

theorem x25519_low_order_debug:
  "diffie_hellman False (StaticSecret (replicate 32 0)) (PublicKey (1 # replicate 31 0)) = Inl (Err ZeroSharedSecret) \<and>
   diffie_hellman True (StaticSecret (replicate 32 0)) (PublicKey (1 # replicate 31 0)) = Inl Panic"
proof -
  let ?s = "replicate 32 0 :: bytes" and ?u = "1 # replicate 31 0 :: bytes"
  have k: "val 8 (clamp255 ?s) = 2 ^ (252 + 2)" using clamp255_val [of ?s] by simp
  have u: "val 8 ?u mod 2 ^ 255 mod p255 = 1" by (simp add: p255_def)
  have p: "600000000 < p255" "(0 :: nat) ^ (p255 - 2) = 0" by (simp_all add: p255_def)
  obtain x c d where l: "mont_ladder p255 121665 255 (val 8 (clamp255 ?s)) (val 8 ?u mod 2 ^ 255 mod p255) = (x, 0, c, d)" "x \<noteq> 0"
    using order4_ladder [OF p(1) order4_coprime, of 252] unfolding k u by auto
  obtain out where o: "length out = 32" "val 8 out = 0" "x25519 False ?s ?u = Inr out" "x25519 True ?s ?u = Inl Panic"
    using x25519_run [OF _ _ l(1)] p(2) l(2) by auto
  have "out = replicate 32 0" using val_inj [OF small_bytes small_bytes, of out "replicate 32 0"] o(1, 2) by simp
  then show ?thesis using o(3, 4) by (simp add: is_zero_iff)
qed

text \<open>
  C0: \<open>diffie_hellman\<close> returns the error exactly when the reference result is 0, and otherwise the 32 bytes of that
  result; a shared secret that it returns is therefore never the all-zero string.
\<close>

theorem diffie_hellman_checked:
  assumes "length s = 32" and "length u = 32"
  defines "r \<equiv> mont_result p255 121665 255 (2 ^ 254 + (val 8 s mod 2 ^ 254 - val 8 s mod 8)) (val 8 u mod 2 ^ 255 mod p255)"
  shows "\<exists>out. length out = 32 \<and> val 8 out = r \<and> diffie_hellman_unchecked False (StaticSecret s) (PublicKey u) = Inr (SharedSecret out) \<and>
    diffie_hellman False (StaticSecret s) (PublicKey u) = (if r = 0 then Inl (Err ZeroSharedSecret) else Inr (SharedSecret out))"
proof -
  obtain x z x3 z3 where
      m: "mont_ladder p255 121665 255 (val 8 (clamp255 s)) (val 8 u mod 2 ^ 255 mod p255) = (x, z, x3, z3)"
    by (metis surj_pair)
  obtain out where o: "length out = 32" "val 8 out = r" "x25519 False s u = Inr out"
    using x25519_run [OF assms(1, 2) m] m clamp255_val [OF assms(1)] by (auto simp: mont_result_def r_def)
  have "is_zero out \<longleftrightarrow> r = 0"
    using val_inj [OF small_bytes small_bytes, of out "replicate 32 0"] o(1, 2) by (auto simp: is_zero_iff)
  then show ?thesis using o by auto
qed

theorem diffie_hellman_checked_witness:
  "\<exists>out. length out = 32 \<and>
    diffie_hellman_unchecked False (StaticSecret (replicate 32 0)) (PublicKey BASE_POINT) = Inr (SharedSecret out) \<and>
    val 8 out = mont_result p255 121665 255 (2 ^ 254) 9"
  using diffie_hellman_checked [of "replicate 32 0" BASE_POINT] by (simp add: p255_def) metis

end
