(* ===== verification/X448_Field.thy ===== *)
theory X448_Field
  imports Residue
begin

unbundle bit_operations_syntax

text \<open>
  The field modulo \<open>2 ^ 448 - 2 ^ 224 - 1\<close> of \<^verbatim>\<open>tpt-x25519/src/field448.rs\<close>: eight 64-bit limbs of 56 bits,
  working vectors of sixteen limbs, six folds by \<open>2 ^ 448 = 2 ^ 224 + 1\<close> and one conditional subtraction.
  Every operation returns the canonical limbs of the result in the integers modulo the prime; decoding
  drops the top bit of the 56 bytes.
\<close>

type_synonym fe448 = "u64 list"

abbreviation LIMBS448 :: nat where "LIMBS448 \<equiv> 8"
abbreviation MUL_LIMBS448 :: nat where "MUL_LIMBS448 \<equiv> 16"
abbreviation RADIX448 :: nat where "RADIX448 \<equiv> 56"

definition P_LIMBS448 :: fe448 where
  "P_LIMBS448 = [2 ^ 56 - 1, 2 ^ 56 - 1, 2 ^ 56 - 1, 2 ^ 56 - 1, 2 ^ 56 - 2, 2 ^ 56 - 1, 2 ^ 56 - 1, 2 ^ 56 - 1]"

definition P_LIMBS_FULL448 :: "u64 list" where
  "P_LIMBS_FULL448 = [2 ^ 56 - 1, 2 ^ 56 - 1, 2 ^ 56 - 1, 2 ^ 56 - 1, 2 ^ 56 - 2, 2 ^ 56 - 1, 2 ^ 56 - 1, 2 ^ 56 - 1,
     0, 0, 0, 0, 0, 0, 0, 0]"

definition ZERO448 :: fe448 where "ZERO448 = replicate LIMBS448 0"
definition ONE448 :: fe448 where "ONE448 = [1, 0, 0, 0, 0, 0, 0, 0]"

definition normalize16 :: "u64 list \<Rightarrow> u64 list" where
  "normalize16 r = carry_run RADIX448 0 r"

definition normalize16_u128 :: "u128 list \<Rightarrow> u64 list" where
  "normalize16_u128 t = map ucast (carry_run RADIX448 0 t)"

definition sub_raw448 :: "u64 list \<Rightarrow> u64 list \<Rightarrow> u64 list \<times> u64" where
  "sub_raw448 a b = borrow_run RADIX448 0 a b"

text \<open>One of the six folds: \<open>low + high\<close>, then \<open>high\<close> added four limbs higher.\<close>

definition fold448 :: "u64 list \<Rightarrow> u64 list" where
  "fold448 r =
     (let low = map ucast (take LIMBS448 r) :: u128 list; high = map ucast (drop LIMBS448 r) :: u128 list;
          t = map2 (+) low high @ replicate LIMBS448 0;
          t = foldl (\<lambda>t i. t[i + 4 := t ! (i + 4) + high ! i]) t [0..<LIMBS448]
      in normalize16_u128 t)"

definition reduce448 :: "u64 list \<Rightarrow> fe448" where
  "reduce448 r =
     (let r = (fold448 ^^ 6) (normalize16 r);
          (diff, borrow) = sub_raw448 r P_LIMBS_FULL448;
          r = ct_select r diff borrow
      in take LIMBS448 r)"

text \<open>An element read as a working vector: the missing limbs are 0.\<close>

definition widen448 :: "fe448 \<Rightarrow> u64 list" where
  "widen448 a = a @ replicate (MUL_LIMBS448 - LIMBS448) 0"

definition add448 :: "fe448 \<Rightarrow> fe448 \<Rightarrow> fe448" where
  "add448 a b = reduce448 (carry_run RADIX448 0 (map2 (+) (widen448 a) (widen448 b)))"

definition sub448 :: "fe448 \<Rightarrow> fe448 \<Rightarrow> fe448" where
  "sub448 a b =
     (let r = carry_run RADIX448 0 (map2 (+) (widen448 a) (widen448 P_LIMBS448));
          (r, _) = borrow_run RADIX448 0 r (widen448 b)
      in reduce448 r)"

text \<open>One term of the schoolbook product; a term beyond the eighth limb is added at two places.\<close>

definition mul_step448 :: "fe448 \<Rightarrow> fe448 \<Rightarrow> u128 list \<Rightarrow> nat \<times> nat \<Rightarrow> u128 list" where
  "mul_step448 a b t = (\<lambda>(i, j).
     let term = ucast (a ! i) * ucast (b ! j); m = i + j in
     if m \<ge> LIMBS448
     then let t = t[m - LIMBS448 := t ! (m - LIMBS448) + term] in t[m - 4 := t ! (m - 4) + term]
     else t[m := t ! m + term])"

definition mul448 :: "fe448 \<Rightarrow> fe448 \<Rightarrow> fe448" where
  "mul448 a b =
     (let t = foldl (mul_step448 a b) (replicate MUL_LIMBS448 0) (List.product [0..<LIMBS448] [0..<LIMBS448])
      in reduce448 (normalize16_u128 t))"

definition square448 :: "fe448 \<Rightarrow> fe448" where
  "square448 a = mul448 a a"

definition pow448 :: "fe448 \<Rightarrow> bytes \<Rightarrow> fe448" where
  "pow448 base e = pow_bits mul448 ONE448 base (bits_msb e)"

definition invert448 :: "fe448 \<Rightarrow> fe448" where
  "invert448 a = pow448 a (((replicate 56 0xFF)[0 := 0xFD])[28 := 0xFE])"

definition fe448_from_bytes :: "bytes \<Rightarrow> fe448" where
  "fe448_from_bytes bs =
     reduce448 (unpack RADIX448 LIMBS448 0 0 (bs[55 := bs ! 55 AND 0x7F]) @ replicate (MUL_LIMBS448 - LIMBS448) 0)"

definition fe448_to_bytes :: "fe448 \<Rightarrow> bytes" where
  "fe448_to_bytes a = pack RADIX448 a 0 0 56"

section \<open>Reduction\<close>

definition p448 :: nat where "p448 = 2 ^ 448 - 2 ^ 224 - 1"

definition canonical448 :: "fe448 \<Rightarrow> bool" where
  "canonical448 a \<longleftrightarrow> length a = 8 \<and> small 56 a \<and> val 56 a < p448"

definition shape448 :: "u64 list \<Rightarrow> bool" where
  "shape448 a \<longleftrightarrow> length a = 16 \<and> small 56 a"

lemma p_limbs448: "shape448 P_LIMBS_FULL448" "val 56 P_LIMBS_FULL448 = p448"
  by (simp_all add: shape448_def P_LIMBS_FULL448_def p448_def)

lemma widen_p448: "widen448 P_LIMBS448 = P_LIMBS_FULL448"
proof -
  have "replicate 8 x = [x, x, x, x, x, x, x, x]" for x :: u64 by (simp add: numeral_eq_Suc)
  then show ?thesis by (simp add: P_LIMBS_FULL448_def P_LIMBS448_def widen448_def)
qed

lemma p448_eq: "(2::nat) ^ 448 = 2 ^ 224 + 1 + p448" "2 ^ 224 + 1 < p448"
  by (simp_all add: p448_def)

definition fold_val448 :: "nat \<Rightarrow> nat" where
  "fold_val448 v = v mod 2 ^ 448 + (2 ^ 224 + 1) * (v div 2 ^ 448)"

lemma fold_val448_cong: "fold_val448 v mod p448 = v mod p448"
proof -
  have "v = v mod 2 ^ 448 + 2 ^ 448 * (v div 2 ^ 448)" by simp
  then have "v = fold_val448 v + p448 * (v div 2 ^ 448)" unfolding fold_val448_def p448_eq(1) by (simp only: algebra_simps)
  then show ?thesis by (metis mod_mult_self2)
qed

lemma fold_val448_step: "v < (h + 1) * 2 ^ 448 \<Longrightarrow> fold_val448 v < 2 ^ 448 + (2 ^ 224 + 1) * h"
proof -
  assume "v < (h + 1) * 2 ^ 448"
  then have "v div 2 ^ 448 < h + 1" by (rule less_mult_imp_div_less)
  then have "(2 ^ 224 + 1) * (v div 2 ^ 448) \<le> (2 ^ 224 + 1) * h" by (intro mult_le_mono2) simp
  moreover have "v mod 2 ^ 448 < 2 ^ 448" by simp
  ultimately show ?thesis unfolding fold_val448_def by linarith
qed

lemma fold_val448_bounds:
  "v < 2 ^ 896 \<Longrightarrow> fold_val448 v < (2 ^ 224 + 2) * 2 ^ 448"
  "v < (2 ^ 224 + 2) * 2 ^ 448 \<Longrightarrow> fold_val448 v < 3 * 2 ^ 448"
  "v < 3 * 2 ^ 448 \<Longrightarrow> fold_val448 v < 2 ^ 448 + 2 * (2 ^ 224 + 1)"
  "v < 2 ^ 448 + 2 * (2 ^ 224 + 1) \<Longrightarrow> fold_val448 v < 2 ^ 448"
  "v < 2 ^ 448 \<Longrightarrow> fold_val448 v < 2 ^ 448"
proof -
  show "fold_val448 v < (2 ^ 224 + 2) * 2 ^ 448" if "v < 2 ^ 896"
    using fold_val448_step [of v "2 ^ 448 - 1"] that by simp
  show "fold_val448 v < 3 * 2 ^ 448" if "v < (2 ^ 224 + 2) * 2 ^ 448"
    using fold_val448_step [of v "2 ^ 224 + 1"] that by simp
  show "fold_val448 v < 2 ^ 448 + 2 * (2 ^ 224 + 1)" if "v < 3 * 2 ^ 448"
    using fold_val448_step [of v 2] that by simp
  show keep: "fold_val448 v < 2 ^ 448" if "v < 2 ^ 448" using that by (simp add: fold_val448_def)
  show "fold_val448 v < 2 ^ 448" if "v < 2 ^ 448 + 2 * (2 ^ 224 + 1)"
  proof (cases "v < 2 ^ 448")
    case False
    then obtain w where w: "v = 2 ^ 448 + w" by (metis le_Suc_ex not_less)
    then have "w < 2 * (2 ^ 224 + 1)" using that by simp
    then show ?thesis by (simp add: fold_val448_def w)
  qed (use keep in simp)
qed

lemma normalize16_u128_val:
  assumes "length t = 16" and "list_all (\<lambda>x. unat x \<le> 2 ^ 120) t" and "val 56 t < 2 ^ 896"
  shows "shape448 (normalize16_u128 t)" and "val 56 (normalize16_u128 t) = val 56 t"
proof -
  have c: "list_all (\<lambda>x. unat x + 2 ^ (LENGTH(128) - 56) \<le> 2 ^ LENGTH(128)) t"
    using assms(2) by (auto simp: list_all_iff)
  note r = carry_run_val [OF c, of 0]
  have s: "small 56 (carry_run 56 0 t)" using r by simp
  note u = small_ucast [OF s, where 'b = 64]
  show "shape448 (normalize16_u128 t)" using u assms(1) by (simp add: shape448_def normalize16_u128_def)
  have "val 56 (map ucast (carry_run 56 0 t) :: u64 list) = val 56 (carry_run 56 0 t)" using u by (intro val_ucast) simp
  then show "val 56 (normalize16_u128 t) = val 56 t" using r assms(1, 3) by (simp add: normalize16_u128_def)
qed

text \<open>The second loop of a fold adds a shifted vector.\<close>

lemma shift_loop:
  "n \<le> 8 \<Longrightarrow> length t = 16 \<Longrightarrow>
    length (foldl (\<lambda>t i. t[i + 4 := t ! (i + 4) + h ! i]) t [0..<n]) = 16 \<and>
    (\<forall>j<16. foldl (\<lambda>t i. t[i + 4 := t ! (i + 4) + h ! i]) t [0..<n] ! j =
      (if 4 \<le> j \<and> j < n + 4 then t ! j + h ! (j - 4) else t ! j))"
  for t h :: "u128 list"
proof (induction n)
  case (Suc n)
  then show ?case by (auto simp: nth_list_update)
qed auto

lemma shift_add:
  fixes t h :: "u128 list"
  assumes "length t = 16" and "length h = 8"
  shows "foldl (\<lambda>t i. t[i + 4 := t ! (i + 4) + h ! i]) t [0..<8] = map2 (+) t (replicate 4 0 @ h @ replicate 4 0)"
  using shift_loop [of 8 t h] assms by (intro nth_equalityI) (auto simp: nth_append)

lemma set_map2: "z \<in> set (map2 f xs ys) \<Longrightarrow> \<exists>x\<in>set xs. \<exists>y\<in>set ys. z = f x y"
  by (auto dest: set_zip_leftD set_zip_rightD)

lemma fold448_val:
  assumes "shape448 r"
  shows "shape448 (fold448 r)" and "val 56 (fold448 r) = fold_val448 (val 56 r)"
proof -
  let ?low = "map ucast (take 8 r) :: u128 list" and ?high = "map ucast (drop 8 r) :: u128 list"
  let ?s = "map2 (+) ?low ?high @ replicate 8 0" and ?z = "replicate 4 0 @ ?high @ replicate 4 0"
  let ?t = "map2 (+) ?s ?z"
  have r: "length r = 16" "small 56 r" using assms by (simp_all add: shape448_def)
  have sm: "small 56 ?low" "small 56 ?high" using small_ucast(1) [where 'a = 64 and 'b = 128, of 56] r by simp_all
  have lv: "val 56 ?low = val 56 (take 8 r)" "val 56 ?high = val 56 (drop 8 r)"
    using small_ucast(2) [where 'a = 64 and 'b = 128, of 56] r by (simp_all add: val_ucast)
  have lh: "unat x < 2 ^ 56" if "x \<in> set ?low \<or> x \<in> set ?high" for x using sm that by (auto simp: small_def list_all_iff)
  have d: "unat (l + h) = unat l + 1 * unat h" "unat (l + h) < 2 ^ 57" if "l \<in> set ?low" "h \<in> set ?high" for l h :: u128
    using lh [of l] lh [of h] that by (simp_all add: unat_word_ariths)
  have ss: "unat x < 2 ^ 57" if "x \<in> set ?s" for x
  proof (cases "x \<in> set (map2 (+) ?low ?high)")
    case True
    then show ?thesis using set_map2 [OF True] d(2) by blast
  qed (use that in simp)
  have zs: "unat x < 2 ^ 56" if "x \<in> set ?z" for x using that lh [of x] by auto
  have d2: "unat (x + y) = unat x + 1 * unat y" "unat (x + y) \<le> 2 ^ 120" if "x \<in> set ?s" "y \<in> set ?z" for x y :: u128
    using ss [OF that(1)] zs [OF that(2)] by (simp_all add: unat_word_ariths)
  have "val 56 ?t = val 56 ?s + 1 * val 56 ?z" using r by (intro val_map2 d2) simp_all
  also have "val 56 ?s = val 56 ?low + 1 * val 56 ?high" using val_map2 [of ?low ?high "(+)" 1 56, OF _ d(1)] r by (simp add: val_append)
  finally have v: "val 56 ?t = val 56 (take 8 r) + (2 ^ 224 + 1) * val 56 (drop 8 r)"
    using lv r by (simp add: val_append)
  have b: "val 56 (take 8 r) < 2 ^ 448" "val 56 (drop 8 r) < 2 ^ 448" using val_bound [of 56 "take 8 r"] val_bound [of 56 "drop 8 r"] r by simp_all
  have split: "val 56 r = val 56 (take 8 r) + 2 ^ 448 * val 56 (drop 8 r)" using val_take_drop [of 8 r 56] r by simp
  have fv: "fold_val448 (val 56 r) = val 56 (take 8 r) + (2 ^ 224 + 1) * val 56 (drop 8 r)" unfolding fold_val448_def split using b by simp
  have "list_all (\<lambda>x. unat x \<le> 2 ^ 120) ?t"
    unfolding list_all_iff using set_map2 [of _ "(+)" ?s ?z] d2(2) by blast
  moreover have "val 56 ?t < 2 ^ 896" unfolding v using b by simp
  ultimately show "shape448 (fold448 r)" "val 56 (fold448 r) = fold_val448 (val 56 r)"
    using normalize16_u128_val [of ?t] shift_add [of ?s ?high] r v fv by (simp_all add: fold448_def Let_def)
qed

lemma carry_run448:
  assumes "length r = 16" and "list_all (\<lambda>x. unat x < 2 ^ 63) r" and "val 56 r < 2 ^ 896"
  shows "shape448 (carry_run 56 0 r)" and "val 56 (carry_run 56 0 r) = val 56 r"
proof -
  have c: "list_all (\<lambda>x. unat x + 2 ^ (LENGTH(64) - 56) \<le> 2 ^ LENGTH(64)) r" using assms(2) by (auto simp: list_all_iff)
  show "shape448 (carry_run 56 0 r)" "val 56 (carry_run 56 0 r) = val 56 r"
    using carry_run_val [OF c, of 0] assms(1, 3) by (simp_all add: shape448_def)
qed

lemma shape448_bound: "shape448 r \<Longrightarrow> val 56 r < 2 ^ 896"
  using val_bound [of 56 r] by (simp add: shape448_def)

lemma normalize16_val:
  assumes "shape448 r"
  shows "shape448 (normalize16 r)" and "val 56 (normalize16 r) = val 56 r"
proof -
  have "list_all (\<lambda>x. unat x < 2 ^ 63) r" using assms by (auto simp: shape448_def small_def list_all_iff)
  from carry_run448 [OF _ this] shape448_bound [OF assms] assms
  show "shape448 (normalize16 r)" "val 56 (normalize16 r) = val 56 r" by (simp_all add: normalize16_def shape448_def)
qed

lemma take448:
  assumes "shape448 r" and "val 56 r < p448"
  shows "canonical448 (take 8 r)" and "val 56 (take 8 r) = val 56 r"
proof -
  have r: "length r = 16" "small 56 r" using assms by (simp_all add: shape448_def)
  have "val 56 r < 2 ^ 448" using assms(2) p448_eq(1) by linarith
  then show v: "val 56 (take 8 r) = val 56 r" using val_take_drop [of 8 r 56] r by simp
  show "canonical448 (take 8 r)" unfolding canonical448_def v using r assms(2) by simp
qed

lemma reduce448_val:
  assumes "shape448 r"
  shows "canonical448 (reduce448 r) \<and> val 56 (reduce448 r) = val 56 r mod p448"
proof -
  let ?n = "normalize16 r" and ?r = "(fold448 ^^ 6) (normalize16 r)"
  note n = normalize16_val [OF assms]
  have sh: "shape448 ((fold448 ^^ i) ?n)" for i by (induction i) (use n fold448_val in simp_all)
  have it: "val 56 ((fold448 ^^ i) ?n) = (fold_val448 ^^ i) (val 56 r)" for i
    by (induction i) (use n fold448_val sh in simp_all)
  have "(fold_val448 ^^ 6) x = fold_val448 (fold_val448 (fold_val448 (fold_val448 (fold_val448 (fold_val448 x)))))" for x
    by (simp add: numeral_eq_Suc)
  then have f: "val 56 ?r = fold_val448 (fold_val448 (fold_val448 (fold_val448 (fold_val448 (fold_val448 (val 56 r))))))" unfolding it .
  note b = fold_val448_bounds
  have lt: "val 56 ?r < 2 ^ 448" unfolding f using b(5) [OF b(5) [OF b(4) [OF b(3) [OF b(2) [OF b(1) [OF shape448_bound [OF assms]]]]]]] .
  have cong: "val 56 ?r mod p448 = val 56 r mod p448" unfolding f fold_val448_cong ..
  obtain diff bo where d: "borrow_run 56 0 ?r P_LIMBS_FULL448 = (diff, bo)" by force
  have bo: "unat bo \<le> 1" and df: "small 56 diff" "length diff = 16"
    and e: "val 56 diff + p448 = val 56 ?r + 2 ^ 896 * unat bo"
    using borrow_run_val [OF _ _ _ _ _ d] sh [of 6] p_limbs448 by (auto simp: shape448_def)
  have red: "reduce448 r = take 8 (if bo = 1 then ?r else diff)"
    using ct_select_eq [of ?r diff bo] d bo df sh [of 6] by (simp add: reduce448_def sub_raw448_def shape448_def)
  show ?thesis
  proof (cases "bo = 1")
    case True
    have "val 56 diff < 2 ^ 896" using val_bound [OF df(1)] df(2) by simp
    then have "val 56 ?r < p448" using e True by simp
    then show ?thesis using red True take448 [OF sh [of 6]] cong by simp
  next
    case False
    then have "unat bo = 0" using bo by (metis le_less less_one unat_1 word_unat_eq_iff)
    then have e': "val 56 ?r = val 56 diff + p448" using e by simp
    have "val 56 diff < 2 ^ 224 + 1" using e' lt unfolding p448_eq(1) by simp
    then have dl: "val 56 diff < p448" using p448_eq(2) by (rule less_trans)
    then have "val 56 diff = val 56 r mod p448" using cong unfolding e' by simp
    then show ?thesis using red False df take448 [OF _ dl] by (simp add: shape448_def)
  qed
qed

section \<open>The operations\<close>

lemma canonical448D:
  assumes "canonical448 a"
  shows "length a = 8" "small 56 a" "val 56 a < p448" "val 56 a < 2 ^ 448"
    "shape448 (widen448 a)" "val 56 (widen448 a) = val 56 a"
proof -
  show a: "length a = 8" "small 56 a" "val 56 a < p448" using assms by (simp_all add: canonical448_def)
  then show "val 56 a < 2 ^ 448" using p448_eq(1) by linarith
  have "small 56 (replicate 8 0 :: u64 list)" by (simp add: small_def list_all_iff)
  then show "shape448 (widen448 a)" "val 56 (widen448 a) = val 56 a"
    using a by (simp_all add: shape448_def widen448_def val_append)
qed

lemma limb448: "small 56 a \<Longrightarrow> x \<in> set a \<Longrightarrow> unat x < 2 ^ 56"
  by (auto simp: small_def list_all_iff)

lemma add_limbs448:
  assumes "shape448 a" and "shape448 b" and "val 56 a + val 56 b < 2 ^ 896"
  shows "shape448 (carry_run 56 0 (map2 (+) a b))" and "val 56 (carry_run 56 0 (map2 (+) a b)) = val 56 a + val 56 b"
proof -
  have s: "small 56 a" "small 56 b" using assms by (simp_all add: shape448_def)
  have u: "unat (x + y) = unat x + unat y" "unat (x + y) < 2 ^ 63" if "x \<in> set a" "y \<in> set b" for x y
    using limb448 [OF s(1) that(1)] limb448 [OF s(2) that(2)] by (simp_all add: unat_word_ariths)
  have len: "length a = length b" "length a = 16" using assms by (simp_all add: shape448_def)
  have v: "val 56 (map2 (+) a b) = val 56 a + val 56 b" using val_map2 [OF len(1), of "(+)" 1 56] u(1) by simp
  have "list_all (\<lambda>x. unat x < 2 ^ 63) (map2 (+) a b)"
    unfolding list_all_iff using set_map2 [of _ "(+)" a b] u(2) by blast
  then show "shape448 (carry_run 56 0 (map2 (+) a b))" "val 56 (carry_run 56 0 (map2 (+) a b)) = val 56 a + val 56 b"
    using carry_run448 [of "map2 (+) a b"] len v assms(3) by simp_all
qed

lemma add448_val:
  assumes "canonical448 a" and "canonical448 b"
  shows "canonical448 (add448 a b) \<and> val 56 (add448 a b) = (val 56 a + val 56 b) mod p448"
proof -
  note a = canonical448D [OF assms(1)] and b = canonical448D [OF assms(2)]
  have "val 56 (widen448 a) + val 56 (widen448 b) < 2 ^ 896" using a(4, 6) b(4, 6) by simp
  from add_limbs448 [OF a(5) b(5) this] show ?thesis
    using reduce448_val a(6) b(6) by (simp add: add448_def)
qed

lemma sub448_val:
  assumes "canonical448 a" and "canonical448 b"
  shows "canonical448 (sub448 a b) \<and> val 56 (sub448 a b) = (val 56 a + p448 - val 56 b) mod p448"
proof -
  note a = canonical448D [OF assms(1)] and b = canonical448D [OF assms(2)]
  have "p448 < 2 ^ 448" using p448_eq(1) by linarith
  then have "val 56 (widen448 a) + val 56 P_LIMBS_FULL448 < 2 ^ 896" using a(4, 6) unfolding p_limbs448 by simp
  note r = add_limbs448 [OF a(5) p_limbs448(1) this, unfolded p_limbs448(2) a(6)]
  let ?r = "carry_run 56 0 (map2 (+) (widen448 a) P_LIMBS_FULL448)"
  obtain out bo where d: "borrow_run 56 0 ?r (widen448 b) = (out, bo)" by force
  have o: "unat bo \<le> 1" "small 56 out" "length out = 16" "val 56 out + val 56 b = val 56 ?r + 2 ^ 896 * unat bo"
    using borrow_run_val [OF _ _ _ _ _ d] r(1) b(5, 6) by (auto simp: shape448_def)
  have "val 56 out < 2 ^ 896" using val_bound [OF o(2)] o(3) by simp
  then have "unat bo = 0" using o(1, 4) b(3) r(2) by (cases "unat bo = 0") (auto simp: le_Suc_eq)
  then have "val 56 out = val 56 a + p448 - val 56 b" using o(4) r(2) by simp
  moreover have "shape448 out" using o by (simp add: shape448_def)
  ultimately show ?thesis using reduce448_val [of out] d by (simp add: sub448_def widen_p448)
qed

text \<open>The accumulator after at most \<open>n\<close> additions, whose sum is \<open>S\<close> modulo the prime.\<close>

definition mul_inv448 :: "nat \<Rightarrow> nat \<Rightarrow> u128 list \<Rightarrow> bool" where
  "mul_inv448 n S t \<longleftrightarrow> length t = 16 \<and> (\<forall>m<16. unat (t ! m) \<le> n * 2 ^ 112) \<and>
     drop 11 t = replicate 5 0 \<and> val 56 t mod p448 = S mod p448"

lemma mul_inv448_weaken:
  assumes "mul_inv448 n S t" and "n \<le> n'" and "S mod p448 = S' mod p448"
  shows "mul_inv448 n' S' t"
proof -
  have "n * 2 ^ 112 \<le> n' * 2 ^ 112" using assms(2) by (rule mult_le_mono1)
  then have "\<forall>m<16. unat (t ! m) \<le> n' * 2 ^ 112" using assms(1) unfolding mul_inv448_def by (meson order_trans)
  then show ?thesis using assms unfolding mul_inv448_def by simp
qed

lemma mul_term448:
  assumes "unat (x :: u64) < 2 ^ 56" and "unat (y :: u64) < 2 ^ 56"
  shows "unat (ucast x * ucast y :: u128) = unat x * unat y" and "unat x * unat y \<le> 2 ^ 112"
proof -
  have "unat x * unat y \<le> 2 ^ 56 * 2 ^ 56" using assms by (intro mult_le_mono) simp_all
  then show le: "unat x * unat y \<le> 2 ^ 112" by simp
  have "unat (ucast x :: u128) = unat x" "unat (ucast y :: u128) = unat y"
    using assms by (simp_all add: unsigned_ucast_eq take_bit_nat_eq_self)
  then show "unat (ucast x * ucast y :: u128) = unat x * unat y" using le by (simp add: unat_word_ariths)
qed

lemma fold_weight448:
  assumes "8 \<le> m"
  shows "2 ^ (56 * m) mod p448 = (2 ^ (56 * (m - 8)) + 2 ^ (56 * (m - 4))) mod p448"
proof -
  obtain k where k: "m = 8 + k" using le_Suc_ex [OF assms] by blast
  have "(2::nat) ^ (56 * m) = 2 ^ (56 * k) * 2 ^ 448" by (simp add: k power_add)
  also have "\<dots> = 2 ^ (56 * k) + 2 ^ (56 * k) * 2 ^ 224 + p448 * 2 ^ (56 * k)" unfolding p448_eq(1) by (simp only: algebra_simps mult_1_right)
  also have "(2::nat) ^ (56 * k) * 2 ^ 224 = 2 ^ (56 * (m - 4))" by (simp add: k power_add)
  finally show ?thesis by (simp add: k)
qed

lemma mul_update448:
  assumes "mul_inv448 n S t" and "m < 11" and "n < 128" and "unat w \<le> 2 ^ 112"
  shows "mul_inv448 (Suc n) (S + 2 ^ (56 * m) * unat w) (t[m := t ! m + w])"
proof -
  have t: "length t = 16" "\<And>i. i < 16 \<Longrightarrow> unat (t ! i) \<le> n * 2 ^ 112" "val 56 t mod p448 = S mod p448"
      "drop 11 t = replicate 5 0"
    using assms(1) by (simp_all add: mul_inv448_def)
  have "n * 2 ^ 112 \<le> 127 * 2 ^ 112" using assms(3) by (intro mult_le_mono1) simp
  then have u: "unat (t ! m + w) = unat (t ! m) + unat w" using t(2) [of m] assms(2, 4) by (simp add: unat_word_ariths)
  have "unat ((t[m := t ! m + w]) ! i) \<le> Suc n * 2 ^ 112" if "i < 16" for i
    using t(1) t(2) [OF that] that u assms(4) by (cases "i = m") simp_all
  moreover have "val 56 (t[m := t ! m + w]) = val 56 t + 2 ^ (56 * m) * unat w"
    using val_update [of m t 56 "t ! m + w"] t(1) assms(2) u by (simp add: distrib_left)
  then have "val 56 (t[m := t ! m + w]) mod p448 = (S + 2 ^ (56 * m) * unat w) mod p448"
    using t(3) by (metis mod_add_left_eq)
  ultimately show ?thesis using t(1, 4) assms(2) by (simp add: mul_inv448_def)
qed

lemma mul_step448_inv:
  assumes "mul_inv448 n S t" and "n + 2 \<le> 128" and "canonical448 a" and "canonical448 b" and "i < 8" and "j < 8"
  shows "mul_inv448 (n + 2) (S + unat (a ! i) * unat (b ! j) * 2 ^ (56 * (i + j))) (mul_step448 a b t (i, j))"
proof -
  let ?w = "ucast (a ! i) * ucast (b ! j) :: u128" and ?x = "unat (a ! i) * unat (b ! j)"
  note a = canonical448D(1, 2) [OF assms(3)] and b = canonical448D(1, 2) [OF assms(4)]
  have "a ! i \<in> set a" "b ! j \<in> set b" using a b assms(5, 6) by simp_all
  from mul_term448 [OF limb448 [OF a(2) this(1)] limb448 [OF b(2) this(2)]]
  have w: "unat ?w = ?x" "unat ?w \<le> 2 ^ 112" by simp_all
  show ?thesis
  proof (cases "8 \<le> i + j")
    case True
    have m: "i + j - 8 < 11" "i + j - 4 < 11" using assms(5, 6) by simp_all
    have n: "n < 128" "Suc n < 128" using assms(2) by simp_all
    note u = mul_update448 [OF mul_update448 [OF assms(1) m(1) n(1) w(2)] m(2) n(2) w(2), unfolded w(1)]
    have "?x * 2 ^ (56 * (i + j)) mod p448 = ?x * (2 ^ (56 * (i + j - 8)) + 2 ^ (56 * (i + j - 4))) mod p448"
      using fold_weight448 [OF True] mod_mult_right_eq by metis
    then have "(S + 2 ^ (56 * (i + j - 8)) * ?x + 2 ^ (56 * (i + j - 4)) * ?x) mod p448 = (S + ?x * 2 ^ (56 * (i + j))) mod p448"
      by (metis (no_types, lifting) add.assoc distrib_left mod_add_right_eq mult.commute)
    from mul_inv448_weaken [OF u _ this, of "n + 2"] show ?thesis using True by (simp add: mul_step448_def Let_def)
  next
    case False
    then show ?thesis
      using mul_inv448_weaken [OF mul_update448 [OF assms(1) _ _ w(2), of "i + j"], of "n + 2"] assms(2) w(1)
      by (simp add: mul_step448_def Let_def mult.commute)
  qed
qed

lemma mul_terms448:
  assumes "mul_inv448 n S t" and "canonical448 a" and "canonical448 b" and "n + 2 * length L \<le> 128" and "\<forall>(i, j)\<in>set L. i < 8 \<and> j < 8"
  shows "mul_inv448 (n + 2 * length L) (S + sum_list (map (\<lambda>(i, j). unat (a ! i) * unat (b ! j) * 2 ^ (56 * (i + j))) L))
    (foldl (mul_step448 a b) t L)"
  using assms(1, 4, 5)
proof (induction L arbitrary: n S t)
  case (Cons ij L)
  obtain i j where ij: "ij = (i, j)" by force
  have "mul_inv448 (n + 2) (S + unat (a ! i) * unat (b ! j) * 2 ^ (56 * (i + j))) (mul_step448 a b t (i, j))"
    using mul_step448_inv [OF Cons.prems(1) _ assms(2, 3)] Cons.prems(2, 3) ij by simp
  from Cons.IH [OF this] show ?case using Cons.prems(2, 3) by (simp add: ij add.assoc)
qed simp

lemma mul448_val:
  assumes "canonical448 a" and "canonical448 b"
  shows "canonical448 (mul448 a b) \<and> val 56 (mul448 a b) = val 56 a * val 56 b mod p448"
proof -
  let ?L = "List.product [0..<8] [0..<8] :: (nat \<times> nat) list"
  let ?t = "foldl (mul_step448 a b) (replicate 16 0) ?L"
  note a = canonical448D [OF assms(1)] and b = canonical448D [OF assms(2)]
  have z: "mul_inv448 0 0 (replicate 16 0)" by (simp add: mul_inv448_def)
  have "mul_inv448 (0 + 2 * length ?L) (0 + sum_list (map (\<lambda>(i, j). unat (a ! i) * unat (b ! j) * 2 ^ (56 * (i + j))) ?L)) ?t"
    by (rule mul_terms448 [OF z assms]) (auto simp: set_product)
  then have "mul_inv448 128 (val 56 a * val 56 b) ?t"
    using product_val [of 8 a b 56] a(1) b(1) by simp
  then have t: "length ?t = 16" "list_all (\<lambda>x. unat x \<le> 2 ^ 120) ?t" "val 56 ?t mod p448 = val 56 a * val 56 b mod p448"
      "drop 11 ?t = replicate 5 0"
    by (auto simp: mul_inv448_def list_all_length intro: order_trans)
  have "list_all (\<lambda>x. unat x \<le> 2 ^ 120) (take 11 ?t)" using t(2) by (auto simp: list_all_iff dest: in_set_takeD)
  from val_le [OF this, of 56] have "val 56 (take 11 ?t) \<le> 2 ^ 120 * 2 ^ 616" using t(1) by simp
  then have "val 56 ?t < 2 ^ 896" using val_take_drop [of 11 ?t 56] t(1, 4) by simp
  from normalize16_u128_val [OF t(1, 2) this] show ?thesis
    using reduce448_val t(3) by (simp add: mul448_def)
qed

interpretation f448: residue_arith p448 canonical448 "val 56" ONE448 add448 sub448 mul448
proof unfold_locales
  show "1 < p448" by (simp add: p448_def)
  show "canonical448 ONE448 \<and> val 56 ONE448 = 1" by (simp add: canonical448_def ONE448_def p448_def)
qed (use add448_val sub448_val mul448_val in blast)+

lemma invert448_val:
  assumes "canonical448 a"
  shows "canonical448 (invert448 a) \<and> val 56 (invert448 a) = val 56 a ^ (p448 - 2) mod p448"
proof -
  have "((replicate 56 0xFF)[0 := 0xFD])[28 := 0xFE] = 0xFD # replicate 27 0xFF @ 0xFE # replicate 27 (0xFF :: u8)"
    by (simp add: numeral_eq_Suc)
  moreover have "val 8 (0xFD # replicate 27 0xFF @ 0xFE # replicate 27 (0xFF :: u8)) = p448 - 2"
    using val_ones [of 27] by (simp add: val_append p448_def)
  ultimately show ?thesis
    using f448.pow_bits_law [OF assms] by (simp add: invert448_def pow448_def bits_msb_val)
qed

lemma fe448_from_bytes_val:
  assumes "length bs = 56"
  shows "canonical448 (fe448_from_bytes bs) \<and> val 56 (fe448_from_bytes bs) = val 8 bs mod 2 ^ 447 mod p448"
proof -
  let ?b = "bs[55 := bs ! 55 AND 0x7F]" and ?u = "unpack 56 8 0 0 (bs[55 := bs ! 55 AND 0x7F])"
  have m: "val 8 ?b = val 8 bs mod 2 ^ 447" using clear_top_bit [of bs 55] assms by simp
  have u: "val 56 ?u = val 8 ?b mod 2 ^ 448" "small 56 ?u" "length ?u = 8"
    using unpack_val [of 0 0 56 8 ?b] by simp_all
  have "shape448 (?u @ replicate 8 0)" using u by (simp add: shape448_def small_def list_all_iff)
  moreover have "val 56 (?u @ replicate 8 0) = val 8 bs mod 2 ^ 447" using u(1) by (simp add: val_append m)
  ultimately show ?thesis
    using reduce448_val [of "?u @ replicate 8 0"] by (simp add: fe448_from_bytes_def)
qed

lemma fe448_to_bytes_val:
  assumes "canonical448 a"
  shows "length (fe448_to_bytes a) = 56 \<and> val 8 (fe448_to_bytes a) = val 56 a"
  using pack_val [of 56 a 0 0 56] canonical448D(1, 2, 4) [OF assms] by (simp add: fe448_to_bytes_def)

text \<open>
  C0: On canonical elements the limb arithmetic of \<open>field448\<close> is the arithmetic of the integers modulo
  \<open>2 ^ 448 - 2 ^ 224 - 1\<close>, and every result is canonical again: sums, differences, products, and the inverse as the
  power with exponent \<open>p - 2\<close>. The bytes of an element are its value.
\<close>

theorem field448_exact:
  assumes "canonical448 a" and "canonical448 b"
  shows "canonical448 (add448 a b) \<and> val 56 (add448 a b) = (val 56 a + val 56 b) mod p448 \<and>
    canonical448 (sub448 a b) \<and> int (val 56 (sub448 a b)) = (int (val 56 a) - int (val 56 b)) mod int p448 \<and>
    canonical448 (mul448 a b) \<and> val 56 (mul448 a b) = val 56 a * val 56 b mod p448 \<and>
    canonical448 (invert448 a) \<and> val 56 (invert448 a) = val 56 a ^ (p448 - 2) mod p448 \<and>
    length (fe448_to_bytes a) = 56 \<and> val 8 (fe448_to_bytes a) = val 56 a"
proof -
  have "int (val 56 a + p448 - val 56 b) = int (val 56 a) - int (val 56 b) + int p448"
    using canonical448D(3) [OF assms(2)] by simp
  then have "int (val 56 (sub448 a b)) = (int (val 56 a) - int (val 56 b)) mod int p448"
    using sub448_val [OF assms] by (simp add: zmod_int)
  then show ?thesis
    using add448_val [OF assms] sub448_val [OF assms] mul448_val [OF assms] invert448_val [OF assms(1)]
      fe448_to_bytes_val [OF assms(1)] by simp
qed

theorem field448_exact_witness:
  "canonical448 ZERO448 \<and> canonical448 ONE448 \<and> int (val 56 (sub448 ZERO448 ONE448)) = (0 - 1) mod int p448"
proof -
  have "canonical448 ZERO448" "canonical448 ONE448" "val 56 ZERO448 = 0" "val 56 ONE448 = 1"
    using f448.one_law by (simp_all add: canonical448_def ZERO448_def p448_def small_def list_all_iff)
  then show ?thesis using field448_exact [of ZERO448 ONE448] by simp
qed

end
