(* ===== verification/X448.thy ===== *)
theory X448
  imports X25519 X448_Field
begin

unbundle bit_operations_syntax

text \<open>
  X448 key agreement, \<^verbatim>\<open>tpt-x25519/src/x448.rs\<close>: the same ladder over the field modulo
  \<open>2 ^ 448 - 2 ^ 224 - 1\<close>. The ladder itself is exact, but its two inputs are not those of RFC 7748: the
  clamping sets bit 446 of the scalar instead of bit 447, and the decoding drops the top bit of the
  point, which RFC 7748 does for X25519 only.
\<close>

abbreviation A24_448 :: fe448 where "A24_448 \<equiv> [39081, 0, 0, 0, 0, 0, 0, 0]"

abbreviation BASE_POINT448 :: bytes where
  "BASE_POINT448 \<equiv> 5 # replicate 55 0"

definition clamp448 :: "bytes \<Rightarrow> bytes" where
  "clamp448 scalar =
     (let k = scalar;
          k = k[0 := k ! 0 AND 252];
          k = k[55 := k ! 55 AND 127];
          k = k[55 := k ! 55 OR 64]
      in k)"

definition cswap448 :: "u8 \<Rightarrow> fe448 \<Rightarrow> fe448 \<Rightarrow> fe448 \<times> fe448" where
  "cswap448 swap a b =
     (let mask = 0 - ucast swap
      in (map2 (\<lambda>x y. (x AND NOT mask) OR (y AND mask)) a b, map2 (\<lambda>x y. (x AND mask) OR (y AND NOT mask)) a b))"

definition ladder448 :: "bytes \<Rightarrow> bytes \<Rightarrow> fe448 \<times> fe448" where
  "ladder448 scalar point =
     (let k = clamp448 scalar;
          u = fe448_from_bytes point;
          x1 = u
      in ladder_finish cswap448
           (foldl (ladder_step (ladder_body add448 sub448 mul448 A24_448 x1) cswap448)
             ((ONE448, ZERO448, u, ONE448), 0) (map (scalar_bit k) (rev [0..<448]))))"

definition x448 :: "bytes \<Rightarrow> bytes \<Rightarrow> bytes" where
  "x448 scalar point =
     (let (x2, z2) = ladder448 scalar point;
          inv = invert448 z2;
          result = mul448 x2 inv
      in fe448_to_bytes result)"

datatype X448Secret = X448Secret bytes
datatype X448PublicKey = X448PublicKey bytes
datatype X448SharedSecret = X448SharedSecret bytes

fun x448_secret_drop :: "X448Secret \<Rightarrow> X448Secret" where
  "x448_secret_drop (X448Secret b) = X448Secret (zeroize b)"

fun x448_shared_drop :: "X448SharedSecret \<Rightarrow> X448SharedSecret" where
  "x448_shared_drop (X448SharedSecret b) = X448SharedSecret (zeroize b)"

fun x448_public_key_ct_eq :: "X448PublicKey \<Rightarrow> X448PublicKey \<Rightarrow> bool" where
  "x448_public_key_ct_eq (X448PublicKey a) (X448PublicKey b) = ct_eq_bytes a b"

fun x448_shared_ct_eq :: "X448SharedSecret \<Rightarrow> X448SharedSecret \<Rightarrow> bool" where
  "x448_shared_ct_eq (X448SharedSecret a) (X448SharedSecret b) = ct_eq_bytes a b"

fun x448_shared_is_zero :: "X448SharedSecret \<Rightarrow> bool" where
  "x448_shared_is_zero (X448SharedSecret a) = is_zero a"

fun x448_public_key :: "X448Secret \<Rightarrow> X448PublicKey" where
  "x448_public_key (X448Secret s) = X448PublicKey (x448 s BASE_POINT448)"

fun x448_diffie_hellman :: "X448Secret \<Rightarrow> X448PublicKey \<Rightarrow> KeyError + X448SharedSecret" where
  "x448_diffie_hellman (X448Secret s) (X448PublicKey p) =
     (let secret = X448SharedSecret (x448 s p)
      in if x448_shared_is_zero secret then Inl ZeroSharedSecret else Inr secret)"

fun x448_diffie_hellman_unchecked :: "X448Secret \<Rightarrow> X448PublicKey \<Rightarrow> X448SharedSecret" where
  "x448_diffie_hellman_unchecked (X448Secret s) (X448PublicKey p) = X448SharedSecret (x448 s p)"

section \<open>The ladder computes the reference ladder\<close>

lemma cswap448_law:
  assumes "length x = length y"
  shows "cswap448 (of_bool b) x y = (if b then (y, x) else (x, y))"
  using cswap255_law [OF assms, of b] by (simp add: cswap255_def cswap448_def)

interpretation l448: ladder_arith p448 canonical448 "val 56" ONE448 add448 sub448 mul448 cswap448
  by unfold_locales (simp add: cswap448_law canonical448_def)

lemma clamp448_val:
  assumes "length s = 56"
  shows "length (clamp448 s) = 56 \<and> val 8 (clamp448 s) = 2 ^ 446 + (val 8 s mod 2 ^ 446 - val 8 s mod 4)"
proof -
  obtain a m z where s: "s = a # m @ [z]" and m: "length m = 54" using byte_ends [of s 54] assms by auto
  have "clamp448 s = (a AND 252) # m @ [(z AND 127) OR 64]"
    by (simp add: clamp448_def Let_def s nth_append m list_update_append)
  then show ?thesis using clamp_val [OF m _ and_252, of a z] by (simp add: s m)
qed

lemma ladder448_val:
  assumes "length s = 56" and "length u = 56"
  shows "\<exists>x z. ladder448 s u = (x, z) \<and> canonical448 x \<and> canonical448 z \<and>
    (\<exists>x3 z3. mont_ladder p448 39081 448 (val 8 (clamp448 s)) (val 8 u mod 2 ^ 447 mod p448) = (val 56 x, val 56 z, x3, z3))"
proof -
  have z: "canonical448 ZERO448" "val 56 ZERO448 = 0" "canonical448 A24_448" "val 56 A24_448 = 39081"
    by (simp_all add: canonical448_def ZERO448_def p448_def small_def list_all_iff)
  note u = fe448_from_bytes_val [OF assms(2)]
  have c: "length (clamp448 s) = 56" using clamp448_val [OF assms(1)] by simp
  show ?thesis
    using l448.mont_law [OF conjunct1 [OF u] z(3, 1, 2), of "val 8 (clamp448 s)" 448] u c z(4)
    by (simp add: ladder448_def Let_def scalar_bits)
qed



text \<open>
  RFC 7748, section 5: \<open>decodeScalar448\<close> clears the two lowest bits of the first byte and sets the highest bit of
  the last byte; \<open>decodeUCoordinate\<close> masks no bit for X448, whose length is a multiple of eight bits.
\<close>

definition decode_scalar448 :: "bytes \<Rightarrow> nat" where
  "decode_scalar448 s = 2 ^ 447 + (val 8 s mod 2 ^ 447 - val 8 s mod 4)"

text \<open>
  C39: The X448 of the code is not that of RFC 7748: no scalar is clamped to the number that the RFC decodes from
  it, and a public key whose top bit is set gives the shared secret of another one, the key with that bit cleared,
  although the RFC decodes the two to different coordinates.
\<close>

theorem x448_deviates_from_rfc7748:
  assumes "length s = 56" and "length u = 56"
  shows "val 8 (clamp448 s) \<noteq> decode_scalar448 s \<and> x448 s (u[55 := u ! 55 AND 0x7F]) = x448 s u"
proof -
  have "val 8 s mod 2 ^ 446 < 2 ^ 446" by simp
  then have "val 8 (clamp448 s) < 2 ^ 447" using clamp448_val [OF assms(1)] by simp
  moreover have "2 ^ 447 \<le> decode_scalar448 s" by (simp add: decode_scalar448_def)
  moreover have "fe448_from_bytes (u[55 := u ! 55 AND 0x7F]) = fe448_from_bytes u"
    using assms(2) by (simp add: fe448_from_bytes_def and.assoc)
  then have "x448 s (u[55 := u ! 55 AND 0x7F]) = x448 s u" by (simp add: x448_def ladder448_def)
  ultimately show ?thesis by linarith
qed

theorem x448_deviates_from_rfc7748_witness:
  "val 8 (clamp448 (replicate 56 0)) \<noteq> decode_scalar448 (replicate 56 0) \<and>
   x448 (replicate 56 0) (5 # replicate 54 0 @ [0]) = x448 (replicate 56 0) (5 # replicate 54 0 @ [0x80])"
  using x448_deviates_from_rfc7748 [of "replicate 56 0" "5 # replicate 54 0 @ [0x80]"]
  by (simp add: nth_append list_update_append)

end
