(* ===== verification/Hotp.thy ===== *)
theory Hotp
  imports Limbs
begin

unbundle bit_operations_syntax

text \<open>
  The one-time passwords of \<^verbatim>\<open>tpt-hotp/src/lib.rs\<close>: dynamic truncation of an HMAC-SHA-1 value to 31 bits, its
  last decimal digits, and the look-ahead search of the verifier. HMAC-SHA-1 is the parameter \<open>hmac\<close>, a function of the
  key and the message with 20 bytes of output. Strings are lists of their bytes.
\<close>

abbreviation MAX_DIGITS :: u32 where "MAX_DIGITS \<equiv> 10"
abbreviation MIN_DIGITS :: u32 where "MIN_DIGITS \<equiv> 1"

datatype HotpError = InvalidDigits | EmptySecret | InvalidCode

record Hotp =
  hotp_secret :: bytes
  hotp_digits :: u32

definition Hotp_new :: "bytes \<Rightarrow> u32 \<Rightarrow> HotpError + Hotp" where
  "Hotp_new secret digits =
     (if \<not> (MIN_DIGITS \<le> digits \<and> digits \<le> MAX_DIGITS) then Inl InvalidDigits
      else if secret = [] then Inl EmptySecret
      else Inr \<lparr>hotp_secret = secret, hotp_digits = digits\<rparr>)"

definition Hotp_with_secret :: "bytes \<Rightarrow> HotpError + Hotp" where
  "Hotp_with_secret secret = Hotp_new secret 6"

text \<open>The format \<^verbatim>\<open>{value:0width$}\<close>: decimal digits, filled up with zeros on the left.\<close>

definition digit :: "nat \<Rightarrow> u8" where
  "digit n = 48 + word_of_nat n"

fun decimal :: "nat \<Rightarrow> bytes" where
  "decimal n = (if n < 10 then [digit n] else decimal (n div 10) @ [digit (n mod 10)])"

declare decimal.simps [simp del]

definition zero_padded :: "nat \<Rightarrow> nat \<Rightarrow> bytes" where
  "zero_padded width n = (let s = decimal n in replicate (width - length s) (digit 0) @ s)"

text \<open>The four bytes at the offset that the last byte gives, without the sign bit.\<close>

definition truncate :: "bytes \<Rightarrow> u32" where
  "truncate hs =
     (let offset = unat (hs ! 19 AND 0x0f)
      in push_bit 24 (ucast (hs ! offset AND 0x7f)) OR push_bit 16 (ucast (hs ! (offset + 1)))
         OR push_bit 8 (ucast (hs ! (offset + 2))) OR ucast (hs ! (offset + 3)))"

definition hotp :: "(bytes \<Rightarrow> bytes \<Rightarrow> bytes) \<Rightarrow> bytes \<Rightarrow> u64 \<Rightarrow> u32 \<Rightarrow> HotpError + bytes" where
  "hotp hmac secret counter digits =
     (if \<not> (MIN_DIGITS \<le> digits \<and> digits \<le> MAX_DIGITS) then Inl InvalidDigits
      else if secret = [] then Inl EmptySecret
      else
        let hs = hmac secret (be64 counter);
            bin_code = truncate hs;
            modulo = 10 ^ unat digits :: u64;
            v = ucast bin_code mod modulo
        in Inr (zero_padded (unat digits) (unat v)))"

definition constant_time_eq :: "bytes \<Rightarrow> bytes \<Rightarrow> bool" where
  "constant_time_eq a b =
     (if length a \<noteq> length b then False
      else foldl (\<lambda>diff (x, y). diff OR (x XOR y)) 0 (zip a b) = 0)"

definition generate :: "(bytes \<Rightarrow> bytes \<Rightarrow> bytes) \<Rightarrow> Hotp \<Rightarrow> u64 \<Rightarrow> HotpError failure + bytes" where
  "generate hmac h counter =
     (case hotp hmac (hotp_secret h) counter (hotp_digits h) of Inl _ \<Rightarrow> Inl Panic | Inr code \<Rightarrow> Inr code)"

text \<open>The loop over \<^verbatim>\<open>counter..=end\<close>; the first argument is the number of counters after this one.\<close>

primrec look_ahead :: "nat \<Rightarrow> (bytes \<Rightarrow> bytes \<Rightarrow> bytes) \<Rightarrow> Hotp \<Rightarrow> bytes \<Rightarrow> u64 \<Rightarrow> HotpError failure + u64 option" where
  "look_ahead 0 hmac h code c =
     (case generate hmac h c of
        Inl e \<Rightarrow> Inl e
      | Inr candidate \<Rightarrow> if constant_time_eq code candidate then Inr (Some c) else Inr None)"
| "look_ahead (Suc n) hmac h code c =
     (case generate hmac h c of
        Inl e \<Rightarrow> Inl e
      | Inr candidate \<Rightarrow> if constant_time_eq code candidate then Inr (Some c) else look_ahead n hmac h code (c + 1))"

definition saturating_add :: "u64 \<Rightarrow> u64 \<Rightarrow> u64" where
  "saturating_add a b = (if unat a + unat b < 2 ^ 64 then a + b else - 1)"

definition verify_with_counter ::
    "(bytes \<Rightarrow> bytes \<Rightarrow> bytes) \<Rightarrow> Hotp \<Rightarrow> bytes \<Rightarrow> u64 \<Rightarrow> u64 \<Rightarrow> HotpError failure + u64 option" where
  "verify_with_counter hmac h code counter window =
     (let end_counter = saturating_add counter window
      in look_ahead (unat (end_counter - counter)) hmac h code counter)"

definition verify :: "(bytes \<Rightarrow> bytes \<Rightarrow> bytes) \<Rightarrow> Hotp \<Rightarrow> bytes \<Rightarrow> u64 \<Rightarrow> u64 \<Rightarrow> HotpError failure + bool" where
  "verify hmac h code counter window = map_sum id (\<lambda>r. r \<noteq> None) (verify_with_counter hmac h code counter window)"

section \<open>Decimal strings\<close>

definition dec_val :: "bytes \<Rightarrow> nat" where
  "dec_val ds = foldl (\<lambda>n d. 10 * n + unat (d - 48)) 0 ds"

definition is_digit :: "u8 \<Rightarrow> bool" where
  "is_digit d \<longleftrightarrow> 48 \<le> d \<and> d \<le> 57"

lemma digit_val: "n < 10 \<Longrightarrow> unat (digit n - 48) = n" "n < 10 \<Longrightarrow> is_digit (digit n)"
  by (simp_all add: digit_def is_digit_def word_le_nat_alt unat_word_ariths unat_of_nat)

lemma dec_val_snoc: "dec_val (ds @ [d]) = 10 * dec_val ds + unat (d - 48)"
  by (simp add: dec_val_def)

lemma dec_val_zeros: "dec_val (replicate k (digit 0) @ ds) = dec_val ds"
proof -
  have "foldl (\<lambda>n d. 10 * n + unat (d - 48)) 0 (replicate k (digit 0)) = 0"
    by (induction k) (simp_all add: digit_val(1))
  then show ?thesis by (simp add: dec_val_def)
qed

lemma decimal_val: "dec_val (decimal n) = n \<and> list_all is_digit (decimal n) \<and> (0 < k \<longrightarrow> n < 10 ^ k \<longrightarrow> length (decimal n) \<le> k)"
proof (induction n arbitrary: k rule: decimal.induct)
  case (1 n)
  show ?case
  proof (cases "n < 10")
    case True
    then show ?thesis by (subst (1 2 3) decimal.simps) (simp add: dec_val_def digit_val)
  next
    case False
    have len: "length (decimal (n div 10)) \<le> k - 1" if lt: "n < 10 ^ k" for k
    proof -
      obtain j where j: "k = Suc j" using lt False by (cases k) simp_all
      have "n div 10 < 10 ^ j" "0 < j" using lt False by (auto simp: j less_mult_imp_div_less intro: gr0I)
      then show ?thesis using 1 [OF False] by (simp add: j)
    qed
    show ?thesis using False 1 [OF False] len [of k] by (subst (1 2 3) decimal.simps) (auto simp: dec_val_snoc digit_val list_all_append)
  qed
qed

lemma zero_padded_val:
  assumes "n < 10 ^ w" and "0 < w"
  shows "length (zero_padded w n) = w" and "dec_val (zero_padded w n) = n" and "list_all is_digit (zero_padded w n)"
  using decimal_val [of n w] assms digit_val(2) [of 0]
  by (simp_all add: zero_padded_def Let_def dec_val_zeros) (auto simp: list_all_iff)

section \<open>Truncation\<close>

lemma ucast_byte: "unat (ucast (b :: u8) :: u32) = unat b" "unat b < 256"
  using unat_less_power [of b] by (simp_all add: unsigned_ucast_eq take_bit_nat_eq_self)

lemma truncate_val:
  assumes "length hs = 20"
  shows "unat (truncate hs) = be_val (take 4 (drop (unat (hs ! 19) mod 16) hs)) mod 2 ^ 31"
proof -
  let ?o = "unat (hs ! 19 AND 0x0f)"
  let ?a = "hs ! ?o" and ?b = "hs ! (?o + 1)" and ?c = "hs ! (?o + 2)" and ?d = "hs ! (?o + 3)"
  have o: "?o = unat (hs ! 19) mod 16" using carry_digit(1) [of "hs ! 19" 4] by (simp add: mask_eq_exp_minus_1)
  have "?o < 16" unfolding o by simp
  then have q: "take 4 (drop ?o hs) = [?a, ?b, ?c, ?d]"
    using assms by (simp add: take_Suc_conv_app_nth Cons_nth_drop_Suc [symmetric] numeral_eq_Suc)
  have a: "unat (?a AND 0x7f) = unat ?a mod 128" using carry_digit(1) [of ?a 7] by (simp add: mask_eq_exp_minus_1)
  have e: "truncate hs = ((ucast ?d OR push_bit 8 (ucast ?c)) OR push_bit 16 (ucast ?b)) OR push_bit 24 (ucast (?a AND 0x7f))"
    by (simp only: truncate_def Let_def or.commute or.left_commute)
  note u = ucast_byte
  have 1: "unat (ucast ?d OR push_bit 8 (ucast ?c) :: u32) = unat ?d + 2 ^ 8 * unat ?c"
    using or_push [of "ucast ?d :: u32" 8 "ucast ?c"] u [of ?c] u [of ?d] by simp
  have 2: "unat ((ucast ?d OR push_bit 8 (ucast ?c)) OR push_bit 16 (ucast ?b) :: u32) = unat ?d + 2 ^ 8 * unat ?c + 2 ^ 16 * unat ?b"
    using or_push [of "ucast ?d OR push_bit 8 (ucast ?c) :: u32" 16 "ucast ?b"] 1 u [of ?b] u(2) [of ?c] u(2) [of ?d] by simp
  have "unat (truncate hs) = unat ?d + 2 ^ 8 * unat ?c + 2 ^ 16 * unat ?b + 2 ^ 24 * (unat ?a mod 128)"
    unfolding e using or_push [of "(ucast ?d OR push_bit 8 (ucast ?c)) OR push_bit 16 (ucast ?b) :: u32" 24 "ucast (?a AND 0x7f)"]
      2 a u(1) [of "?a AND 0x7f"] u(2) [of ?b] u(2) [of ?c] u(2) [of ?d] by simp
  also have "\<dots> = be_val [?a, ?b, ?c, ?d] mod 2 ^ 31"
    using digit_mod [of "unat ?d + 2 ^ 8 * unat ?c + 2 ^ 16 * unat ?b" "2 ^ 24" "unat ?a" 128] u(2) [of ?b] u(2) [of ?c] u(2) [of ?d]
    by (simp add: algebra_simps)
  finally show ?thesis using q o by simp
qed

section \<open>Generation and verification\<close>

lemma hotp_ok:
  assumes "1 \<le> digits" and "digits \<le> 10" and "secret \<noteq> []"
  shows "\<exists>code. hotp hmac secret counter digits = Inr code \<and> length code = unat digits \<and> list_all is_digit code \<and>
    dec_val code = unat (truncate (hmac secret (be64 counter))) mod 10 ^ unat digits"
proof -
  have d: "0 < unat digits" "unat digits \<le> 10" using assms by (auto simp: word_le_nat_alt)
  have "(10 :: nat) ^ unat digits \<le> 10 ^ 10" using d(2) by (intro power_increasing) simp_all
  then have m: "unat (10 ^ unat digits :: u64) = 10 ^ unat digits"
    using unsigned_of_nat [where 'b = 64 and 'a = nat, of "10 ^ unat digits"] by (simp add: take_bit_nat_eq_self)
  let ?v = "ucast (truncate (hmac secret (be64 counter))) mod 10 ^ unat digits :: u64"
  have v: "unat ?v = unat (truncate (hmac secret (be64 counter))) mod 10 ^ unat digits"
    using unat_less_power [of "truncate (hmac secret (be64 counter))"]
    by (simp add: unat_mod m unsigned_ucast_eq take_bit_nat_eq_self)
  have "unat ?v < 10 ^ unat digits" unfolding v by simp
  from zero_padded_val [OF this d(1)] show ?thesis
    using assms v by (simp add: hotp_def Let_def)
qed

lemma constant_time_eq_iff: "constant_time_eq a b \<longleftrightarrow> a = b"
  using ct_fold [of a b] by (auto simp: constant_time_eq_def)

text \<open>The validity that the constructors establish.\<close>

definition hotp_valid :: "Hotp \<Rightarrow> bool" where
  "hotp_valid h \<longleftrightarrow> 1 \<le> hotp_digits h \<and> hotp_digits h \<le> 10 \<and> hotp_secret h \<noteq> []"

lemma Hotp_new_valid: "Hotp_new secret digits = Inr h \<Longrightarrow> hotp_valid h"
  by (auto simp: Hotp_new_def hotp_valid_def split: if_splits)

lemma generate_ok:
  assumes "hotp_valid h"
  shows "\<exists>code. generate hmac h c = Inr code \<and> hotp hmac (hotp_secret h) c (hotp_digits h) = Inr code"
  using hotp_ok [of "hotp_digits h" "hotp_secret h" hmac c] assms by (auto simp: hotp_valid_def generate_def)

lemma look_ahead_spec:
  assumes "hotp_valid h" and "unat c + n < 2 ^ 64"
  shows "\<exists>r. look_ahead n hmac h code c = Inr r \<and>
    (case r of
       None \<Rightarrow> \<forall>k. unat c \<le> unat k \<and> unat k \<le> unat c + n \<longrightarrow> generate hmac h k \<noteq> Inr code
     | Some d \<Rightarrow> unat c \<le> unat d \<and> unat d \<le> unat c + n \<and> generate hmac h d = Inr code \<and>
         (\<forall>k. unat c \<le> unat k \<and> unat k < unat d \<longrightarrow> generate hmac h k \<noteq> Inr code))"
  using assms(2)
proof (induction n arbitrary: c)
  case 0
  obtain g where g: "generate hmac h c = Inr g" using generate_ok [OF assms(1)] by blast
  show ?case
  proof (cases "code = g")
    case True
    then show ?thesis using g by (auto simp: constant_time_eq_iff)
  next
    case False
    have "k = c" if "unat c \<le> unat k" "unat k \<le> unat c" for k :: u64 using that by (simp add: word_unat_eq_iff)
    then show ?thesis using g False by (auto simp: constant_time_eq_iff)
  qed
next
  case (Suc n)
  obtain g where g: "generate hmac h c = Inr g" using generate_ok [OF assms(1)] by blast
  have s: "unat (c + 1) = Suc (unat c)" using Suc.prems by (simp add: unat_word_ariths)
  then have split: "unat c \<le> unat k \<longleftrightarrow> k = c \<or> unat (c + 1) \<le> unat k" for k by (auto simp: word_unat_eq_iff)
  show ?case
  proof (cases "code = g")
    case True
    then show ?thesis using g by (auto simp: constant_time_eq_iff)
  next
    case False
    obtain r where r: "look_ahead n hmac h code (c + 1) = Inr r" and
      c: "case r of
       None \<Rightarrow> \<forall>k. unat (c + 1) \<le> unat k \<and> unat k \<le> unat (c + 1) + n \<longrightarrow> generate hmac h k \<noteq> Inr code
     | Some d \<Rightarrow> unat (c + 1) \<le> unat d \<and> unat d \<le> unat (c + 1) + n \<and> generate hmac h d = Inr code \<and>
         (\<forall>k. unat (c + 1) \<le> unat k \<and> unat k < unat d \<longrightarrow> generate hmac h k \<noteq> Inr code)"
      using Suc.IH [of "c + 1"] Suc.prems s by auto
    have "look_ahead (Suc n) hmac h code c = Inr r" using g False r by (simp add: constant_time_eq_iff)
    moreover have "generate hmac h c \<noteq> Inr code" using g False by simp
    ultimately show ?thesis using c s unfolding split by (cases r) auto
  qed
qed

text \<open>
  C34: For every secret and counter and every digit count from 1 to 10, \<open>hotp\<close> returns that many decimal digits, and
  their value is the truncated HMAC modulo the power of ten, where truncation reads four bytes of the 20-byte HMAC,
  big-endian and without the top bit, at the offset of its last four bits. HMAC-SHA-1 is assumed to return 20 bytes.
\<close>

theorem hotp_rfc4226:
  fixes counter :: u64
  assumes "\<forall>key msg. length (hmac key msg) = 20" and "1 \<le> digits" and "digits \<le> 10" and "secret \<noteq> []"
  defines "hs \<equiv> hmac secret (be64 counter)"
  shows "\<exists>code. hotp hmac secret counter digits = Inr code \<and> length code = unat digits \<and> list_all is_digit code \<and>
    dec_val code = be_val (take 4 (drop (unat (hs ! 19) mod 16) hs)) mod 2 ^ 31 mod 10 ^ unat digits"
  using hotp_ok [OF assms(2-4), of hmac counter] truncate_val [of hs] assms(1) by (simp add: hs_def)

theorem hotp_rfc4226_witness:
  "\<exists>code. hotp (\<lambda>_ _. [0x1f, 0x86, 0x98, 0x69, 0x0e, 0x02, 0xca, 0x16, 0x61, 0x85, 0x50, 0xef, 0x7f, 0x19, 0xda, 0x8e,
      0x94, 0x5b, 0x55, 0x5a]) [1] 0 6 = Inr code \<and> length code = 6 \<and> list_all is_digit code \<and> dec_val code = 872921"
  using hotp_rfc4226 [of "\<lambda>_ _. [0x1f, 0x86, 0x98, 0x69, 0x0e, 0x02, 0xca, 0x16, 0x61, 0x85, 0x50, 0xef, 0x7f, 0x19, 0xda, 0x8e,
      0x94, 0x5b, 0x55, 0x5a]" 6 "[1]" 0]
  by simp

text \<open>
  The verifier of a valid configuration always returns: it reports the first counter, from the given one to the end of
  the window or of the 64-bit counters, whose code is the given string, and nothing if there is none.
\<close>

theorem verify_finds_first:
  fixes counter window :: u64
  assumes "Hotp_new secret digits = Inr h"
  defines "lim \<equiv> min (unat counter + unat window) (2 ^ 64 - 1)"
  shows "\<exists>r. verify_with_counter hmac h code counter window = Inr r \<and>
    (case r of
       None \<Rightarrow> \<forall>k. unat counter \<le> unat k \<and> unat k \<le> lim \<longrightarrow> generate hmac h k \<noteq> Inr code
     | Some d \<Rightarrow> unat counter \<le> unat d \<and> unat d \<le> lim \<and> generate hmac h d = Inr code \<and>
         (\<forall>k. unat counter \<le> unat k \<and> unat k < unat d \<longrightarrow> generate hmac h k \<noteq> Inr code))"
proof -
  have c: "unat counter < 2 ^ 64" using unat_less_power [of counter] by simp
  have l: "unat (saturating_add counter window - counter) = lim - unat counter"
  proof (cases "unat counter + unat window < 2 ^ 64")
    case True
    then show ?thesis by (simp add: saturating_add_def lim_def)
  next
    case False
    have "unat (- 1 :: u64) = 2 ^ 64 - 1" by (simp add: unsigned_minus_1_eq_mask mask_eq_exp_minus_1)
    then have "unat (- 1 - counter) = 2 ^ 64 - 1 - unat counter" by (simp add: unat_sub)
    then show ?thesis using False by (simp add: saturating_add_def lim_def)
  qed
  have le: "unat counter \<le> lim" "lim < 2 ^ 64" using c by (simp_all add: lim_def)
  then have e: "unat counter + (lim - unat counter) = lim" by simp
  from look_ahead_spec [OF Hotp_new_valid [OF assms(1)], of counter "lim - unat counter" hmac code, unfolded e, OF le(2)]
  show ?thesis by (simp add: verify_with_counter_def l)
qed

theorem verify_finds_first_witness:
  "Hotp_new [1] 6 = Inr \<lparr>hotp_secret = [1], hotp_digits = 6\<rparr> \<and>
   (\<exists>r. verify_with_counter (\<lambda>_ _. replicate 20 0) \<lparr>hotp_secret = [1], hotp_digits = 6\<rparr> [0x30] 5 2 = Inr r)"
proof -
  have "Hotp_new [1] 6 = Inr \<lparr>hotp_secret = [1], hotp_digits = 6\<rparr>"
    by (simp add: Hotp_new_def)
  then show ?thesis using verify_finds_first [of "[1]" 6 "\<lparr>hotp_secret = [1], hotp_digits = 6\<rparr>" "\<lambda>_ _. replicate 20 0" "[0x30]" 5 2]
    by auto
qed

end
