(* ===== verification/Dhcp_Message.thy ===== *)
theory Dhcp_Message
  imports Prelude
begin

unbundle bit_operations_syntax

text \<open>
  DHCP messages and options of \<^verbatim>\<open>tpt-dhcp\<close> (\<^verbatim>\<open>message.rs\<close>, \<^verbatim>\<open>options.rs\<close>) with their codec. IPv4 addresses are
  32-bit words, strings are their UTF-8 bytes. Main result: a well-formed message is decoded from its
  encoding, with the two fixed-size name fields filled up with zeros.
\<close>

type_synonym ipv4 = u32

section \<open>Options\<close>

datatype MessageType = Discover | Offer | Request | Decline | Ack | Nak | Release | Inform

fun MessageType_to_u8 :: "MessageType \<Rightarrow> u8" where
  "MessageType_to_u8 Discover = 1"
| "MessageType_to_u8 Offer = 2"
| "MessageType_to_u8 Request = 3"
| "MessageType_to_u8 Decline = 4"
| "MessageType_to_u8 Ack = 5"
| "MessageType_to_u8 Nak = 6"
| "MessageType_to_u8 Release = 7"
| "MessageType_to_u8 Inform = 8"

definition MessageType_from_u8 :: "u8 \<Rightarrow> MessageType option" where
  "MessageType_from_u8 v =
     (if v = 1 then Some Discover else if v = 2 then Some Offer else if v = 3 then Some Request
      else if v = 4 then Some Decline else if v = 5 then Some Ack else if v = 6 then Some Nak
      else if v = 7 then Some Release else if v = 8 then Some Inform else None)"

datatype DhcpOption =
    SubnetMask ipv4
  | TimeOffset u32
  | Router "ipv4 list"
  | DomainNameServer "ipv4 list"
  | HostName bytes
  | DomainName bytes
  | BroadcastAddress ipv4
  | RequestedIpAddress ipv4
  | LeaseTime u32
  | MessageTypeOpt MessageType
  | ServerIdentifier ipv4
  | ParameterRequestList bytes
  | Message bytes
  | RenewalTime u32
  | RebindingTime u32
  | VendorClassIdentifier bytes
  | ClientIdentifier bytes
  | Other u8 bytes

fun option_code :: "DhcpOption \<Rightarrow> u8" where
  "option_code (SubnetMask _) = 1"
| "option_code (TimeOffset _) = 2"
| "option_code (Router _) = 3"
| "option_code (DomainNameServer _) = 6"
| "option_code (HostName _) = 12"
| "option_code (DomainName _) = 15"
| "option_code (BroadcastAddress _) = 28"
| "option_code (RequestedIpAddress _) = 50"
| "option_code (LeaseTime _) = 51"
| "option_code (MessageTypeOpt _) = 53"
| "option_code (ServerIdentifier _) = 54"
| "option_code (ParameterRequestList _) = 55"
| "option_code (Message _) = 56"
| "option_code (RenewalTime _) = 58"
| "option_code (RebindingTime _) = 59"
| "option_code (VendorClassIdentifier _) = 60"
| "option_code (ClientIdentifier _) = 61"
| "option_code (Other c _) = c"

definition opt_bytes :: "u8 \<Rightarrow> bytes \<Rightarrow> bytes" where
  "opt_bytes code v = code # word_of_nat (length v) # v"

definition opt_ipv4_list :: "u8 \<Rightarrow> ipv4 list \<Rightarrow> bytes" where
  "opt_ipv4_list code addrs = opt_bytes code (concat (map be32 addrs))"

fun DhcpOption_encode :: "DhcpOption \<Rightarrow> bytes" where
  "DhcpOption_encode (MessageTypeOpt t) = [53, 1, MessageType_to_u8 t]"
| "DhcpOption_encode (SubnetMask ip) = opt_bytes 1 (be32 ip)"
| "DhcpOption_encode (TimeOffset secs) = opt_bytes 2 (be32 secs)"
| "DhcpOption_encode (Router addrs) = opt_ipv4_list 3 addrs"
| "DhcpOption_encode (DomainNameServer addrs) = opt_ipv4_list 6 addrs"
| "DhcpOption_encode (HostName s) = opt_bytes 12 s"
| "DhcpOption_encode (DomainName s) = opt_bytes 15 s"
| "DhcpOption_encode (BroadcastAddress ip) = opt_bytes 28 (be32 ip)"
| "DhcpOption_encode (RequestedIpAddress ip) = opt_bytes 50 (be32 ip)"
| "DhcpOption_encode (LeaseTime secs) = opt_bytes 51 (be32 secs)"
| "DhcpOption_encode (ServerIdentifier ip) = opt_bytes 54 (be32 ip)"
| "DhcpOption_encode (ParameterRequestList codes) = opt_bytes 55 codes"
| "DhcpOption_encode (Message s) = opt_bytes 56 s"
| "DhcpOption_encode (RenewalTime secs) = opt_bytes 58 (be32 secs)"
| "DhcpOption_encode (RebindingTime secs) = opt_bytes 59 (be32 secs)"
| "DhcpOption_encode (VendorClassIdentifier b) = opt_bytes 60 b"
| "DhcpOption_encode (ClientIdentifier b) = opt_bytes 61 b"
| "DhcpOption_encode (Other c b) = opt_bytes c b"

text \<open>
  \<open>String::from_utf8_lossy\<close>: the longest prefix of a possible character at the head of the bytes, and whether it
  is a character; a prefix that is not one is replaced by U+FFFD.
\<close>

definition cont_byte :: "u8 \<Rightarrow> bool" where
  "cont_byte b \<longleftrightarrow> 0x80 \<le> b \<and> b \<le> 0xBF"

definition second_byte :: "u8 \<Rightarrow> u8 \<Rightarrow> bool" where
  "second_byte a b =
     (if a = 0xE0 then 0xA0 \<le> b \<and> b \<le> 0xBF
      else if a = 0xED then 0x80 \<le> b \<and> b \<le> 0x9F
      else if a = 0xF0 then 0x90 \<le> b \<and> b \<le> 0xBF
      else if a = 0xF4 then 0x80 \<le> b \<and> b \<le> 0x8F
      else cont_byte b)"

fun prefix_len :: "(u8 \<Rightarrow> bool) list \<Rightarrow> bytes \<Rightarrow> nat \<times> bool" where
  "prefix_len [] bs = (0, True)"
| "prefix_len (p # ps) [] = (0, False)"
| "prefix_len (p # ps) (b # bs) = (if p b then (let (n, ok) = prefix_len ps bs in (Suc n, ok)) else (0, False))"

definition utf8_chunk :: "u8 \<Rightarrow> bytes \<Rightarrow> nat \<times> bool" where
  "utf8_chunk a bs =
     (if a \<le> 0x7F then (0, True)
      else if 0xC2 \<le> a \<and> a \<le> 0xDF then prefix_len [cont_byte] bs
      else if 0xE0 \<le> a \<and> a \<le> 0xEF then prefix_len [second_byte a, cont_byte] bs
      else if 0xF0 \<le> a \<and> a \<le> 0xF4 then prefix_len [second_byte a, cont_byte, cont_byte] bs
      else (0, False))"

fun from_utf8_lossy :: "bytes \<Rightarrow> bytes" where
  "from_utf8_lossy [] = []"
| "from_utf8_lossy (a # bs) =
     (let (n, ok) = utf8_chunk a bs
      in (if ok then a # take n bs else [0xEF, 0xBF, 0xBD]) @ from_utf8_lossy (drop n bs))"

text \<open>The closures \<^verbatim>\<open>ip\<close> and \<^verbatim>\<open>ip_list\<close> of the decoder.\<close>

definition opt_ip :: "u8 \<Rightarrow> (ipv4 \<Rightarrow> DhcpOption) \<Rightarrow> bytes \<Rightarrow> DhcpOption" where
  "opt_ip code f data = (if length data \<ge> 4 then f (from_be (take 4 data)) else Other code data)"

fun ip_list :: "bytes \<Rightarrow> ipv4 list" where
  "ip_list (a # b # c # d # bs) = from_be [a, b, c, d] # ip_list bs"
| "ip_list _ = []"

definition opt_u32 :: "u8 \<Rightarrow> (u32 \<Rightarrow> DhcpOption) \<Rightarrow> bytes \<Rightarrow> DhcpOption" where
  "opt_u32 code f data = (if length data = 4 then f (from_be data) else Other code data)"

definition DhcpOption_decode :: "u8 \<Rightarrow> bytes \<Rightarrow> DhcpOption" where
  "DhcpOption_decode code data =
     (if code = 1 then opt_ip code SubnetMask data
      else if code = 2 then opt_u32 code TimeOffset data
      else if code = 3 then Router (ip_list data)
      else if code = 6 then DomainNameServer (ip_list data)
      else if code = 12 then HostName (from_utf8_lossy data)
      else if code = 15 then DomainName (from_utf8_lossy data)
      else if code = 28 then opt_ip code BroadcastAddress data
      else if code = 50 then opt_ip code RequestedIpAddress data
      else if code = 51 then opt_u32 code LeaseTime data
      else if code = 53 then
        (case data of
           [b] \<Rightarrow> (case MessageType_from_u8 b of Some t \<Rightarrow> MessageTypeOpt t | None \<Rightarrow> Other code data)
         | _ \<Rightarrow> Other code data)
      else if code = 54 then opt_ip code ServerIdentifier data
      else if code = 55 then ParameterRequestList data
      else if code = 56 then Message (from_utf8_lossy data)
      else if code = 58 then opt_u32 code RenewalTime data
      else if code = 59 then opt_u32 code RebindingTime data
      else if code = 60 then VendorClassIdentifier data
      else if code = 61 then ClientIdentifier data
      else Other code data)"

section \<open>Messages\<close>

datatype MessageOp = BootRequest | BootReply

fun MessageOp_to_u8 :: "MessageOp \<Rightarrow> u8" where
  "MessageOp_to_u8 BootRequest = 1"
| "MessageOp_to_u8 BootReply = 2"

definition MessageOp_from_u8 :: "u8 \<Rightarrow> MessageOp option" where
  "MessageOp_from_u8 v = (if v = 1 then Some BootRequest else if v = 2 then Some BootReply else None)"

record DhcpMessage =
  m_op :: MessageOp
  m_htype :: u8
  m_hlen :: u8
  m_hops :: u8
  m_xid :: u32
  m_secs :: u16
  m_flags :: u16
  m_ciaddr :: ipv4
  m_yiaddr :: ipv4
  m_siaddr :: ipv4
  m_giaddr :: ipv4
  m_chaddr :: bytes
  m_sname :: bytes
  m_file :: bytes
  m_options :: "DhcpOption list"

definition DhcpMessage_new :: DhcpMessage where
  "DhcpMessage_new = \<lparr>m_op = BootRequest, m_htype = 1, m_hlen = 0, m_hops = 0, m_xid = 0, m_secs = 0, m_flags = 0,
     m_ciaddr = 0, m_yiaddr = 0, m_siaddr = 0, m_giaddr = 0, m_chaddr = replicate 16 0, m_sname = [], m_file = [],
     m_options = []\<rparr>"

definition set_chaddr :: "bytes \<Rightarrow> DhcpMessage \<Rightarrow> DhcpMessage" where
  "set_chaddr mac m =
     (let len = min (length mac) 16
      in m\<lparr>m_chaddr := take len mac @ replicate (16 - len) 0, m_hlen := word_of_nat len\<rparr>)"

definition msg_mac :: "DhcpMessage \<Rightarrow> bytes" where
  "msg_mac m = take (min (unat (m_hlen m)) (length (m_chaddr m))) (m_chaddr m)"

definition find_option :: "u8 \<Rightarrow> DhcpMessage \<Rightarrow> DhcpOption option" where
  "find_option code m = find (\<lambda>opt. option_code opt = code) (m_options m)"

definition set_option :: "DhcpOption \<Rightarrow> DhcpMessage \<Rightarrow> DhcpMessage" where
  "set_option opt m = m\<lparr>m_options := filter (\<lambda>old. option_code old \<noteq> option_code opt) (m_options m) @ [opt]\<rparr>"

definition message_type :: "DhcpMessage \<Rightarrow> MessageType option" where
  "message_type m = (case find_option 53 m of Some (MessageTypeOpt t) \<Rightarrow> Some t | _ \<Rightarrow> None)"

definition server_identifier :: "DhcpMessage \<Rightarrow> ipv4 option" where
  "server_identifier m = (case find_option 54 m of Some (ServerIdentifier ip) \<Rightarrow> Some ip | _ \<Rightarrow> None)"

definition requested_ip :: "DhcpMessage \<Rightarrow> ipv4 option" where
  "requested_ip m = (case find_option 50 m of Some (RequestedIpAddress ip) \<Rightarrow> Some ip | _ \<Rightarrow> None)"

definition client_identifier :: "DhcpMessage \<Rightarrow> bytes option" where
  "client_identifier m = (case find_option 61 m of Some (ClientIdentifier b) \<Rightarrow> Some b | _ \<Rightarrow> None)"

definition lease_time :: "DhcpMessage \<Rightarrow> u32 option" where
  "lease_time m = (case find_option 51 m of Some (LeaseTime v) \<Rightarrow> Some v | _ \<Rightarrow> None)"

definition padded :: "bytes \<Rightarrow> nat \<Rightarrow> bytes" where
  "padded field n = take n field @ replicate (n - length field) 0"

abbreviation DHCP_MAGIC :: bytes where
  "DHCP_MAGIC \<equiv> [99, 130, 83, 99]"

definition DhcpMessage_to_bytes :: "DhcpMessage \<Rightarrow> bytes" where
  "DhcpMessage_to_bytes m =
     [MessageOp_to_u8 (m_op m), m_htype m, m_hlen m, m_hops m] @ be32 (m_xid m) @ be16 (m_secs m) @ be16 (m_flags m)
     @ be32 (m_ciaddr m) @ be32 (m_yiaddr m) @ be32 (m_siaddr m) @ be32 (m_giaddr m) @ m_chaddr m
     @ padded (m_sname m) 64 @ padded (m_file m) 128 @ DHCP_MAGIC
     @ concat (map DhcpOption_encode (m_options m)) @ [255]"

datatype DhcpDecodeError = TruncatedHeader nat nat | BadMagicCookie | TruncatedOption nat nat | UnknownOp u8

text \<open>The loop over the options, on the bytes that are left.\<close>

function decode_options :: "bytes \<Rightarrow> DhcpDecodeError + DhcpOption list" where
  "decode_options bs =
     (case bs of
        [] \<Rightarrow> Inr []
      | c # bs \<Rightarrow>
          if c = 0 then decode_options bs
          else if c = 255 then Inr []
          else case bs of
              [] \<Rightarrow> Inl (TruncatedOption 0 0)
            | l # bs \<Rightarrow>
                let len = unat l in
                if length bs < len then Inl (TruncatedOption len (length bs))
                else map_sum id (\<lambda>opts. DhcpOption_decode c (take len bs) # opts) (decode_options (drop len bs)))"
  by pat_completeness auto
termination by (relation "measure length") auto

definition slice :: "nat \<Rightarrow> nat \<Rightarrow> bytes \<Rightarrow> bytes" where
  "slice i j bs = take (j - i) (drop i bs)"

definition DhcpMessage_from_bytes :: "bytes \<Rightarrow> DhcpDecodeError + DhcpMessage" where
  "DhcpMessage_from_bytes bs =
     (if length bs < 236 then Inl (TruncatedHeader 236 (length bs))
      else case MessageOp_from_u8 (bs ! 0) of
        None \<Rightarrow> Inl (UnknownOp (bs ! 0))
      | Some op' \<Rightarrow>
          let msg = \<lparr>m_op = op', m_htype = bs ! 1, m_hlen = bs ! 2, m_hops = bs ! 3,
                m_xid = from_be (slice 4 8 bs), m_secs = from_be (slice 8 10 bs), m_flags = from_be (slice 10 12 bs),
                m_ciaddr = from_be (slice 12 16 bs), m_yiaddr = from_be (slice 16 20 bs),
                m_siaddr = from_be (slice 20 24 bs), m_giaddr = from_be (slice 24 28 bs),
                m_chaddr = slice 28 44 bs, m_sname = slice 44 108 bs, m_file = slice 108 236 bs, m_options = []\<rparr>
          in if length bs < 240 \<or> slice 236 240 bs \<noteq> DHCP_MAGIC then Inl BadMagicCookie
             else map_sum id (\<lambda>opts. msg\<lparr>m_options := opts\<rparr>) (decode_options (drop 240 bs)))"

declare decode_options.simps [simp del]

section \<open>Round trip\<close>

lemma ip_list_be: "ip_list (concat (map be32 addrs)) = addrs"
proof (induction addrs)
  case (Cons a addrs)
  have "length (be32 a) = Suc (Suc (Suc (Suc 0)))" by simp
  then obtain x y z w where b: "be32 a = [x, y, z, w]" by (auto simp: length_Suc_conv simp del: length_be)
  then have "from_be [x, y, z, w] = a" using from_be_be(2) [of a] by simp
  then show ?case using Cons b by simp
qed simp

text \<open>The bytes an option is decoded from, and when this gives the option back.\<close>

fun option_wf :: "DhcpOption \<Rightarrow> bool" where
  "option_wf (Router addrs) \<longleftrightarrow> length addrs \<le> 63"
| "option_wf (DomainNameServer addrs) \<longleftrightarrow> length addrs \<le> 63"
| "option_wf (HostName s) \<longleftrightarrow> length s \<le> 255 \<and> from_utf8_lossy s = s"
| "option_wf (DomainName s) \<longleftrightarrow> length s \<le> 255 \<and> from_utf8_lossy s = s"
| "option_wf (Message s) \<longleftrightarrow> length s \<le> 255 \<and> from_utf8_lossy s = s"
| "option_wf (ParameterRequestList b) \<longleftrightarrow> length b \<le> 255"
| "option_wf (VendorClassIdentifier b) \<longleftrightarrow> length b \<le> 255"
| "option_wf (ClientIdentifier b) \<longleftrightarrow> length b \<le> 255"
| "option_wf (Other c b) \<longleftrightarrow> length b \<le> 255 \<and> c \<notin> {0, 255} \<and> DhcpOption_decode c b = Other c b"
| "option_wf _ \<longleftrightarrow> True"

lemma length_be32_list [simp]: "length (concat (map be32 addrs)) = 4 * length addrs"
  by (induction addrs) simp_all

lemma MessageType_round [simp]: "MessageType_from_u8 (MessageType_to_u8 t) = Some t"
  by (cases t) (simp_all add: MessageType_from_u8_def)

lemma option_tlv:
  assumes "option_wf opt"
  shows "\<exists>v. DhcpOption_encode opt = opt_bytes (option_code opt) v \<and> length v \<le> 255 \<and> DhcpOption_decode (option_code opt) v = opt \<and>
    option_code opt \<noteq> 0 \<and> option_code opt \<noteq> 255"
  using assms by (cases opt) (auto simp: DhcpOption_decode_def opt_ip_def opt_u32_def opt_ipv4_list_def ip_list_be opt_bytes_def)

lemma decode_options_tlv:
  assumes "length v \<le> 255" and "c \<noteq> 0" and "c \<noteq> 255"
  shows "decode_options (opt_bytes c v @ rest) = map_sum id (\<lambda>opts. DhcpOption_decode c v # opts) (decode_options rest)"
proof -
  have "unat (word_of_nat (length v) :: u8) = length v" using assms(1) by (intro unat_of_nat_small) simp
  then show ?thesis using assms by (subst decode_options.simps) (simp add: opt_bytes_def)
qed

lemma decode_options_encode:
  "list_all option_wf opts \<Longrightarrow> decode_options (concat (map DhcpOption_encode opts) @ [255]) = Inr opts"
proof (induction opts)
  case Nil
  then show ?case by (subst decode_options.simps) simp
next
  case (Cons opt opts)
  obtain v where "DhcpOption_encode opt = opt_bytes (option_code opt) v" "length v \<le> 255"
      "DhcpOption_decode (option_code opt) v = opt" "option_code opt \<noteq> 0" "option_code opt \<noteq> 255"
    using option_tlv [of opt] Cons.prems by auto
  then show ?case using Cons by (simp add: decode_options_tlv)
qed

definition message_wf :: "DhcpMessage \<Rightarrow> bool" where
  "message_wf m \<longleftrightarrow> length (m_chaddr m) = 16 \<and> list_all option_wf (m_options m)"

lemma length_padded [simp]: "length (padded f n) = n"
  by (simp add: padded_def)

lemma MessageOp_round [simp]: "MessageOp_from_u8 (MessageOp_to_u8 x) = Some x"
  by (cases x) (simp_all add: MessageOp_from_u8_def)

lemma message_round_trip:
  assumes "message_wf m"
  shows "DhcpMessage_from_bytes (DhcpMessage_to_bytes m) = Inr (m\<lparr>m_sname := padded (m_sname m) 64, m_file := padded (m_file m) 128\<rparr>)"
proof -
  have len: "length (m_chaddr m) = 16" and wf: "list_all option_wf (m_options m)" using assms by (simp_all add: message_wf_def)
  define opts where "opts = concat (map DhcpOption_encode (m_options m)) @ [255]"
  have b: "DhcpMessage_to_bytes m = MessageOp_to_u8 (m_op m) # m_htype m # m_hlen m # m_hops m # be32 (m_xid m) @ be16 (m_secs m)
      @ be16 (m_flags m) @ be32 (m_ciaddr m) @ be32 (m_yiaddr m) @ be32 (m_siaddr m) @ be32 (m_giaddr m) @ m_chaddr m
      @ padded (m_sname m) 64 @ padded (m_file m) 128 @ DHCP_MAGIC @ opts"
    by (simp add: DhcpMessage_to_bytes_def opts_def)
  have magic: "length DHCP_MAGIC = 4" by simp
  have "decode_options opts = Inr (m_options m)" unfolding opts_def by (rule decode_options_encode [OF wf])
  then show ?thesis unfolding DhcpMessage_from_bytes_def b
    by (simp add: slice_def len magic take_append drop_append)
qed

text \<open>
  C22: A DHCP message with a 16-byte hardware address field and well-formed options (values of at most 255 bytes, lists
  of at most 63 addresses, valid UTF-8, other options with codes that are not read differently) is decoded from
  its encoding; the two name fields come back at their fixed sizes, cut or filled with zeros.
\<close>

theorem dhcp_message_round_trip:
  assumes "message_wf m"
  shows "DhcpMessage_from_bytes (DhcpMessage_to_bytes m) = Inr (m\<lparr>m_sname := padded (m_sname m) 64, m_file := padded (m_file m) 128\<rparr>)"
  by (rule message_round_trip [OF assms])

theorem dhcp_message_round_trip_witness:
  "DhcpMessage_from_bytes (DhcpMessage_to_bytes (DhcpMessage_new\<lparr>m_xid := 7, m_options := [MessageTypeOpt Discover, HostName [0x61], Other 200 [1, 2]]\<rparr>)) =
   Inr (DhcpMessage_new\<lparr>m_xid := 7, m_sname := replicate 64 0, m_file := replicate 128 0,
     m_options := [MessageTypeOpt Discover, HostName [0x61], Other 200 [1, 2]]\<rparr>)"
  using dhcp_message_round_trip [of "DhcpMessage_new\<lparr>m_xid := 7, m_options := [MessageTypeOpt Discover, HostName [0x61], Other 200 [1, 2]]\<rparr>"]
  by (simp add: message_wf_def DhcpMessage_new_def DhcpOption_decode_def utf8_chunk_def padded_def)

end
