(* ===== verification/Dhcp_Lease.thy ===== *)
theory Dhcp_Lease
  imports Complex_Main Dhcp_Message
begin

text \<open>
  The lease store of \<^verbatim>\<open>tpt-dhcp\<close> (\<^verbatim>\<open>lease.rs\<close>, \<^verbatim>\<open>memory.rs\<close>). Hash maps are finite maps. \<open>Duration::mul_f64\<close>, by which the
  renewal times are computed in floating point, is the argument \<open>mul_f64\<close>. The section on the interface
  \<open>lease_store\<close> says what the trait promises its server, and the store interprets it.
\<close>

record Lease =
  l_ip :: ipv4
  l_client_id :: bytes
  l_mac :: bytes
  l_duration :: nat
  l_t1 :: nat
  l_t2 :: nat
  l_expires_at :: nat

definition lease_is_expired :: "Lease \<Rightarrow> nat \<Rightarrow> bool" where
  "lease_is_expired l now \<longleftrightarrow> l_expires_at l \<le> now"

datatype LeaseError =
    PoolExhausted
  | OutOfPool ipv4
  | Declined ipv4
  | NoLease ipv4
  | ClientMismatch ipv4
  | AddressInUse ipv4
  | LeaseOther bytes

record AcquireRequest =
  a_client_id :: bytes
  a_mac :: bytes
  a_requested_ip :: ipv4
  a_now :: nat

record PoolConfig =
  server_ip :: ipv4
  subnet_mask :: ipv4
  pool_start :: ipv4
  pool_end :: ipv4
  lease_duration :: nat
  routers :: "ipv4 list"
  domain_name_servers :: "ipv4 list"
  domain_name :: "bytes option"

record MemoryLeaseStore =
  st_config :: PoolConfig
  leases :: "ipv4 \<rightharpoonup> Lease"
  declined :: "ipv4 \<rightharpoonup> nat"

definition MemoryLeaseStore_new :: "PoolConfig \<Rightarrow> MemoryLeaseStore" where
  "MemoryLeaseStore_new config = \<lparr>st_config = config, leases = (\<lambda>_. None), declined = (\<lambda>_. None)\<rparr>"

definition in_pool :: "MemoryLeaseStore \<Rightarrow> ipv4 \<Rightarrow> bool" where
  "in_pool st ip \<longleftrightarrow> pool_start (st_config st) \<le> ip \<and> ip \<le> pool_end (st_config st)"

definition is_declined :: "MemoryLeaseStore \<Rightarrow> ipv4 \<Rightarrow> nat \<Rightarrow> bool" where
  "is_declined st ip now =
     (case declined st ip of
        Some expiry \<Rightarrow> expiry > now
      | None \<Rightarrow> False)"

definition prune :: "nat \<Rightarrow> MemoryLeaseStore \<Rightarrow> MemoryLeaseStore" where
  "prune now st = st\<lparr>
     leases := (\<lambda>ip. case leases st ip of Some l \<Rightarrow> if lease_is_expired l now then None else Some l | None \<Rightarrow> None),
     declined := (\<lambda>ip. case declined st ip of Some expiry \<Rightarrow> if expiry > now then Some expiry else None | None \<Rightarrow> None)\<rparr>"

definition make_lease :: "(nat \<Rightarrow> real \<Rightarrow> nat) \<Rightarrow> MemoryLeaseStore \<Rightarrow> ipv4 \<Rightarrow> bytes \<Rightarrow> bytes \<Rightarrow> nat \<Rightarrow> Lease" where
  "make_lease mul_f64 st ip client_id mac now =
     (let dur = lease_duration (st_config st)
      in \<lparr>l_ip = ip, l_client_id = client_id, l_mac = mac, l_duration = dur,
          l_t1 = mul_f64 dur 0.5, l_t2 = mul_f64 dur 0.875, l_expires_at = now + dur\<rparr>)"

text \<open>The test \<^verbatim>\<open>free\<close> of both searches: not leased and not declined, or leased to this client already.\<close>

definition available :: "MemoryLeaseStore \<Rightarrow> bytes \<Rightarrow> nat \<Rightarrow> ipv4 \<Rightarrow> bool" where
  "available st client_id now ip =
     (case leases st ip of
        None \<Rightarrow> \<not> is_declined st ip now
      | Some l \<Rightarrow> l_client_id l = client_id)"

text \<open>The loop over \<^verbatim>\<open>s..=e\<close>; the first argument is the number of addresses left.\<close>

primrec scan_pool :: "nat \<Rightarrow> MemoryLeaseStore \<Rightarrow> bytes \<Rightarrow> nat \<Rightarrow> ipv4 \<Rightarrow> ipv4 option" where
  "scan_pool 0 st client_id now ip = None"
| "scan_pool (Suc k) st client_id now ip =
     (if available st client_id now ip then Some ip else scan_pool k st client_id now (ip + 1))"

definition acquire ::
    "(nat \<Rightarrow> real \<Rightarrow> nat) \<Rightarrow> AcquireRequest \<Rightarrow> MemoryLeaseStore \<Rightarrow> (LeaseError + Lease) \<times> MemoryLeaseStore" where
  "acquire mul_f64 req st =
     (let now = a_now req;
          st = prune now st;
          chosen = (if a_requested_ip req \<noteq> 0 \<and> in_pool st (a_requested_ip req) \<and>
                       available st (a_client_id req) now (a_requested_ip req)
                    then Some (a_requested_ip req) else None);
          chosen = (if chosen = None
                    then scan_pool (Suc (unat (pool_end (st_config st))) - unat (pool_start (st_config st)))
                           st (a_client_id req) now (pool_start (st_config st))
                    else chosen)
      in case chosen of
           None \<Rightarrow> (Inl PoolExhausted, st)
         | Some ip \<Rightarrow>
             (let lease = make_lease mul_f64 st ip (a_client_id req) (a_mac req) now
              in (Inr lease, st\<lparr>leases := (leases st)(ip \<mapsto> lease)\<rparr>)))"

definition confirm ::
    "(nat \<Rightarrow> real \<Rightarrow> nat) \<Rightarrow> ipv4 \<Rightarrow> bytes \<Rightarrow> nat \<Rightarrow> MemoryLeaseStore \<Rightarrow> (LeaseError + Lease) \<times> MemoryLeaseStore" where
  "confirm mul_f64 ip client_id now st =
     (case leases st ip of
        None \<Rightarrow> (Inl (NoLease ip), st)
      | Some lease \<Rightarrow>
          if l_client_id lease \<noteq> client_id then (Inl (ClientMismatch ip), st)
          else
            let renewed = make_lease mul_f64 st ip client_id (l_mac lease) now
            in (Inr renewed, st\<lparr>leases := (leases st)(ip \<mapsto> renewed)\<rparr>))"

definition release :: "ipv4 \<Rightarrow> MemoryLeaseStore \<Rightarrow> (LeaseError + unit) \<times> MemoryLeaseStore" where
  "release ip st = (Inr (), st\<lparr>leases := (leases st)(ip := None)\<rparr>)"

definition decline :: "nat \<Rightarrow> ipv4 \<Rightarrow> MemoryLeaseStore \<Rightarrow> (LeaseError + unit) \<times> MemoryLeaseStore" where
  "decline now ip st =
     (let st = st\<lparr>leases := (leases st)(ip := None)\<rparr>;
          probation = now + lease_duration (st_config st)
      in (Inr (), st\<lparr>declined := (declined st)(ip \<mapsto> probation)\<rparr>))"

section \<open>The interface of a lease store\<close>

text \<open>The trait \<^verbatim>\<open>LeaseStore\<close> as a record of its operations, and the implementation for the memory store.\<close>

record 's LeaseStore =
  ls_acquire :: "AcquireRequest \<Rightarrow> 's \<Rightarrow> (LeaseError + Lease) \<times> 's"
  ls_confirm :: "ipv4 \<Rightarrow> bytes \<Rightarrow> nat \<Rightarrow> 's \<Rightarrow> (LeaseError + Lease) \<times> 's"
  ls_release :: "ipv4 \<Rightarrow> 's \<Rightarrow> (LeaseError + unit) \<times> 's"
  ls_decline :: "nat \<Rightarrow> ipv4 \<Rightarrow> 's \<Rightarrow> (LeaseError + unit) \<times> 's"

definition memory_store :: "(nat \<Rightarrow> real \<Rightarrow> nat) \<Rightarrow> MemoryLeaseStore LeaseStore" where
  "memory_store mul_f64 =
     \<lparr>ls_acquire = acquire mul_f64, ls_confirm = confirm mul_f64, ls_release = release, ls_decline = decline\<rparr>"

text \<open>
  What a server may rely on. \<open>held\<close> gives the client of an address and the end of its lease, \<open>ok t\<close> is the invariant of a
  store that was last used at time \<open>t\<close>. An operation for a client keeps every lease that has not expired, except
  that it may prolong it; a lease that is returned is that client's for the whole duration, on an address of the pool.
\<close>

definition keeps :: "('s \<Rightarrow> ipv4 \<Rightarrow> (bytes \<times> nat) option) \<Rightarrow> nat \<Rightarrow> 's \<Rightarrow> 's \<Rightarrow> ipv4 \<Rightarrow> bool" where
  "keeps held t st st' ip \<longleftrightarrow> (\<forall>c e. held st ip = Some (c, e) \<and> t < e \<longrightarrow> (\<exists>e'\<ge>e. held st' ip = Some (c, e')))"

locale lease_store =
  fixes S :: "('s, 'z) LeaseStore_scheme" and held :: "'s \<Rightarrow> ipv4 \<Rightarrow> (bytes \<times> nat) option"
    and ok :: "nat \<Rightarrow> 's \<Rightarrow> bool" and pool :: "ipv4 \<Rightarrow> bool" and dur :: nat
  assumes ok_later: "ok t st \<Longrightarrow> t \<le> t' \<Longrightarrow> ok t' st"
    and acquire_law: "ok (a_now req) st \<Longrightarrow> ls_acquire S req st = (r, st') \<Longrightarrow>
      ok (a_now req) st' \<and> keeps held (a_now req) st st' ip \<and>
      (r = Inr l \<longrightarrow> pool (l_ip l) \<and> held st' (l_ip l) = Some (a_client_id req, a_now req + dur))"
    and confirm_law: "ok t st \<Longrightarrow> ls_confirm S a c t st = (r, st') \<Longrightarrow>
      ok t st' \<and> keeps held t st st' ip \<and> (r = Inr l \<longrightarrow> l_ip l = a \<and> pool a \<and> held st' a = Some (c, t + dur))"
    and release_law: "ok t st \<Longrightarrow> ls_release S a st = (u, st') \<Longrightarrow> ok t st' \<and> (ip \<noteq> a \<longrightarrow> held st' ip = held st ip)"
    and decline_law: "ok t st \<Longrightarrow> ls_decline S t a st = (u, st') \<Longrightarrow> ok t st' \<and> (ip \<noteq> a \<longrightarrow> held st' ip = held st ip)"

section \<open>The memory store provides it\<close>

definition mem_held :: "MemoryLeaseStore \<Rightarrow> ipv4 \<Rightarrow> (bytes \<times> nat) option" where
  "mem_held st ip = map_option (\<lambda>l. (l_client_id l, l_expires_at l)) (leases st ip)"

definition mem_ok :: "PoolConfig \<Rightarrow> nat \<Rightarrow> MemoryLeaseStore \<Rightarrow> bool" where
  "mem_ok c t st \<longleftrightarrow> st_config st = c \<and>
     (\<forall>ip l. leases st ip = Some l \<longrightarrow> pool_start c \<le> ip \<and> ip \<le> pool_end c \<and> l_expires_at l \<le> t + lease_duration c)"

abbreviation pool_of :: "PoolConfig \<Rightarrow> ipv4 \<Rightarrow> bool" where
  "pool_of c ip \<equiv> pool_start c \<le> ip \<and> ip \<le> pool_end c"

lemma prune_leases:
  "leases (prune t st) ip = Some l \<longleftrightarrow> leases st ip = Some l \<and> t < l_expires_at l"
  by (auto simp: prune_def lease_is_expired_def split: option.splits if_splits)

lemma prune_config [simp]: "st_config (prune t st) = st_config st"
  by (simp add: prune_def)

lemma scan_pool_found:
  "scan_pool k st c t ip = Some a \<Longrightarrow> unat ip + k \<le> 2 ^ 32 \<Longrightarrow> available st c t a \<and> ip \<le> a \<and> unat a < unat ip + k"
proof (induction k arbitrary: ip)
  case (Suc k)
  show ?case
  proof (cases "available st c t ip")
    case True
    then show ?thesis using Suc.prems by simp
  next
    case False
    have "k \<noteq> 0" using Suc.prems(1) False by (cases k) simp_all
    then have n: "unat (ip + 1) = Suc (unat ip)" using Suc.prems(2) by (simp add: unat_word_ariths)
    then show ?thesis using Suc.IH [of "ip + 1"] Suc.prems False by (simp add: word_le_nat_alt)
  qed
qed simp

lemma available_free:
  "available st c t ip \<Longrightarrow> leases st ip = Some l \<Longrightarrow> l_client_id l = c"
  by (simp add: available_def)

lemma acquire_chosen:
  assumes "acquire mul_f64 req st = (Inr l, st')"
  defines "st1 \<equiv> prune (a_now req) st"
  shows "available st1 (a_client_id req) (a_now req) (l_ip l) \<and> pool_of (st_config st) (l_ip l) \<and>
    l = make_lease mul_f64 st1 (l_ip l) (a_client_id req) (a_mac req) (a_now req) \<and>
    st' = st1\<lparr>leases := (leases st1)(l_ip l \<mapsto> l)\<rparr>"
proof -
  let ?c = "st_config st" and ?r = "a_requested_ip req"
  let ?q = "?r \<noteq> 0 \<and> in_pool st1 ?r \<and> available st1 (a_client_id req) (a_now req) ?r"
  let ?scan = "scan_pool (Suc (unat (pool_end ?c)) - unat (pool_start ?c)) st1 (a_client_id req) (a_now req) (pool_start ?c)"
  have conf: "st_config st1 = ?c" by (simp add: st1_def)
  obtain ip where ch: "(if ?q then Some ?r else ?scan) = Some ip"
      and l: "l = make_lease mul_f64 st1 ip (a_client_id req) (a_mac req) (a_now req)"
      and st': "st' = st1\<lparr>leases := (leases st1)(ip \<mapsto> l)\<rparr>"
    using assms(1) conf unfolding acquire_def Let_def st1_def [symmetric] by (cases "?q"; cases "?scan") auto
  have ip: "l_ip l = ip" by (simp add: l make_lease_def Let_def)
  have "available st1 (a_client_id req) (a_now req) ip \<and> pool_of ?c ip"
  proof (cases ?q)
    case True
    then show ?thesis using ch conf by (auto simp: in_pool_def)
  next
    case False
    then have scan: "?scan = Some ip" using ch by (simp split: if_splits)
    then have le: "unat (pool_start ?c) \<le> unat (pool_end ?c)" by (cases "unat (pool_start ?c) \<le> unat (pool_end ?c)") simp_all
    from scan_pool_found [OF scan] show ?thesis using le unat_less_power [of "pool_end ?c"] by (auto simp: word_le_nat_alt)
  qed
  then show ?thesis using l st' ip by simp
qed

lemma acquire_scan:
  assumes "a_requested_ip req = 0" and "st1 = prune (a_now req) st"
    and "scan_pool (Suc (unat (pool_end (st_config st))) - unat (pool_start (st_config st))) st1 (a_client_id req) (a_now req) (pool_start (st_config st)) = Some ip"
  shows "\<exists>l st'. acquire f req st = (Inr l, st') \<and> l_ip l = ip"
  using assms(3) unfolding acquire_def Let_def assms(1) assms(2) [symmetric]
  by (simp add: assms(2)) (simp add: make_lease_def Let_def)

lemma acquire_requested:
  assumes "a_requested_ip req \<noteq> 0" and "pool_of (st_config st) (a_requested_ip req)"
    and "available (prune (a_now req) st) (a_client_id req) (a_now req) (a_requested_ip req)"
  shows "\<exists>l st'. acquire f req st = (Inr l, st') \<and> l_ip l = a_requested_ip req"
  using assms by (simp add: acquire_def Let_def in_pool_def make_lease_def)

lemma acquire_failed: "acquire mul_f64 req st = (Inl e, st') \<Longrightarrow> st' = prune (a_now req) st"
  unfolding acquire_def Let_def by (auto split: option.splits if_splits)

lemma mem_ok_prune: "mem_ok c t st \<Longrightarrow> mem_ok c t (prune t st)"
  by (auto simp: mem_ok_def prune_leases)

lemma keeps_prune: "keeps mem_held t st (prune t st) ip"
  by (auto simp: keeps_def mem_held_def prune_leases)

lemma mem_ok_insert:
  assumes "mem_ok c t st" and "pool_of c ip" and "l_expires_at l \<le> t + lease_duration c"
  shows "mem_ok c t (st\<lparr>leases := (leases st)(ip \<mapsto> l)\<rparr>)"
  using assms by (auto simp: mem_ok_def)

lemma keeps_insert:
  assumes "mem_ok c t st" and "\<And>l'. leases st a = Some l' \<Longrightarrow> l_client_id l' = l_client_id l" and "l_expires_at l = t + lease_duration c"
  shows "keeps mem_held t st (st\<lparr>leases := (leases st)(a \<mapsto> l)\<rparr>) ip"
  using assms by (cases "ip = a") (auto simp: keeps_def mem_held_def mem_ok_def)

lemma keeps_trans: "keeps held t s1 s2 ip \<Longrightarrow> keeps held t s2 s3 ip \<Longrightarrow> keeps held t s1 s3 ip"
  unfolding keeps_def by (meson less_le_trans order_trans)

lemma acquire_mem:
  assumes "mem_ok c (a_now req) st" and "acquire mul_f64 req st = (r, st')"
  shows "mem_ok c (a_now req) st' \<and> keeps mem_held (a_now req) st st' ip \<and>
    (r = Inr l \<longrightarrow> pool_of c (l_ip l) \<and> mem_held st' (l_ip l) = Some (a_client_id req, a_now req + lease_duration c))"
proof (cases r)
  case (Inl e)
  then have "st' = prune (a_now req) st" using acquire_failed assms(2) by blast
  then show ?thesis using mem_ok_prune [OF assms(1)] keeps_prune Inl by simp
next
  case (Inr l')
  let ?st1 = "prune (a_now req) st"
  have ch: "available ?st1 (a_client_id req) (a_now req) (l_ip l')" "pool_of (st_config st) (l_ip l')"
      "l' = make_lease mul_f64 ?st1 (l_ip l') (a_client_id req) (a_mac req) (a_now req)"
      "st' = ?st1\<lparr>leases := (leases ?st1)(l_ip l' \<mapsto> l')\<rparr>"
    using acquire_chosen [of mul_f64 req st l' st'] assms(2) Inr by blast+
  have conf: "st_config st = c" using assms(1) by (simp add: mem_ok_def)
  have l': "l_client_id l' = a_client_id req" "l_expires_at l' = a_now req + lease_duration c"
    using arg_cong [OF ch(3), of l_client_id] arg_cong [OF ch(3), of l_expires_at] conf by (simp_all add: make_lease_def Let_def)
  note ok1 = mem_ok_prune [OF assms(1)]
  have "keeps mem_held (a_now req) ?st1 st' ip"
    unfolding ch(4) using available_free [OF ch(1)] l' by (intro keeps_insert [OF ok1]) simp_all
  with keeps_prune have "keeps mem_held (a_now req) st st' ip" by (rule keeps_trans)
  moreover have "mem_ok c (a_now req) st'" unfolding ch(4) using ch(2) conf l' by (intro mem_ok_insert [OF ok1]) simp_all
  moreover have "mem_held st' (l_ip l') = Some (a_client_id req, a_now req + lease_duration c)" unfolding ch(4) by (simp add: mem_held_def l')
  ultimately show ?thesis using Inr ch(2) conf by auto
qed

lemma confirm_mem:
  assumes "mem_ok c t st" and "confirm mul_f64 a cl t st = (r, st')"
  shows "mem_ok c t st' \<and> keeps mem_held t st st' ip \<and>
    (r = Inr l \<longrightarrow> l_ip l = a \<and> pool_of c a \<and> mem_held st' a = Some (cl, t + lease_duration c))"
proof (cases "\<exists>l0. leases st a = Some l0 \<and> l_client_id l0 = cl")
  case True
  then obtain l0 where l0: "leases st a = Some l0" "l_client_id l0 = cl" by blast
  define l1 where "l1 = make_lease mul_f64 st a cl (l_mac l0) t"
  have conf: "st_config st = c" and p: "pool_of c a" using assms(1) l0(1) by (auto simp: mem_ok_def)
  have l1: "l_ip l1 = a" "l_client_id l1 = cl" "l_expires_at l1 = t + lease_duration c"
    by (simp_all add: l1_def make_lease_def Let_def conf)
  have st': "r = Inr l1" "st' = st\<lparr>leases := (leases st)(a \<mapsto> l1)\<rparr>"
    using assms(2) l0 by (auto simp: confirm_def Let_def l1_def)
  have "keeps mem_held t st st' ip" unfolding st' using l0 l1 by (intro keeps_insert [OF assms(1)]) simp_all
  moreover have "mem_ok c t st'" unfolding st' using p l1 by (intro mem_ok_insert [OF assms(1)]) simp_all
  ultimately show ?thesis using p l1 by (auto simp: st' mem_held_def)
next
  case False
  then have "st' = st" "\<nexists>l. r = Inr l" using assms(2) by (auto simp: confirm_def Let_def split: option.splits if_splits)
  then show ?thesis using assms(1) by (auto simp: keeps_def)
qed

lemma drop_mem:
  assumes "mem_ok c t st"
  shows "release a st = (u, st') \<Longrightarrow> mem_ok c t st' \<and> (ip \<noteq> a \<longrightarrow> mem_held st' ip = mem_held st ip)"
    and "decline t a st = (u, st') \<Longrightarrow> mem_ok c t st' \<and> (ip \<noteq> a \<longrightarrow> mem_held st' ip = mem_held st ip)"
  using assms by (auto simp: release_def decline_def Let_def mem_ok_def mem_held_def split: if_splits)

lemma memory_store_ops [simp]:
  "ls_acquire (memory_store f) = acquire f" "ls_confirm (memory_store f) = confirm f"
  "ls_release (memory_store f) = release" "ls_decline (memory_store f) = decline"
  by (simp_all add: memory_store_def)

lemma mem_ok_later: "mem_ok c t st \<Longrightarrow> t \<le> t' \<Longrightarrow> mem_ok c t' st"
  unfolding mem_ok_def by (meson add_le_mono1 order_trans)

interpretation mem: lease_store "memory_store mul_f64" mem_held "mem_ok c" "pool_of c" "lease_duration c"
  by (unfold_locales, unfold memory_store_ops) (fact mem_ok_later acquire_mem confirm_mem drop_mem)+

end
