(* ===== verification/Dhcp_Server.thy ===== *)
theory Dhcp_Server
  imports Dhcp_Lease
begin

unbundle bit_operations_syntax

text \<open>
  The server of \<^verbatim>\<open>tpt-dhcp/src/server.rs\<close> over any
  lease store: the store's operations are the record \<open>S\<close>. The time at which a message is processed is an
  argument. Main result: while a granted lease runs, its address is granted to no other client, unless some
  client releases or declines the address.
\<close>

section \<open>The server\<close>

datatype DhcpError = DecodeFailure DhcpDecodeError | LeaseFailure LeaseError | UnexpectedMessage

text \<open>The pattern \<^verbatim>\<open>if wanted(code) { reply.set_option(...) }\<close>.\<close>

definition set_option_if :: "bool \<Rightarrow> DhcpOption \<Rightarrow> DhcpMessage \<Rightarrow> DhcpMessage" where
  "set_option_if b opt m = (if b then set_option opt m else m)"

record 's Server =
  sv_config :: PoolConfig
  sv_store :: 's

definition Server_new :: "PoolConfig \<Rightarrow> MemoryLeaseStore Server" where
  "Server_new config = \<lparr>sv_config = config, sv_store = MemoryLeaseStore_new config\<rparr>"

text \<open>The closure \<^verbatim>\<open>wanted\<close>, and a duration as the seconds of an option.\<close>

definition wanted :: "DhcpMessage \<Rightarrow> u8 \<Rightarrow> bool" where
  "wanted req code =
     (case find_option 55 req of
        Some (ParameterRequestList list) \<Rightarrow> code \<in> set list \<or> code \<in> {53, 54, 1, 55}
      | _ \<Rightarrow> True)"

abbreviation option_secs :: "nat \<Rightarrow> u32" where
  "option_secs d \<equiv> word_of_nat (min (d div 10 ^ 9) 0xFFFFFFFF)"

definition build_reply :: "PoolConfig \<Rightarrow> MessageType \<Rightarrow> DhcpMessage \<Rightarrow> Lease option \<Rightarrow> DhcpMessage" where
  "build_reply config kind req lease =
     (let reply = DhcpMessage_new\<lparr>m_op := BootReply, m_htype := m_htype req, m_hlen := m_hlen req, m_hops := m_hops req,
            m_xid := m_xid req, m_flags := m_flags req, m_giaddr := m_giaddr req, m_chaddr := m_chaddr req,
            m_siaddr := server_ip config\<rparr>;
          reply = (case lease of
              Some l \<Rightarrow> if m_ciaddr req = 0 then reply\<lparr>m_yiaddr := l_ip l\<rparr> else reply
            | None \<Rightarrow> reply);
          reply = set_option (MessageTypeOpt kind) reply;
          reply = (case lease of
              Some l \<Rightarrow> set_option_if (wanted req 59) (RebindingTime (option_secs (l_t2 l)))
                (set_option_if (wanted req 58) (RenewalTime (option_secs (l_t1 l))) reply)
            | None \<Rightarrow> reply);
          reply = set_option_if (wanted req 54) (ServerIdentifier (server_ip config)) reply;
          reply = (case lease of
              Some l \<Rightarrow> set_option_if (wanted req 51) (LeaseTime (option_secs (l_duration l))) reply
            | None \<Rightarrow> reply);
          reply = set_option_if (subnet_mask config \<noteq> 0 \<and> wanted req 1) (SubnetMask (subnet_mask config)) reply;
          reply = set_option_if (routers config \<noteq> [] \<and> wanted req 3) (Router (routers config)) reply;
          reply = set_option_if (domain_name_servers config \<noteq> [] \<and> wanted req 6)
            (DomainNameServer (domain_name_servers config)) reply;
          reply = (case domain_name config of
              Some d \<Rightarrow> set_option_if (wanted req 15) (DomainName d) reply
            | None \<Rightarrow> reply)
      in reply)"

text \<open>The identity by which the server knows a client.\<close>

definition client_key :: "DhcpMessage \<Rightarrow> bytes" where
  "client_key msg = (case client_identifier msg of Some b \<Rightarrow> b | None \<Rightarrow> msg_mac msg)"

text \<open>The address a REQUEST or DECLINE is about.\<close>

definition target_ip :: "DhcpMessage \<Rightarrow> ipv4" where
  "target_ip msg = (case requested_ip msg of Some ip \<Rightarrow> ip | None \<Rightarrow> m_ciaddr msg)"

definition process ::
    "('s, 'z) LeaseStore_scheme \<Rightarrow> nat \<Rightarrow> DhcpMessage \<Rightarrow> 's Server \<Rightarrow> (DhcpError + DhcpMessage option) \<times> 's Server" where
  "process S now msg sv =
     (let client_id = client_key msg in
      case message_type msg of
        Some Discover \<Rightarrow>
          (let req_ip = (case requested_ip msg of Some ip \<Rightarrow> ip | None \<Rightarrow> 0);
               (r, st) = ls_acquire S \<lparr>a_client_id = client_id, a_mac = msg_mac msg, a_requested_ip = req_ip, a_now = now\<rparr> (sv_store sv)
           in case r of
                Inl e \<Rightarrow> (Inl (LeaseFailure e), sv\<lparr>sv_store := st\<rparr>)
              | Inr lease \<Rightarrow> (Inr (Some (build_reply (sv_config sv) Offer msg (Some lease))), sv\<lparr>sv_store := st\<rparr>))
      | Some Request \<Rightarrow>
          if (case server_identifier msg of Some sid \<Rightarrow> sid \<noteq> server_ip (sv_config sv) | None \<Rightarrow> False) then (Inr None, sv)
          else if target_ip msg = 0 then (Inr None, sv)
          else
            (let (r, st) = ls_confirm S (target_ip msg) client_id now (sv_store sv)
             in case r of
                  Inr lease \<Rightarrow> (Inr (Some (build_reply (sv_config sv) Ack msg (Some lease))), sv\<lparr>sv_store := st\<rparr>)
                | Inl _ \<Rightarrow> (Inr (Some (build_reply (sv_config sv) Nak msg None)), sv\<lparr>sv_store := st\<rparr>))
      | Some Decline \<Rightarrow> (Inr None, sv\<lparr>sv_store := snd (ls_decline S now (target_ip msg) (sv_store sv))\<rparr>)
      | Some Release \<Rightarrow> (Inr None, sv\<lparr>sv_store := snd (ls_release S (m_ciaddr msg) (sv_store sv))\<rparr>)
      | Some Inform \<Rightarrow> (Inr (Some (build_reply (sv_config sv) Ack msg None)), sv)
      | _ \<Rightarrow> (Inr None, sv))"

definition dhcp_process_bytes ::
    "('s, 'z) LeaseStore_scheme \<Rightarrow> nat \<Rightarrow> bytes \<Rightarrow> 's Server \<Rightarrow> (DhcpError + bytes option) \<times> 's Server" where
  "dhcp_process_bytes S now packet sv =
     (case DhcpMessage_from_bytes packet of
        Inl e \<Rightarrow> (Inl (DecodeFailure e), sv)
      | Inr msg \<Rightarrow> (let (r, sv) = process S now msg sv in (map_sum id (map_option DhcpMessage_to_bytes) r, sv)))"

text \<open>
  One turn of the loop of \<^verbatim>\<open>run\<close>: the received packet, cut at the buffer of 1500 bytes, gives the
  packet to send and where to; a dropped packet gives nothing.
\<close>

definition reply_dest :: "DhcpMessage \<Rightarrow> ipv4 \<times> nat" where
  "reply_dest reply =
     (if m_giaddr reply \<noteq> 0 then (m_giaddr reply, 67)
      else if m_flags reply AND 0x8000 \<noteq> 0 \<or> m_yiaddr reply = 0 then (0xFFFFFFFF, 68)
      else (m_yiaddr reply, 68))"

definition run_step ::
    "('s, 'z) LeaseStore_scheme \<Rightarrow> nat \<Rightarrow> bytes \<Rightarrow> 's Server \<Rightarrow> (bytes \<times> ipv4 \<times> nat) option \<times> 's Server" where
  "run_step S now datagram sv =
     (case dhcp_process_bytes S now (take 1500 datagram) sv of
        (Inr (Some packet), sv) \<Rightarrow>
          (case DhcpMessage_from_bytes packet of
             Inr reply \<Rightarrow> (Some (packet, reply_dest reply), sv)
           | Inl _ \<Rightarrow> (None, sv))
      | (_, sv) \<Rightarrow> (None, sv))"

section \<open>Replies\<close>

lemma find_set_option:
  "find_option code (set_option opt m) = (if option_code opt = code then Some opt else find_option code m)"
proof -
  have "find (\<lambda>x. option_code x = code) (filter (\<lambda>old. option_code old \<noteq> option_code opt) xs) =
      (if option_code opt = code then None else find (\<lambda>x. option_code x = code) xs)" for xs
    by (induction xs) auto
  moreover have "find P (xs @ [x]) = (case find P xs of None \<Rightarrow> if P x then Some x else None | Some y \<Rightarrow> Some y)"
    for P and xs :: "DhcpOption list" and x by (induction xs) auto
  ultimately show ?thesis by (auto simp: find_option_def set_option_def split: option.splits)
qed

lemma set_option_yiaddr [simp]: "m_yiaddr (set_option opt m) = m_yiaddr m"
  by (simp add: set_option_def)

lemma find_set_option_if:
  "option_code opt \<noteq> code \<Longrightarrow> find_option code (set_option_if b opt m) = find_option code m"
  "m_yiaddr (set_option_if b opt m) = m_yiaddr m"
  by (simp_all add: set_option_if_def find_set_option)

lemma build_reply_yiaddr:
  "m_yiaddr (build_reply config kind req lease) = (case lease of Some l \<Rightarrow> if m_ciaddr req = 0 then l_ip l else 0 | None \<Rightarrow> 0)"
  by (cases lease; cases "domain_name config") (simp_all add: build_reply_def Let_def DhcpMessage_new_def find_set_option_if)

lemma build_reply_type: "message_type (build_reply config kind req lease) = Some kind"
  by (cases lease; cases "domain_name config") (simp_all add: message_type_def build_reply_def Let_def find_set_option_if find_set_option)

section \<open>Serving messages\<close>

text \<open>
  The address that the answer to a message grants its sender: that of an OFFER to a DISCOVER, that of a REQUEST
  which is acknowledged. A message drops an address if it is a DECLINE or a RELEASE of it.
\<close>

definition granted :: "DhcpMessage \<Rightarrow> DhcpError + DhcpMessage option \<Rightarrow> ipv4 option" where
  "granted msg r =
     (case r of
        Inr (Some reply) \<Rightarrow>
          if message_type msg = Some Discover \<and> message_type reply = Some Offer \<and> m_yiaddr reply \<noteq> 0 then Some (m_yiaddr reply)
          else if message_type msg = Some Request \<and> message_type reply = Some Ack then Some (target_ip msg)
          else None
      | _ \<Rightarrow> None)"

definition drops :: "DhcpMessage \<Rightarrow> ipv4 \<Rightarrow> bool" where
  "drops msg ip \<longleftrightarrow> message_type msg = Some Decline \<and> target_ip msg = ip \<or> message_type msg = Some Release \<and> m_ciaddr msg = ip"

text \<open>A run of the server: the messages with their times, and the results in the same order.\<close>

fun serve ::
    "('s, 'z) LeaseStore_scheme \<Rightarrow> (nat \<times> DhcpMessage) list \<Rightarrow> 's Server \<Rightarrow> (DhcpError + DhcpMessage option) list \<times> 's Server" where
  "serve S [] sv = ([], sv)"
| "serve S ((t, msg) # es) sv = (let (r, sv) = process S t msg sv; (rs, sv) = serve S es sv in (r # rs, sv))"

lemma serve_length: "serve S es sv = (rs, sv') \<Longrightarrow> length rs = length es"
  by (induction S es sv arbitrary: rs rule: serve.induct) (auto split: prod.splits)

lemma serve_append:
  "serve S (es1 @ es2) sv = (let (rs1, sv) = serve S es1 sv; (rs2, sv) = serve S es2 sv in (rs1 @ rs2, sv))"
  by (induction S es1 sv rule: serve.induct) (simp_all split: prod.split)

context lease_store
begin

lemma process_law:
  assumes "ok t (sv_store sv)" and "process S t msg sv = (r, sv')"
  shows "ok t (sv_store sv') \<and> (drops msg ip \<or> keeps held t (sv_store sv) (sv_store sv') ip) \<and>
    (granted msg r = Some a \<longrightarrow> pool a \<and> held (sv_store sv') a = Some (client_key msg, t + dur))"
proof -
  have same: "keeps held t st st ip" for st by (auto simp: keeps_def)
  consider "message_type msg = Some Discover" | "message_type msg = Some Request" | "message_type msg = Some Decline"
    | "message_type msg = Some Release" | "message_type msg \<notin> Some ` {Discover, Request, Decline, Release}"
    by blast
  then show ?thesis
  proof cases
    case 1
    let ?req = "\<lparr>a_client_id = client_key msg, a_mac = msg_mac msg, a_requested_ip = (case requested_ip msg of Some ip \<Rightarrow> ip | None \<Rightarrow> 0), a_now = t\<rparr>"
    obtain q st where q: "ls_acquire S ?req (sv_store sv) = (q, st)" by force
    have law: "ok t st \<and> keeps held t (sv_store sv) st ip \<and> (q = Inr l \<longrightarrow> pool (l_ip l) \<and> held st (l_ip l) = Some (client_key msg, t + dur))" for l
      using acquire_law [OF _ q, of ip l] assms(1) by simp
    show ?thesis
    proof (cases q)
      case (Inr l)
      then have "r = Inr (Some (build_reply (sv_config sv) Offer msg (Some l)))" "sv_store sv' = st"
        using assms(2) 1 q by (auto simp: process_def)
      then show ?thesis using law [of l] Inr 1
        by (auto simp: granted_def build_reply_type build_reply_yiaddr split: if_splits)
    qed (use assms(2) 1 q law in \<open>auto simp: process_def granted_def\<close>)
  next
    case 2
    obtain q st where q: "ls_confirm S (target_ip msg) (client_key msg) t (sv_store sv) = (q, st)" by force
    have law: "ok t st \<and> keeps held t (sv_store sv) st ip \<and> (q = Inr l \<longrightarrow> pool (target_ip msg) \<and> held st (target_ip msg) = Some (client_key msg, t + dur))" for l
      using confirm_law [OF assms(1) q, of ip l] by auto
    show ?thesis
      using assms 2 q law same by (cases q) (auto simp: process_def granted_def build_reply_type split: if_splits)
  next
    case 3
    then show ?thesis using assms decline_law [of t "sv_store sv" "target_ip msg" _ _ ip] same
      by (cases "ls_decline S t (target_ip msg) (sv_store sv)") (auto simp: process_def granted_def drops_def keeps_def)
  next
    case 4
    then show ?thesis using assms release_law [of t "sv_store sv" "m_ciaddr msg" _ _ ip] same
      by (cases "ls_release S (m_ciaddr msg) (sv_store sv)") (auto simp: process_def granted_def drops_def keeps_def)
  next
    case 5
    then have "sv' = sv \<and> granted msg r = None" using assms(2)
      by (cases "message_type msg") (auto simp: process_def granted_def build_reply_type Let_def split: MessageType.splits)
    then show ?thesis using assms(1) same by simp
  qed
qed

lemma serve_ok:
  "serve S es sv = (rs, sv') \<Longrightarrow> ok t (sv_store sv) \<Longrightarrow> sorted (t # map fst es) \<Longrightarrow> \<forall>t'\<in>set (t # map fst es). t' \<le> u \<Longrightarrow> ok u (sv_store sv')"
proof (induction es arbitrary: sv t rs sv')
  case Nil
  then show ?case using ok_later by simp
next
  case (Cons e es)
  obtain t1 msg where e: "e = (t1, msg)" by force
  obtain r sv1 where p: "process S t1 msg sv = (r, sv1)" by force
  obtain rs' sv2 where q: "serve S es sv1 = (rs', sv2)" by force
  have "ok t1 (sv_store sv)" using Cons.prems ok_later e by simp
  then have "ok t1 (sv_store sv1)" using process_law [OF _ p] by blast
  then show ?case using Cons.IH [OF q] Cons.prems e p q by simp
qed

lemma lease_exclusive:
  assumes "serve S es sv = (rs, sv')" and "ok t (sv_store sv)" and "held (sv_store sv) ip = Some (c, x)" and "sorted (t # map fst es)"
    and "\<forall>(t', msg)\<in>set es. t' < x \<and> \<not> drops msg ip"
  shows "\<forall>((t', msg), r)\<in>set (zip es rs). granted msg r = Some ip \<longrightarrow> client_key msg = c"
  using assms
proof (induction es arbitrary: sv t rs x sv')
  case (Cons e es)
  obtain t1 msg where e: "e = (t1, msg)" by force
  obtain r sv1 where p: "process S t1 msg sv = (r, sv1)" by force
  obtain rs' sv2 where q: "serve S es sv1 = (rs', sv2)" by force
  have ok: "ok t1 (sv_store sv)" using Cons.prems(2, 4) ok_later e by simp
  have lt: "t1 < x" "\<not> drops msg ip" using Cons.prems(5) e by auto
  note law = process_law [OF ok p]
  obtain x' where x': "x \<le> x'" "held (sv_store sv1) ip = Some (c, x')" using law [of ip] lt Cons.prems(3) by (auto simp: keeps_def)
  have "granted msg r = Some ip \<longrightarrow> client_key msg = c" using law [of ip ip] x'(2) by auto
  moreover have "\<forall>((t', msg), r)\<in>set (zip es rs'). granted msg r = Some ip \<longrightarrow> client_key msg = c"
    using Cons.IH [OF q _ x'(2), of t1] law Cons.prems(4, 5) x'(1) e by fastforce
  ultimately show ?case using Cons.prems(1) e p q by auto
qed simp

end

lemma process_discover:
  assumes "message_type msg = Some Discover"
    and "ls_acquire S \<lparr>a_client_id = client_key msg, a_mac = msg_mac msg, a_requested_ip = (case requested_ip msg of Some ip \<Rightarrow> ip | None \<Rightarrow> 0), a_now = now\<rparr>
      (sv_store sv) = (Inr l, st)"
  shows "process S now msg sv = (Inr (Some (build_reply (sv_config sv) Offer msg (Some l))), sv\<lparr>sv_store := st\<rparr>)"
  using assms by (simp add: process_def)

lemma process_request:
  assumes "message_type msg = Some Request" and "target_ip msg \<noteq> 0" and "server_identifier msg \<in> {None, Some (server_ip (sv_config sv))}"
    and "ls_confirm S (target_ip msg) (client_key msg) now (sv_store sv) = (Inr l, st)"
  shows "process S now msg sv = (Inr (Some (build_reply (sv_config sv) Ack msg (Some l))), sv\<lparr>sv_store := st\<rparr>)"
  using assms by (auto simp: process_def)

text \<open>
  C3: Whenever the server grants an address, in an OFFER or by acknowledging a REQUEST, the address is in the
  pool, and every later grant of the same address before the lease ends goes to the same client, unless the address is
  released or declined in between. This holds for every run from a new server with messages in the order of time.
\<close>

theorem dhcp_lease_exclusive:
  assumes "serve (memory_store mul_f64) (es1 @ (t, msg) # es2) (Server_new config) = (rs1 @ r # rs2, sv')" and "length rs1 = length es1"
    and "sorted (map fst (es1 @ (t, msg) # es2))" and "granted msg r = Some ip"
    and "\<forall>(t', msg')\<in>set es2. t' < t + lease_duration config \<and> \<not> drops msg' ip"
  shows "pool_start config \<le> ip \<and> ip \<le> pool_end config \<and>
    (\<forall>((t', msg'), r')\<in>set (zip es2 rs2). granted msg' r' = Some ip \<longrightarrow> client_key msg' = client_key msg)"
proof -
  let ?S = "memory_store mul_f64"
  obtain q1 sv1 where s1: "serve ?S es1 (Server_new config) = (q1, sv1)" by force
  obtain q sv2 where s2: "process ?S t msg sv1 = (q, sv2)" by force
  obtain q2 sv3 where s3: "serve ?S es2 sv2 = (q2, sv3)" by force
  have r: "r = q" "rs2 = q2"
    using assms(1, 2) serve_length [OF s1] by (auto simp: serve_append s1 s2 s3)
  have "mem_ok config 0 (sv_store (Server_new config))" by (simp add: Server_new_def mem_ok_def MemoryLeaseStore_new_def)
  then have "mem_ok config t (sv_store sv1)"
    using mem.serve_ok [OF s1, of config 0 t] assms(3) by (auto simp: sorted_append)
  note law = mem.process_law [OF this s2]
  have h: "mem_ok config t (sv_store sv2)" "pool_of config ip" "mem_held (sv_store sv2) ip = Some (client_key msg, t + lease_duration config)"
    using law assms(4) r(1) by blast+
  have "sorted (t # map fst es2)" using assms(3) by (simp add: sorted_append)
  from mem.lease_exclusive [OF s3 h(1, 3) this assms(5)] show ?thesis using h(2) r(2) by simp
qed

text \<open>Messages of a client with a given identifier.\<close>

definition dhcp_msg :: "bytes \<Rightarrow> MessageType \<Rightarrow> ipv4 \<Rightarrow> DhcpOption list \<Rightarrow> DhcpMessage" where
  "dhcp_msg client kind ciaddr opts =
     DhcpMessage_new\<lparr>m_ciaddr := ciaddr, m_options := [MessageTypeOpt kind, ClientIdentifier client] @ opts\<rparr>"

lemma dhcp_msg_simps [simp]:
  "message_type (dhcp_msg c k a opts) = Some k" "client_key (dhcp_msg c k a opts) = c" "m_ciaddr (dhcp_msg c k a opts) = a"
  "find_option code (dhcp_msg c k a []) = (if code = 53 then Some (MessageTypeOpt k) else if code = 61 then Some (ClientIdentifier c) else None)"
  by (auto simp: dhcp_msg_def message_type_def find_option_def client_key_def client_identifier_def)

definition sample_pool :: PoolConfig where
  "sample_pool = \<lparr>server_ip = 1, subnet_mask = 0, pool_start = 10, pool_end = 12, lease_duration = 3600, routers = [],
     domain_name_servers = [], domain_name = None\<rparr>"

lemma sample_offer:
  "\<exists>sv. process (memory_store f) t (dhcp_msg c Discover 0 []) (Server_new sample_pool) = (r, sv) \<Longrightarrow>
    granted (dhcp_msg c Discover 0 []) r = Some 10"
proof -
  assume r: "\<exists>sv. process (memory_store f) t (dhcp_msg c Discover 0 []) (Server_new sample_pool) = (r, sv)"
  let ?st = "MemoryLeaseStore_new sample_pool" and ?msg = "dhcp_msg c Discover 0 []"
  let ?req = "\<lparr>a_client_id = client_key ?msg, a_mac = msg_mac ?msg, a_requested_ip = (case requested_ip ?msg of Some ip \<Rightarrow> ip | None \<Rightarrow> 0), a_now = t\<rparr>"
  have "scan_pool (Suc (unat (pool_end sample_pool)) - unat (pool_start sample_pool)) (prune t ?st) c t (pool_start sample_pool) = Some 10"
    by (simp add: sample_pool_def numeral_3_eq_3 available_def is_declined_def prune_def MemoryLeaseStore_new_def)
  then obtain l st where l: "acquire f ?req ?st = (Inr l, st)" "l_ip l = 10"
    using acquire_scan [of ?req "prune t ?st" ?st 10 f] by (auto simp: requested_ip_def MemoryLeaseStore_new_def)
  show ?thesis
    using r process_discover [of ?msg "memory_store f" t "Server_new sample_pool" l st] l
    by (auto simp: granted_def build_reply_type build_reply_yiaddr Server_new_def)
qed

theorem dhcp_lease_exclusive_witness:
  "\<exists>r r'. granted (dhcp_msg [1] Discover 0 []) r = Some 10 \<and>
    fst (serve (memory_store (\<lambda>d _. d)) [(0, dhcp_msg [1] Discover 0 []), (5, dhcp_msg [2] Discover 0 [])] (Server_new sample_pool)) = [r, r'] \<and>
    granted (dhcp_msg [2] Discover 0 []) r' \<noteq> Some 10"
proof -
  let ?S = "memory_store (\<lambda>d _. d)" and ?a = "dhcp_msg [1] Discover 0 []" and ?b = "dhcp_msg [2] Discover 0 []"
  obtain r sv1 where p: "process ?S 0 ?a (Server_new sample_pool) = (r, sv1)" by force
  obtain r' sv2 where q: "process ?S 5 ?b sv1 = (r', sv2)" by force
  have g: "granted ?a r = Some 10" using sample_offer p by blast
  have run: "serve ?S ([] @ (0, ?a) # [(5, ?b)]) (Server_new sample_pool) = ([] @ r # [r'], sv2)" by (simp add: p q)
  have "\<forall>(t', m)\<in>set [(5, ?b)]. t' < 0 + lease_duration sample_pool \<and> \<not> drops m 10" by (simp add: sample_pool_def drops_def)
  from dhcp_lease_exclusive [OF run _ _ g this] show ?thesis using g run by auto
qed

end
