(* ===== verification/Dhcp_Client.thy ===== *)
theory Dhcp_Client
  imports Dhcp_Server
begin

unbundle bit_operations_syntax

text \<open>
  The client of \<^verbatim>\<open>tpt-dhcp/src/client.rs\<close> and its conversation with the server over encoded messages: a client
  that discovers, requests and receives the acknowledgement is bound to an address which the server holds for it.
  The client does not ask for the lease time, and the server leaves the option out: the two can disagree
  about the end of the lease.
\<close>

datatype ClientState = Init | Selecting | Requesting | Bound | Renewing | Rebinding

record ClientLease =
  cl_ip :: ipv4
  cl_server_id :: ipv4
  cl_lease_time :: u32
  cl_renewal_time :: u32
  cl_rebinding_time :: u32
  cl_obtained_at :: nat

text \<open>The tests of a client lease against the clock: \<open>duration_since\<close> is 0 for an earlier instant.\<close>

definition past :: "u32 \<Rightarrow> nat \<Rightarrow> nat \<Rightarrow> bool" where
  "past secs obtained now \<longleftrightarrow> unat secs * 10 ^ 9 \<le> now - obtained"

definition client_lease_is_expired :: "ClientLease \<Rightarrow> nat \<Rightarrow> bool" where
  "client_lease_is_expired l now = past (cl_lease_time l) (cl_obtained_at l) now"

definition should_renew :: "ClientLease \<Rightarrow> nat \<Rightarrow> bool" where
  "should_renew l now = past (cl_renewal_time l) (cl_obtained_at l) now"

definition should_rebind :: "ClientLease \<Rightarrow> nat \<Rightarrow> bool" where
  "should_rebind l now = past (cl_rebinding_time l) (cl_obtained_at l) now"

record ClientOffer =
  o_ip :: ipv4
  o_server_id :: ipv4
  o_lease_time :: u32
  o_renewal_time :: u32
  o_rebinding_time :: u32

record Client =
  c_mac :: bytes
  c_client_id :: "bytes option"
  c_state :: ClientState
  c_xid :: u32
  c_next_xid :: u32
  c_offered :: "ClientOffer option"
  c_lease :: "ClientLease option"

definition Client_new :: "bytes \<Rightarrow> u64 \<Rightarrow> Client" where
  "Client_new mac seed = \<lparr>c_mac = mac, c_client_id = None, c_state = Init, c_xid = 0,
     c_next_xid = ucast (seed XOR 0x9E3779B9) OR 1, c_offered = None, c_lease = None\<rparr>"

definition set_client_id :: "bytes \<Rightarrow> Client \<Rightarrow> Client" where
  "set_client_id ident c = c\<lparr>c_client_id := Some ident\<rparr>"

definition alloc_xid :: "Client \<Rightarrow> u32 \<times> Client" where
  "alloc_xid c =
     (let x = c_next_xid c;
          x = x XOR push_bit 13 x;
          x = x XOR drop_bit 17 x;
          x = x XOR push_bit 5 x
      in (x, c\<lparr>c_next_xid := x OR 1\<rparr>))"

definition build_request :: "MessageType \<Rightarrow> bool \<Rightarrow> bool \<Rightarrow> bool \<Rightarrow> ipv4 \<Rightarrow> Client \<Rightarrow> DhcpMessage" where
  "build_request mtype broadcast include_server_id include_requested_ip ciaddr c =
     (let msg = (set_chaddr (c_mac c) (DhcpMessage_new\<lparr>m_op := BootRequest\<rparr>))
            \<lparr>m_xid := c_xid c, m_flags := (if broadcast then 0x8000 else 0), m_ciaddr := ciaddr\<rparr>;
          msg = set_option (MessageTypeOpt mtype) msg;
          msg = (if include_server_id then
                   (case c_offered c of
                      Some offer \<Rightarrow> set_option (ServerIdentifier (o_server_id offer)) msg
                    | None \<Rightarrow>
                        (case c_lease c of
                           Some lease \<Rightarrow> set_option (ServerIdentifier (cl_server_id lease)) msg
                         | None \<Rightarrow> msg))
                 else msg);
          msg = (if include_requested_ip then
                   (case c_offered c of Some offer \<Rightarrow> set_option (RequestedIpAddress (o_ip offer)) msg | None \<Rightarrow> msg)
                 else msg);
          msg = (case c_client_id c of Some ident \<Rightarrow> set_option (ClientIdentifier ident) msg | None \<Rightarrow> msg)
      in set_option (ParameterRequestList [1, 3, 6, 15, 12]) msg)"

definition start_discover :: "Client \<Rightarrow> DhcpMessage \<times> Client" where
  "start_discover c =
     (let (xid, c) = alloc_xid c;
          c = c\<lparr>c_xid := xid, c_offered := None, c_state := Selecting\<rparr>
      in (build_request Discover True False False 0 c, c))"

text \<open>The renewal and rebinding times of a message, if it has them.\<close>

definition renewal_time :: "DhcpMessage \<Rightarrow> u32 option" where
  "renewal_time m = (case find_option 58 m of Some (RenewalTime v) \<Rightarrow> Some v | _ \<Rightarrow> None)"

definition rebinding_time :: "DhcpMessage \<Rightarrow> u32 option" where
  "rebinding_time m = (case find_option 59 m of Some (RebindingTime v) \<Rightarrow> Some v | _ \<Rightarrow> None)"

definition unwrap_or_else :: "'a option \<Rightarrow> 'a \<Rightarrow> 'a" where
  "unwrap_or_else x d = (case x of Some v \<Rightarrow> v | None \<Rightarrow> d)"

definition or_option :: "'a option \<Rightarrow> 'a option \<Rightarrow> 'a option" where
  "or_option x y = (case x of Some v \<Rightarrow> Some v | None \<Rightarrow> y)"

definition receive_offer :: "DhcpMessage \<Rightarrow> Client \<Rightarrow> DhcpMessage option \<times> Client" where
  "receive_offer msg c =
     (if c_state c \<noteq> Selecting then (None, c)
      else if message_type msg \<noteq> Some Offer \<or> m_xid msg \<noteq> c_xid c then (None, c)
      else case server_identifier msg of
        None \<Rightarrow> (None, c)
      | Some server_id \<Rightarrow>
          if m_yiaddr msg = 0 then (None, c)
          else
            let lt = unwrap_or_else (lease_time msg) 3600;
                rt = unwrap_or_else (renewal_time msg) (lt div 2);
                bt = unwrap_or_else (rebinding_time msg) (lt * 7 div 8);
                c = c\<lparr>c_offered := Some \<lparr>o_ip = m_yiaddr msg, o_server_id = server_id, o_lease_time = lt,
                    o_renewal_time = rt, o_rebinding_time = bt\<rparr>\<rparr>;
                request = build_request Request True True True 0 c
            in (Some request, c\<lparr>c_state := Requesting\<rparr>))"

definition receive_ack :: "nat \<Rightarrow> DhcpMessage \<Rightarrow> Client \<Rightarrow> (DhcpError + unit) \<times> Client" where
  "receive_ack now msg c =
     (if c_state c \<notin> {Requesting, Renewing, Rebinding} then (Inl UnexpectedMessage, c)
      else if m_xid msg \<noteq> c_xid c then (Inl UnexpectedMessage, c)
      else case message_type msg of
        Some Ack \<Rightarrow>
          (case or_option (or_option (server_identifier msg) (map_option o_server_id (c_offered c)))
                  (map_option cl_server_id (c_lease c)) of
             None \<Rightarrow> (Inl UnexpectedMessage, c)
           | Some server_id \<Rightarrow>
               let ip = (if m_yiaddr msg \<noteq> 0 then m_yiaddr msg else unwrap_or_else (map_option cl_ip (c_lease c)) 0);
                   lt = unwrap_or_else (or_option (lease_time msg) (map_option o_lease_time (c_offered c))) 3600;
                   rt = unwrap_or_else (or_option (renewal_time msg) (map_option o_renewal_time (c_offered c))) (lt div 2);
                   bt = unwrap_or_else (or_option (rebinding_time msg) (map_option o_rebinding_time (c_offered c))) (lt * 7 div 8)
               in (Inr (), c\<lparr>c_lease := Some \<lparr>cl_ip = ip, cl_server_id = server_id, cl_lease_time = lt, cl_renewal_time = rt,
                     cl_rebinding_time = bt, cl_obtained_at = now\<rparr>, c_offered := None, c_state := Bound\<rparr>))
      | Some Nak \<Rightarrow> (Inr (), c\<lparr>c_offered := None, c_lease := None, c_state := Init\<rparr>)
      | _ \<Rightarrow> (Inl UnexpectedMessage, c))"

definition start_renew :: "Client \<Rightarrow> DhcpMessage option \<times> Client" where
  "start_renew c =
     (if c_state c \<noteq> Bound then (None, c)
      else case c_lease c of
        None \<Rightarrow> (None, c)
      | Some lease \<Rightarrow>
          let (xid, c) = alloc_xid c; c = c\<lparr>c_xid := xid, c_state := Renewing\<rparr>
          in (Some (build_request Request False True False (cl_ip lease) c), c))"

definition start_rebind :: "Client \<Rightarrow> DhcpMessage option \<times> Client" where
  "start_rebind c =
     (if c_state c \<noteq> Bound then (None, c)
      else case c_lease c of
        None \<Rightarrow> (None, c)
      | Some lease \<Rightarrow>
          let (xid, c) = alloc_xid c; c = c\<lparr>c_xid := xid, c_state := Rebinding\<rparr>
          in (Some (build_request Request True False False (cl_ip lease) c), c))"

definition client_release :: "Client \<Rightarrow> DhcpMessage option \<times> Client" where
  "client_release c =
     (if c_state c \<noteq> Bound then (None, c)
      else case c_lease c of
        None \<Rightarrow> (None, c)
      | Some lease \<Rightarrow>
          let (xid, c) = alloc_xid c; c = c\<lparr>c_xid := xid, c_lease := None, c_state := Init\<rparr>
          in (Some (build_request Release False True False (cl_ip lease) c), c))"

section \<open>Requests and replies on the wire\<close>

lemma set_option_fields [simp]:
  "m_ciaddr (set_option opt m) = m_ciaddr m" "m_xid (set_option opt m) = m_xid m" "m_hlen (set_option opt m) = m_hlen m"
  "m_chaddr (set_option opt m) = m_chaddr m" "m_sname (set_option opt m) = m_sname m" "m_file (set_option opt m) = m_file m"
  by (simp_all add: set_option_def)

lemma set_option_wf: "list_all option_wf (m_options m) \<Longrightarrow> option_wf opt \<Longrightarrow> list_all option_wf (m_options (set_option opt m))"
  by (auto simp: set_option_def list_all_iff)

lemma set_option_if_wf: "list_all option_wf (m_options m) \<Longrightarrow> option_wf opt \<Longrightarrow> list_all option_wf (m_options (set_option_if b opt m))"
  by (simp add: set_option_if_def set_option_wf)

lemma set_option_if_fields [simp]:
  "m_xid (set_option_if b opt m) = m_xid m" "m_chaddr (set_option_if b opt m) = m_chaddr m"
  by (simp_all add: set_option_if_def)

text \<open>Clients and configurations whose values fit into options.\<close>

definition client_wf :: "Client \<Rightarrow> bool" where
  "client_wf c \<longleftrightarrow> length (c_mac c) = 6 \<and> (\<forall>b. c_client_id c = Some b \<longrightarrow> length b \<le> 255)"

definition config_wf :: "PoolConfig \<Rightarrow> bool" where
  "config_wf cfg \<longleftrightarrow> length (routers cfg) \<le> 63 \<and> length (domain_name_servers cfg) \<le> 63 \<and>
     (\<forall>d. domain_name cfg = Some d \<longrightarrow> length d \<le> 255 \<and> from_utf8_lossy d = d)"

lemma build_request_wf:
  assumes "client_wf c"
  shows "message_wf (build_request k b s r a c)"
proof -
  have "list_all option_wf (m_options (build_request k b s r a c))"
    using assms unfolding build_request_def Let_def client_wf_def
    by (cases "c_offered c"; cases "c_lease c"; cases "c_client_id c")
      (simp_all add: set_option_wf set_chaddr_def Let_def DhcpMessage_new_def)
  moreover have "length (m_chaddr (build_request k b s r a c)) = 16"
    using assms unfolding build_request_def Let_def client_wf_def
    by (cases "c_offered c"; cases "c_lease c"; cases "c_client_id c") (simp_all add: set_chaddr_def Let_def)
  ultimately show ?thesis by (simp add: message_wf_def)
qed

lemma build_reply_wf:
  assumes "config_wf cfg" and "length (m_chaddr req) = 16"
  shows "message_wf (build_reply cfg kind req lease)"
  using assms unfolding message_wf_def build_reply_def Let_def config_wf_def
  by (cases lease; cases "domain_name cfg") (simp_all add: set_option_if_wf set_option_wf DhcpMessage_new_def)

lemma from_bytes_chaddr: "DhcpMessage_from_bytes bs = Inr m \<Longrightarrow> length (m_chaddr m) = 16"
  by (auto simp: DhcpMessage_from_bytes_def Let_def slice_def map_sum_def split: if_splits option.splits sum.splits)

lemma process_reply_wf:
  assumes "process S now msg sv = (Inr (Some reply), sv')" and "config_wf (sv_config sv)" and "length (m_chaddr msg) = 16"
  shows "message_wf reply"
proof -
  have "\<exists>kind lease. reply = build_reply (sv_config sv) kind msg lease"
    using assms(1) by (auto simp: process_def Let_def split: option.splits MessageType.splits sum.splits prod.splits if_splits)
  then show ?thesis using build_reply_wf [OF assms(2, 3)] by blast
qed

text \<open>The loop of the server never fails to read back its own reply: every reply is sent.\<close>

lemma run_step_sends:
  assumes "config_wf (sv_config sv)" and "DhcpMessage_from_bytes (take 1500 packet) = Inr msg"
    and "process S now msg sv = (Inr (Some reply), sv')"
  shows "run_step S now packet sv = (Some (DhcpMessage_to_bytes reply, reply_dest reply), sv')"
  using message_round_trip [OF process_reply_wf [OF assms(3, 1) from_bytes_chaddr [OF assms(2)]]] assms(2, 3)
  by (simp add: run_step_def dhcp_process_bytes_def reply_dest_def)

abbreviation on_wire :: "DhcpMessage \<Rightarrow> DhcpMessage" where
  "on_wire m \<equiv> m\<lparr>m_sname := padded (m_sname m) 64, m_file := padded (m_file m) 128\<rparr>"

lemma accessors_wire [simp]:
  "find_option code (on_wire m) = find_option code m" "msg_mac (on_wire m) = msg_mac m"
  "message_type (on_wire m) = message_type m" "server_identifier (on_wire m) = server_identifier m"
  "requested_ip (on_wire m) = requested_ip m" "client_key (on_wire m) = client_key m" "target_ip (on_wire m) = target_ip m"
  "lease_time (on_wire m) = lease_time m" "renewal_time (on_wire m) = renewal_time m" "rebinding_time (on_wire m) = rebinding_time m"
  by (simp_all add: find_option_def msg_mac_def message_type_def server_identifier_def requested_ip_def client_key_def
      client_identifier_def target_ip_def lease_time_def renewal_time_def rebinding_time_def cong: option.case_cong)

lemma fields_wire:
  "m_htype (on_wire m) = m_htype m" "m_hlen (on_wire m) = m_hlen m" "m_hops (on_wire m) = m_hops m" "m_xid (on_wire m) = m_xid m"
  "m_flags (on_wire m) = m_flags m" "m_giaddr (on_wire m) = m_giaddr m" "m_chaddr (on_wire m) = m_chaddr m"
  "m_ciaddr (on_wire m) = m_ciaddr m" "m_yiaddr (on_wire m) = m_yiaddr m"
  by simp_all

lemma build_reply_wire: "build_reply cfg kind (on_wire m) lease = build_reply cfg kind m lease"
proof -
  have w: "wanted (on_wire m) = wanted m" by (rule ext) (simp add: wanted_def)
  show ?thesis unfolding build_reply_def w fields_wire ..
qed

lemma process_wire: "process S now (on_wire m) sv = process S now m sv"
  unfolding process_def accessors_wire fields_wire build_reply_wire ..

lemma process_bytes_wire:
  assumes "message_wf m"
  shows "dhcp_process_bytes S now (DhcpMessage_to_bytes m) sv =
    (let (r, sv) = process S now m sv in (map_sum id (map_option DhcpMessage_to_bytes) r, sv))"
  by (simp add: dhcp_process_bytes_def message_round_trip [OF assms] process_wire)

lemma receive_wire: "receive_offer (on_wire m) c = receive_offer m c" "receive_ack now (on_wire m) c = receive_ack now m c"
  unfolding receive_offer_def receive_ack_def accessors_wire fields_wire by (rule refl)+

text \<open>What the server reads in a request of the client, and the client in a reply to it.\<close>

definition identity :: "Client \<Rightarrow> bytes" where
  "identity c = (case c_client_id c of Some b \<Rightarrow> b | None \<Rightarrow> c_mac c)"

lemma build_request_find:
  "find_option code (build_request k b s r a c) =
     (if code = 55 then Some (ParameterRequestList [1, 3, 6, 15, 12])
      else if code = 61 \<and> c_client_id c \<noteq> None then map_option ClientIdentifier (c_client_id c)
      else if code = 50 \<and> r \<and> c_offered c \<noteq> None then map_option (RequestedIpAddress \<circ> o_ip) (c_offered c)
      else if code = 54 \<and> s \<and> (c_offered c \<noteq> None \<or> c_lease c \<noteq> None)
        then map_option ServerIdentifier (or_option (map_option o_server_id (c_offered c)) (map_option cl_server_id (c_lease c)))
      else if code = 53 then Some (MessageTypeOpt k) else None)"
proof -
  have base: "find_option code (set_chaddr x (DhcpMessage_new\<lparr>m_op := p\<rparr>)\<lparr>m_xid := y, m_flags := z, m_ciaddr := w\<rparr>) = None"
    for x p y z w by (simp add: find_option_def set_chaddr_def Let_def DhcpMessage_new_def)
  show ?thesis unfolding build_request_def Let_def find_set_option
    by (cases "c_offered c"; cases "c_lease c"; cases "c_client_id c")
      (simp_all add: find_set_option base or_option_def)
qed

lemma build_request_fields:
  assumes "length (c_mac c) = 6"
  shows "m_ciaddr (build_request k b s r a c) = a" and "m_xid (build_request k b s r a c) = c_xid c"
    and "length (m_chaddr (build_request k b s r a c)) = 16" and "msg_mac (build_request k b s r a c) = c_mac c"
  using assms unfolding build_request_def Let_def msg_mac_def
  by (cases "c_offered c"; cases "c_lease c"; cases "c_client_id c"; simp add: set_chaddr_def Let_def)+

lemma build_request_reads:
  assumes "client_wf c"
  shows "message_type (build_request k b s r a c) = Some k" and "client_key (build_request k b s r a c) = identity c"
    and "requested_ip (build_request k b s r a c) = (if r then map_option o_ip (c_offered c) else None)"
    and "server_identifier (build_request k b s r a c) =
      (if s then or_option (map_option o_server_id (c_offered c)) (map_option cl_server_id (c_lease c)) else None)"
  using assms build_request_fields(4) [of c]
  by (auto simp: message_type_def client_key_def client_identifier_def requested_ip_def server_identifier_def client_wf_def
      build_request_find or_option_def identity_def split: option.split)

lemma build_reply_reads:
  assumes "find_option 55 req = Some (ParameterRequestList [1, 3, 6, 15, 12])"
  shows "server_identifier (build_reply cfg kind req lease) = Some (server_ip cfg)" and "lease_time (build_reply cfg kind req lease) = None"
    and "renewal_time (build_reply cfg kind req lease) = None" and "rebinding_time (build_reply cfg kind req lease) = None"
    and "m_xid (build_reply cfg kind req lease) = m_xid req"
proof -
  have w: "\<not> wanted req 51" "\<not> wanted req 58" "\<not> wanted req 59" "wanted req 54" using assms by (simp_all add: wanted_def)
  have off: "set_option_if False opt m = m" for opt m by (simp add: set_option_if_def)
  have on: "set_option_if True opt m = set_option opt m" for opt m by (simp add: set_option_if_def)
  have none: "m_options m = [] \<Longrightarrow> find_option code m = None" for code m by (simp add: find_option_def)
  show "server_identifier (build_reply cfg kind req lease) = Some (server_ip cfg)" "lease_time (build_reply cfg kind req lease) = None"
      "renewal_time (build_reply cfg kind req lease) = None" "rebinding_time (build_reply cfg kind req lease) = None"
      "m_xid (build_reply cfg kind req lease) = m_xid req"
    unfolding server_identifier_def lease_time_def renewal_time_def rebinding_time_def build_reply_def Let_def
    by (cases lease; cases "domain_name cfg"; simp add: w off on none find_set_option_if find_set_option DhcpMessage_new_def)+
qed

section \<open>A client and a server together\<close>

text \<open>
  The exchange of DISCOVER, OFFER, REQUEST and ACK over the wire, as the example of
  \<^verbatim>\<open>lib.rs\<close> runs it: the server acts at \<open>t1\<close> and
  \<open>t2\<close>, the acknowledgement arrives at \<open>t3\<close>.
\<close>

definition handshake ::
    "('s, 'z) LeaseStore_scheme \<Rightarrow> nat \<Rightarrow> nat \<Rightarrow> nat \<Rightarrow> Client \<Rightarrow> 's Server \<Rightarrow> (Client \<times> 's Server) option" where
  "handshake S t1 t2 t3 c sv =
     (let (discover, c) = start_discover c
      in case dhcp_process_bytes S t1 (DhcpMessage_to_bytes discover) sv of
        (Inr (Some b), sv) \<Rightarrow>
          (case DhcpMessage_from_bytes b of
             Inr offer \<Rightarrow>
               (case receive_offer offer c of
                  (Some request, c) \<Rightarrow>
                    (case dhcp_process_bytes S t2 (DhcpMessage_to_bytes request) sv of
                       (Inr (Some b), sv) \<Rightarrow>
                         (case DhcpMessage_from_bytes b of
                            Inr ack \<Rightarrow> (case receive_ack t3 ack c of (Inr _, c) \<Rightarrow> Some (c, sv) | _ \<Rightarrow> None)
                          | Inl _ \<Rightarrow> None)
                     | _ \<Rightarrow> None)
                | _ \<Rightarrow> None)
           | Inl _ \<Rightarrow> None)
      | _ \<Rightarrow> None)"

text \<open>One exchange of a message and its reply.\<close>

lemma exchange:
  assumes "process S t msg sv = (Inr (Some (build_reply cfg kind msg lease)), sv')" and "message_wf msg" and "config_wf cfg"
  shows "\<exists>b. dhcp_process_bytes S t (DhcpMessage_to_bytes msg) sv = (Inr (Some b), sv') \<and>
    DhcpMessage_from_bytes b = Inr (on_wire (build_reply cfg kind msg lease))"
  using assms message_round_trip [OF build_reply_wf [OF assms(3)]]
  by (simp add: process_bytes_wire message_wf_def)

lemma start_discover_client:
  assumes "start_discover c = (m, c1)"
  shows "c_state c1 = Selecting" "c_mac c1 = c_mac c" "c_client_id c1 = c_client_id c" "m = build_request Discover True False False 0 c1"
    "c_offered c1 = None"
  using assms by (auto simp: start_discover_def alloc_xid_def Let_def)

text \<open>The offer the client notes when the reply has no times, as its parameter request list brings about.\<close>

abbreviation default_offer :: "PoolConfig \<Rightarrow> Lease \<Rightarrow> ClientOffer" where
  "default_offer cfg l \<equiv> \<lparr>o_ip = l_ip l, o_server_id = server_ip cfg, o_lease_time = 3600, o_renewal_time = 1800, o_rebinding_time = 3150\<rparr>"

lemma offered:
  assumes "client_wf c1" and "c_state c1 = Selecting" and "find_option 55 req = Some (ParameterRequestList [1, 3, 6, 15, 12])"
    and "m_xid req = c_xid c1" and "m_ciaddr req = 0" and "l_ip l \<noteq> 0"
  shows "receive_offer (build_reply cfg Offer req (Some l)) c1 =
    (Some (build_request Request True True True 0 (c1\<lparr>c_offered := Some (default_offer cfg l)\<rparr>)),
     c1\<lparr>c_offered := Some (default_offer cfg l), c_state := Requesting\<rparr>)"
  using assms(2-6) by (simp add: receive_offer_def build_reply_reads build_reply_type build_reply_yiaddr unwrap_or_else_def Let_def)

lemma acknowledged:
  assumes "c_state c = Requesting" and "c_offered c = Some offer" and "find_option 55 req = Some (ParameterRequestList [1, 3, 6, 15, 12])"
    and "m_xid req = c_xid c" and "m_ciaddr req = 0" and "l_ip l \<noteq> 0"
  shows "receive_ack t (build_reply cfg Ack req (Some l)) c =
    (Inr (), c\<lparr>c_lease := Some \<lparr>cl_ip = l_ip l, cl_server_id = server_ip cfg, cl_lease_time = o_lease_time offer,
       cl_renewal_time = o_renewal_time offer, cl_rebinding_time = o_rebinding_time offer, cl_obtained_at = t\<rparr>,
       c_offered := None, c_state := Bound\<rparr>)"
  using assms by (simp add: receive_ack_def build_reply_reads build_reply_type build_reply_yiaddr unwrap_or_else_def or_option_def Let_def)

lemma acquire_fields:
  assumes "acquire f \<lparr>a_client_id = i, a_mac = m, a_requested_ip = r, a_now = t\<rparr> st = (Inr l, st')"
  shows "leases st' (l_ip l) = Some l \<and> l_client_id l = i \<and> st_config st' = st_config st \<and> pool_of (st_config st) (l_ip l)"
proof -
  have ch: "l = make_lease f (prune t st) (l_ip l) i m t" "st' = (prune t st)\<lparr>leases := (leases (prune t st))(l_ip l \<mapsto> l)\<rparr>"
      "pool_of (st_config st) (l_ip l)"
    using acquire_chosen [OF assms] by simp_all
  show ?thesis using arg_cong [OF ch(1), of l_client_id] arg_cong [OF ch(2), of "\<lambda>s. leases s (l_ip l)"]
      arg_cong [OF ch(2), of st_config] ch(3) by (simp add: make_lease_def Let_def)
qed

lemma handshake_run:
  fixes t2 :: nat
  assumes "client_wf c" and "config_wf (sv_config sv)" and "st_config (sv_store sv) = sv_config sv" and "0 < pool_start (sv_config sv)"
    and "acquire f \<lparr>a_client_id = identity c, a_mac = c_mac c, a_requested_ip = 0, a_now = t1\<rparr> (sv_store sv) = (Inr l, st)"
  defines "cfg \<equiv> sv_config sv" and "c1 \<equiv> snd (start_discover c)" and "renewed \<equiv> make_lease f st (l_ip l) (identity c) (l_mac l) t2"
  shows "handshake (memory_store f) t1 t2 t3 c sv =
    Some (c1\<lparr>c_lease := Some \<lparr>cl_ip = l_ip l, cl_server_id = server_ip cfg, cl_lease_time = 3600, cl_renewal_time = 1800,
        cl_rebinding_time = 3150, cl_obtained_at = t3\<rparr>, c_offered := None, c_state := Bound\<rparr>,
      sv\<lparr>sv_store := st\<lparr>leases := (leases st)(l_ip l \<mapsto> renewed)\<rparr>\<rparr>)"
proof -
  let ?S = "memory_store f" and ?disc = "build_request Discover True False False 0 c1"
  let ?c2 = "c1\<lparr>c_offered := Some (default_offer cfg l)\<rparr>"
  let ?req = "build_request Request True True True 0 ?c2"
  have start: "start_discover c = (?disc, c1)" and sel: "c_state c1 = Selecting"
    using start_discover_client [of c] c1_def by (metis prod.collapse)+
  have wf1: "client_wf c1" "identity c1 = identity c" "c_mac c1 = c_mac c" "length (c_mac c1) = 6"
    using start_discover_client [OF start] assms(1) by (simp_all add: client_wf_def identity_def cong: option.case_cong)
  then have wf2: "client_wf ?c2" "identity ?c2 = identity c" "length (c_mac ?c2) = 6" by (simp_all add: client_wf_def identity_def cong: option.case_cong)
  note l = acquire_fields [OF assms(5)]
  have ip: "l_ip l \<noteq> 0" using l assms(3, 4) by auto
  have p1: "process ?S t1 ?disc sv = (Inr (Some (build_reply cfg Offer ?disc (Some l))), sv\<lparr>sv_store := st\<rparr>)"
    unfolding cfg_def using assms(5) wf1 by (intro process_discover) (simp_all add: build_request_reads build_request_fields)
  have p2: "process ?S t2 ?req (sv\<lparr>sv_store := st\<rparr>) =
      (Inr (Some (build_reply cfg Ack ?req (Some renewed))), sv\<lparr>sv_store := st\<lparr>leases := (leases st)(l_ip l \<mapsto> renewed)\<rparr>\<rparr>)"
    using process_request [of ?req "sv\<lparr>sv_store := st\<rparr>" ?S t2 renewed "st\<lparr>leases := (leases st)(l_ip l \<mapsto> renewed)\<rparr>"] wf2 ip l
    by (simp add: build_request_reads target_ip_def or_option_def cfg_def confirm_def renewed_def Let_def)
  obtain b1 where b1: "dhcp_process_bytes ?S t1 (DhcpMessage_to_bytes ?disc) sv = (Inr (Some b1), sv\<lparr>sv_store := st\<rparr>)"
      "DhcpMessage_from_bytes b1 = Inr (on_wire (build_reply cfg Offer ?disc (Some l)))"
    using exchange [OF p1 build_request_wf [OF wf1(1)]] assms(2) cfg_def by blast
  obtain b2 where b2: "dhcp_process_bytes ?S t2 (DhcpMessage_to_bytes ?req) (sv\<lparr>sv_store := st\<rparr>) =
        (Inr (Some b2), sv\<lparr>sv_store := st\<lparr>leases := (leases st)(l_ip l \<mapsto> renewed)\<rparr>\<rparr>)"
      "DhcpMessage_from_bytes b2 = Inr (on_wire (build_reply cfg Ack ?req (Some renewed)))"
    using exchange [OF p2 build_request_wf [OF wf2(1)]] assms(2) cfg_def by blast
  have off: "receive_offer (build_reply cfg Offer ?disc (Some l)) c1 = (Some ?req, ?c2\<lparr>c_state := Requesting\<rparr>)"
    using offered [OF wf1(1) sel, of ?disc l cfg] ip wf1 by (simp add: build_request_find build_request_fields)
  have ren: "l_ip renewed = l_ip l" by (simp add: renewed_def make_lease_def Let_def)
  have ack: "receive_ack t3 (build_reply cfg Ack ?req (Some renewed)) (?c2\<lparr>c_state := Requesting\<rparr>) =
      (Inr (), c1\<lparr>c_lease := Some \<lparr>cl_ip = l_ip l, cl_server_id = server_ip cfg, cl_lease_time = 3600, cl_renewal_time = 1800,
        cl_rebinding_time = 3150, cl_obtained_at = t3\<rparr>, c_offered := None, c_state := Bound\<rparr>)"
    using acknowledged [of "?c2\<lparr>c_state := Requesting\<rparr>" "default_offer cfg l" ?req renewed t3 cfg] ip ren wf2
    by (simp add: build_request_find build_request_fields)
  show ?thesis unfolding handshake_def start Let_def prod.case b1 sum.case option.case receive_wire off b2 ack ..
qed

lemma scan_pool_complete:
  "available st i t a \<Longrightarrow> ip \<le> a \<Longrightarrow> unat a < unat ip + k \<Longrightarrow> unat ip + k \<le> 2 ^ 32 \<Longrightarrow> scan_pool k st i t ip \<noteq> None"
proof (induction k arbitrary: ip)
  case (Suc k)
  show ?case
  proof (cases "ip = a")
    case False
    then have "unat ip < unat a" using Suc.prems(2) by (metis le_less unat_mono)
    then have n: "unat (ip + 1) = Suc (unat ip)" using unat_less_power [of a] by (simp add: unat_word_ariths)
    then show ?thesis using Suc.IH [of "ip + 1"] Suc.prems \<open>unat ip < unat a\<close> by (simp add: word_le_nat_alt)
  qed (use Suc.prems in simp)
qed (simp add: word_le_nat_alt)

lemma acquire_succeeds:
  assumes "available (prune t st) i t a" and "pool_of (st_config st) a"
  shows "\<exists>l st'. acquire f \<lparr>a_client_id = i, a_mac = m, a_requested_ip = 0, a_now = t\<rparr> st = (Inr l, st')"
proof -
  let ?c = "st_config st"
  have "unat (pool_start ?c) \<le> unat (pool_end ?c)" "unat a \<le> unat (pool_end ?c)" "unat (pool_end ?c) < 2 ^ 32"
    using assms(2) unat_less_power [of "pool_end ?c"] by (auto simp: word_le_nat_alt)
  then obtain ip where "scan_pool (Suc (unat (pool_end ?c)) - unat (pool_start ?c)) (prune t st) i t (pool_start ?c) = Some ip"
    using scan_pool_complete [OF assms(1), of "pool_start ?c"] assms(2) by fastforce
  then show ?thesis using acquire_scan [of "\<lparr>a_client_id = i, a_mac = m, a_requested_ip = 0, a_now = t\<rparr>" _ st ip f] by auto
qed

text \<open>
  C21: If the pool has an address that is free for the client, then a DISCOVER, OFFER, REQUEST and ACK exchanged over
  the wire bind the client: it ends up bound to an address of the pool with the server's identifier, and the server
  holds that address for this client for the configured duration from the REQUEST on. It does not matter which
  leases of others, live or expired, the server starts with.
\<close>

theorem dhcp_handshake_binds:
  assumes "client_wf c" and "config_wf (sv_config sv)" and "st_config (sv_store sv) = sv_config sv" and "0 < pool_start (sv_config sv)"
    and "pool_of (sv_config sv) a" and "available (prune t1 (sv_store sv)) (identity c) t1 a"
  shows "\<exists>c' sv' lease. handshake (memory_store mul_f64) t1 t2 t3 c sv = Some (c', sv') \<and> c_state c' = Bound \<and> c_lease c' = Some lease \<and>
    pool_of (sv_config sv) (cl_ip lease) \<and> cl_server_id lease = server_ip (sv_config sv) \<and> cl_obtained_at lease = t3 \<and>
    mem_held (sv_store sv') (cl_ip lease) = Some (identity c, t2 + lease_duration (sv_config sv))"
proof -
  obtain l st where l: "acquire mul_f64 \<lparr>a_client_id = identity c, a_mac = c_mac c, a_requested_ip = 0, a_now = t1\<rparr> (sv_store sv) = (Inr l, st)"
    using acquire_succeeds assms(3, 5, 6) by metis
  note run = handshake_run [OF assms(1-4) l, of t2 t3]
  show ?thesis using acquire_fields [OF l] assms(3) by (simp add: run mem_held_def make_lease_def Let_def)
qed

definition sample_client :: Client where
  "sample_client = Client_new [1, 2, 3, 4, 5, 6] 7"

lemma sample_peers_wf: "client_wf sample_client" "config_wf sample_pool" "identity sample_client = [1, 2, 3, 4, 5, 6]"
  by (simp_all add: sample_client_def Client_new_def client_wf_def identity_def sample_pool_def config_wf_def)

theorem dhcp_handshake_binds_witness:
  "\<exists>c' sv'. handshake (memory_store (\<lambda>d _. d)) 0 1 2 sample_client (Server_new sample_pool) = Some (c', sv') \<and> c_state c' = Bound \<and>
    (\<exists>ip. mem_held (sv_store sv') ip = Some ([1, 2, 3, 4, 5, 6], 3601) \<and> 10 \<le> ip \<and> ip \<le> 12)"
  using dhcp_handshake_binds [of sample_client "Server_new sample_pool" 10 0 "\<lambda>d _. d" 1 2] sample_peers_wf
  by (auto simp: Server_new_def MemoryLeaseStore_new_def sample_pool_def available_def prune_def is_declined_def)

text \<open>
  C40: The client may go on using an address after the server has given it to somebody else. The client's parameter
  request list does not name the lease time, the server leaves out every option that is not named, and the client then
  assumes an hour. So with a shorter configured lease there are times at which the client, bound by
  the exchange with a new server, takes its lease for valid while the server offers the address to whoever asks for it.
\<close>

theorem dhcp_lease_time_lost:
  assumes "client_wf c" and "config_wf cfg" and "0 < pool_start cfg" and "pool_start cfg \<le> pool_end cfg"
    and "message_type m = Some Discover" and "requested_ip m = Some (pool_start cfg)" and "m_ciaddr m = 0"
    and "t2 + lease_duration cfg \<le> t" and "t < t3 + 3600 * 10 ^ 9"
  shows "\<exists>c' sv' lease. handshake (memory_store mul_f64) t1 t2 t3 c (Server_new cfg) = Some (c', sv') \<and> c_state c' = Bound \<and>
    c_lease c' = Some lease \<and> cl_ip lease = pool_start cfg \<and> \<not> client_lease_is_expired lease t \<and>
    granted m (fst (process (memory_store mul_f64) t m sv')) = Some (pool_start cfg)"
proof -
  let ?sv = "Server_new cfg" and ?ip = "pool_start cfg"
  let ?r = "\<lparr>a_client_id = identity c, a_mac = c_mac c, a_requested_ip = 0, a_now = t1\<rparr>"
  have sv: "sv_config ?sv = cfg" "sv_store ?sv = MemoryLeaseStore_new cfg" "st_config (MemoryLeaseStore_new cfg) = cfg"
    by (simp_all add: Server_new_def MemoryLeaseStore_new_def)
  have free: "available (prune t1 (MemoryLeaseStore_new cfg)) i t1 a" for i a
    by (simp add: available_def prune_def MemoryLeaseStore_new_def is_declined_def)
  have "Suc (unat (pool_end cfg)) - unat ?ip = Suc (unat (pool_end cfg) - unat ?ip)" using assms(4) by (simp add: Suc_diff_le word_le_nat_alt)
  then obtain l st where l: "acquire mul_f64 ?r (sv_store ?sv) = (Inr l, st)" "l_ip l = ?ip"
    using acquire_scan [of ?r _ "MemoryLeaseStore_new cfg" ?ip mul_f64] free by (auto simp: sv)
  define st2 where "st2 = st\<lparr>leases := (leases st)(?ip \<mapsto> make_lease mul_f64 st ?ip (identity c) (l_mac l) t2)\<rparr>"
  have run: "\<exists>c' lease. handshake (memory_store mul_f64) t1 t2 t3 c ?sv = Some (c', ?sv\<lparr>sv_store := st2\<rparr>) \<and> c_state c' = Bound \<and>
      c_lease c' = Some lease \<and> cl_ip lease = ?ip \<and> \<not> client_lease_is_expired lease t"
    using handshake_run [OF assms(1) _ _ _ l(1), of t2 t3] assms(2, 3, 9) l(2)
    by (simp add: sv st2_def client_lease_is_expired_def past_def)
  have pos: "?ip \<noteq> 0" using assms(3) by (simp add: word_gt_0)
  have conf: "st_config st2 = cfg" using acquire_fields [OF l(1)] sv by (simp add: st2_def)
  have "declined st a = None" for a
    using acquire_chosen [OF l(1)] by (auto simp: sv MemoryLeaseStore_new_def prune_def)
  then have "available (prune t st2) i t ?ip" for i
    using assms(8) acquire_fields [OF l(1)] sv
    by (simp add: available_def prune_def st2_def is_declined_def lease_is_expired_def make_lease_def Let_def)
  then obtain l' st' where "acquire mul_f64 \<lparr>a_client_id = client_key m, a_mac = msg_mac m, a_requested_ip = ?ip, a_now = t\<rparr> st2 = (Inr l', st')"
      "l_ip l' = ?ip"
    using acquire_requested [of "\<lparr>a_client_id = client_key m, a_mac = msg_mac m, a_requested_ip = ?ip, a_now = t\<rparr>" st2 mul_f64]
      pos assms(4) conf by auto
  then have "granted m (fst (process (memory_store mul_f64) t m (?sv\<lparr>sv_store := st2\<rparr>))) = Some ?ip"
    using process_discover [of m "memory_store mul_f64" t "?sv\<lparr>sv_store := st2\<rparr>" l' st'] pos assms(5-7)
    by (auto simp: granted_def build_reply_type build_reply_yiaddr)
  then show ?thesis using run by blast
qed

theorem dhcp_lease_time_lost_witness:
  "\<exists>c' sv' lease. handshake (memory_store (\<lambda>d _. d)) 0 1 2 sample_client (Server_new sample_pool) = Some (c', sv') \<and>
    c_lease c' = Some lease \<and> cl_ip lease = 10 \<and> \<not> client_lease_is_expired lease 5000 \<and>
    granted (dhcp_msg [2] Discover 0 [RequestedIpAddress 10])
      (fst (process (memory_store (\<lambda>d _. d)) 5000 (dhcp_msg [2] Discover 0 [RequestedIpAddress 10]) sv')) = Some 10"
proof -
  have "requested_ip (dhcp_msg [2] Discover 0 [RequestedIpAddress 10]) = Some 10"
    by (simp add: requested_ip_def find_option_def dhcp_msg_def)
  moreover have "pool_start sample_pool = 10" "pool_end sample_pool = 12" "lease_duration sample_pool = 3600" by (simp_all add: sample_pool_def)
  ultimately show ?thesis
    using dhcp_lease_time_lost [OF sample_peers_wf(1, 2), of "dhcp_msg [2] Discover 0 [RequestedIpAddress 10]" 1 5000 2 "\<lambda>d _. d" 0] by auto
qed

end
