(* ===== verification/Sieve_Match.thy ===== *)
theory Sieve_Match
  imports Prelude
begin

text \<open>
  String comparison of \<^verbatim>\<open>tpt-sieve/src/evaluator.rs\<close>: comparators, match types, the wildcard matcher and the
  extraction of mail addresses. Characters are those up to U+00FF. Main result: the iterative matcher with one
  backtrack point decides the usual recursive meaning of a pattern.
\<close>

section \<open>Characters and strings of the standard library\<close>

definition ascii_lower :: "char \<Rightarrow> char" where
  "ascii_lower c = (if 65 \<le> (of_char c :: nat) \<and> (of_char c :: nat) \<le> 90 then char_of ((of_char c :: nat) + 32) else c)"

abbreviation to_ascii_lowercase :: "string \<Rightarrow> string" where
  "to_ascii_lowercase s \<equiv> map ascii_lower s"

definition eq_ignore_ascii_case :: "string \<Rightarrow> string \<Rightarrow> bool" where
  "eq_ignore_ascii_case a b \<longleftrightarrow> to_ascii_lowercase a = to_ascii_lowercase b"

definition is_whitespace :: "char \<Rightarrow> bool" where
  "is_whitespace c \<longleftrightarrow> (of_char c :: nat) \<in> {9, 10, 11, 12, 13, 32, 133, 160}"

definition trim :: "string \<Rightarrow> string" where
  "trim s = rev (dropWhile is_whitespace (rev (dropWhile is_whitespace s)))"

text \<open>\<open>str::find\<close> of a character: the text before and after its first occurrence.\<close>

definition split_at :: "char \<Rightarrow> string \<Rightarrow> (string \<times> string) option" where
  "split_at c s = (if c \<in> set s then Some (takeWhile (\<lambda>x. x \<noteq> c) s, tl (dropWhile (\<lambda>x. x \<noteq> c) s)) else None)"

text \<open>\<open>str::split\<close> on a character and \<open>str::contains\<close> of a string.\<close>

fun split_on :: "char \<Rightarrow> string \<Rightarrow> string list" where
  "split_on c [] = [[]]"
| "split_on c (x # xs) =
     (if x = c then [] # split_on c xs
      else case split_on c xs of p # ps \<Rightarrow> (x # p) # ps | [] \<Rightarrow> [[x]])"

fun contains :: "string \<Rightarrow> string \<Rightarrow> bool" where
  "contains s k = (take (length k) s = k \<or> (case s of [] \<Rightarrow> False | _ # s' \<Rightarrow> contains s' k))"

declare contains.simps [simp del]

section \<open>The wildcard matcher\<close>

function glob_loop :: "string \<Rightarrow> string \<Rightarrow> nat \<Rightarrow> nat \<Rightarrow> nat option \<Rightarrow> nat option \<Rightarrow> bool" where
  "glob_loop t p ti pi star_t star_p =
     (if ti < length t then
        if pi < length p \<and> p ! pi = CHR ''*'' then glob_loop t p ti (pi + 1) (Some ti) (Some pi)
        else if pi < length p \<and> (p ! pi = CHR ''?'' \<or> p ! pi = t ! ti) then glob_loop t p (ti + 1) (pi + 1) star_t star_p
        else (case (star_p, star_t) of
            (Some sp, Some st) \<Rightarrow> glob_loop t p (st + 1) (sp + 1) (Some (st + 1)) (Some sp)
          | _ \<Rightarrow> False)
      else dropWhile (\<lambda>c. c = CHR ''*'') (drop pi p) = [])"
  by pat_completeness auto

termination
  by (relation "measures [\<lambda>(t, p, ti, pi, st, sp). Suc (length t) - min (case st of None \<Rightarrow> 0 | Some s \<Rightarrow> s) ti,
    \<lambda>(t, p, ti, pi, st, sp). (length t - ti) + (length p - pi)]")
    (auto split: option.splits)

declare glob_loop.simps [simp del]

definition glob_match :: "string \<Rightarrow> string \<Rightarrow> bool" where
  "glob_match text pattern = glob_loop text pattern 0 0 None None"

text \<open>The meaning of a pattern, on the pattern and the text that are left.\<close>

fun glob :: "string \<Rightarrow> string \<Rightarrow> bool" where
  "glob [] t = (t = [])"
| "glob (c # p) t =
     (if c = CHR ''*'' then \<exists>k\<le>length t. glob p (drop k t)
      else case t of [] \<Rightarrow> False | x # t' \<Rightarrow> (c = CHR ''?'' \<or> c = x) \<and> glob p t')"

lemma glob_literal:
  assumes "CHR ''*'' \<notin> set q" and "glob (q @ r) t"
  shows "length q \<le> length t \<and> glob r (drop (length q) t)"
  using assms by (induction q arbitrary: t) (auto split: list.splits)

lemma glob_star_more: "glob (CHR ''*'' # r) (drop j t) \<Longrightarrow> i \<le> j \<Longrightarrow> glob (CHR ''*'' # r) (drop i t)"
proof -
  assume "glob (CHR ''*'' # r) (drop j t)" and ij: "i \<le> j"
  then obtain k where k: "k \<le> length t - j" "glob r (drop (k + j) t)" by auto
  show ?thesis
  proof (cases "j \<le> length t")
    case True
    then show ?thesis using k ij by (auto intro!: exI [of _ "k + (j - i)"] simp: add.commute)
  next
    case False
    then have "glob r (drop (length t) t)" using k by simp
    then show ?thesis using ij by (auto intro!: exI [of _ "length t - i"])
  qed
qed

lemma glob_empty: "glob p [] \<longleftrightarrow> dropWhile (\<lambda>c. c = CHR ''*'') p = []"
  by (induction p) auto

text \<open>
  What the loop keeps: since the last star, the pattern has no further star and has matched as many characters as were
  read. The texts that a retry could still try are those after the place of the last retry.
\<close>

definition glob_inv :: "string \<Rightarrow> string \<Rightarrow> nat \<Rightarrow> nat \<Rightarrow> nat \<Rightarrow> nat \<Rightarrow> bool" where
  "glob_inv t p ti pi st sp \<longleftrightarrow> sp < pi \<and> pi \<le> length p \<and> st \<le> ti \<and> ti \<le> length t \<and> pi - Suc sp = ti - st \<and>
     CHR ''*'' \<notin> set (take (pi - Suc sp) (drop (Suc sp) p))"

definition retry :: "string \<Rightarrow> string \<Rightarrow> nat \<Rightarrow> nat \<Rightarrow> bool" where
  "retry t p st sp \<longleftrightarrow> (\<exists>k. st < k \<and> k \<le> length t \<and> glob (drop (Suc sp) p) (drop k t))"

lemma retry_reads:
  assumes "glob_inv t p ti pi st sp" and "retry t p st sp"
  shows "\<exists>k. ti < k \<and> k \<le> length t \<and> glob (drop pi p) (drop k t)"
proof -
  let ?q = "take (pi - Suc sp) (drop (Suc sp) p)"
  obtain k where k: "st < k" "k \<le> length t" "glob (drop (Suc sp) p) (drop k t)" using assms(2) by (auto simp: retry_def)
  have i: "Suc sp \<le> pi" "pi \<le> length p" "st \<le> ti" "pi - Suc sp = ti - st" "CHR ''*'' \<notin> set ?q" using assms(1) by (auto simp: glob_inv_def)
  have "drop (Suc sp) p = ?q @ drop pi p" using i(1) append_take_drop_id [of "pi - Suc sp" "drop (Suc sp) p"] by simp
  moreover have "length ?q = ti - st" using i by simp
  ultimately have "ti - st \<le> length (drop k t)" "glob (drop pi p) (drop (ti - st) (drop k t))"
    using glob_literal [OF i(5), of "drop pi p" "drop k t"] k(3) by auto
  then show ?thesis using k i(3) by (auto intro!: exI [of _ "ti - st + k"])
qed

definition star_retry :: "string \<Rightarrow> string \<Rightarrow> nat option \<Rightarrow> nat option \<Rightarrow> bool" where
  "star_retry t p star_t star_p = (case (star_p, star_t) of (Some sp, Some st) \<Rightarrow> retry t p st sp | _ \<Rightarrow> False)"

definition star_inv :: "string \<Rightarrow> string \<Rightarrow> nat \<Rightarrow> nat \<Rightarrow> nat option \<Rightarrow> nat option \<Rightarrow> bool" where
  "star_inv t p ti pi star_t star_p \<longleftrightarrow> ti \<le> length t \<and> pi \<le> length p \<and>
     (case (star_p, star_t) of (Some sp, Some st) \<Rightarrow> glob_inv t p ti pi st sp | (None, None) \<Rightarrow> True | _ \<Rightarrow> False)"

lemma star_retry_reads:
  "star_inv t p ti pi star_t star_p \<Longrightarrow> star_retry t p star_t star_p \<Longrightarrow> \<exists>k. ti < k \<and> k \<le> length t \<and> glob (drop pi p) (drop k t)"
  by (auto simp: star_inv_def star_retry_def split: option.splits dest: retry_reads)

lemma star_inv_step:
  assumes "star_inv t p ti pi star_t star_p" and "ti < length t" and "pi < length p" and "p ! pi \<noteq> CHR ''*''"
  shows "star_inv t p (ti + 1) (pi + 1) star_t star_p"
proof -
  have "take (pi + 1 - Suc sp) (drop (Suc sp) p) = take (pi - Suc sp) (drop (Suc sp) p) @ [p ! pi]" if "sp < pi" for sp
    using that assms(3) take_Suc_conv_app_nth [of "pi - Suc sp" "drop (Suc sp) p"] by (simp add: Suc_diff_Suc)
  then show ?thesis using assms by (auto simp: star_inv_def glob_inv_def split: option.splits)
qed

lemma glob_drop: "pi < length p \<Longrightarrow> glob (drop pi p) = glob (p ! pi # drop (Suc pi) p)"
  by (simp add: Cons_nth_drop_Suc)

lemma retry_next: "st < length t \<Longrightarrow> retry t p st sp \<longleftrightarrow> glob (drop (sp + 1) p) (drop (st + 1) t) \<or> retry t p (st + 1) sp"
  unfolding retry_def by (metis Suc_eq_plus1 Suc_leI Suc_lessD Suc_lessI lessI)

lemma star_or_retry:
  assumes "ti \<le> length t"
  shows "glob (CHR ''*'' # drop (Suc pi) p) (drop ti t) \<longleftrightarrow> glob (drop (Suc pi) p) (drop ti t) \<or> retry t p ti pi"
proof -
  have "glob (CHR ''*'' # drop (Suc pi) p) (drop ti t) \<longleftrightarrow> (\<exists>k. ti \<le> k \<and> k \<le> length t \<and> glob (drop (Suc pi) p) (drop k t))"
    using assms by (auto simp: le_diff_conv2 intro: le_add2) (metis diff_add diff_le_mono)
  also have "\<dots> \<longleftrightarrow> glob (drop (Suc pi) p) (drop ti t) \<or> retry t p ti pi"
    using assms by (auto simp: retry_def le_less)
  finally show ?thesis .
qed

lemma glob_loop_correct:
  "star_inv t p ti pi star_t star_p \<Longrightarrow>
    glob_loop t p ti pi star_t star_p \<longleftrightarrow> glob (drop pi p) (drop ti t) \<or> star_retry t p star_t star_p"
proof (induction t p ti pi star_t star_p rule: glob_loop.induct)
  case (1 t p ti pi star_t star_p)
  note inv = "1.prems" and unfold = glob_loop.simps [of t p ti pi star_t star_p]
  have le: "ti \<le> length t" "pi \<le> length p" using inv by (auto simp: star_inv_def)
  consider (finished) "ti = length t" | (star) "ti < length t" "pi < length p" "p ! pi = CHR ''*''"
    | (one) "ti < length t" "pi < length p" "p ! pi \<noteq> CHR ''*''" "p ! pi = CHR ''?'' \<or> p ! pi = t ! ti"
    | (retreat) "ti < length t" "\<not> (pi < length p \<and> (p ! pi = CHR ''*'' \<or> p ! pi = CHR ''?'' \<or> p ! pi = t ! ti))"
    using le(1) by (meson le_less)
  then show ?case
  proof cases
    case finished
    then have "\<not> star_retry t p star_t star_p" using star_retry_reads [OF inv] by auto
    moreover have "glob_loop t p ti pi star_t star_p \<longleftrightarrow> glob (drop pi p) []" unfolding unfold using finished by (simp add: glob_empty)
    ultimately show ?thesis using finished by simp
  next
    case star
    have "star_inv t p ti (pi + 1) (Some ti) (Some pi)" using star by (simp add: star_inv_def glob_inv_def)
    then have "glob_loop t p ti pi star_t star_p \<longleftrightarrow> glob (drop (pi + 1) p) (drop ti t) \<or> retry t p ti pi"
      unfolding unfold using "1.IH"(1) star by (simp add: star_retry_def)
    also have "\<dots> \<longleftrightarrow> glob (CHR ''*'' # drop (Suc pi) p) (drop ti t)"
      using star_or_retry [OF le(1)] by simp
    finally have main: "glob_loop t p ti pi star_t star_p \<longleftrightarrow> glob (drop pi p) (drop ti t)" using star by (simp add: glob_drop)
    have "glob (drop pi p) (drop ti t)" if r: "star_retry t p star_t star_p"
    proof -
      obtain k where k: "ti < k" "glob (drop pi p) (drop k t)" using star_retry_reads [OF inv r] by blast
      have eq: "glob (drop pi p) = glob (CHR ''*'' # drop (Suc pi) p)" using star by (simp only: glob_drop)
      show ?thesis using k(2) unfolding eq by (rule glob_star_more) (use k(1) in simp)
    qed
    then show ?thesis using main by blast
  next
    case one
    have "drop ti t = t ! ti # drop (Suc ti) t" using one(1) by (simp add: Cons_nth_drop_Suc)
    then have "glob (drop pi p) (drop ti t) \<longleftrightarrow> glob (drop (pi + 1) p) (drop (ti + 1) t)" using one by (auto simp: glob_drop)
    moreover have "glob_loop t p ti pi star_t star_p = glob_loop t p (ti + 1) (pi + 1) star_t star_p" unfolding unfold using one by simp
    ultimately show ?thesis using "1.IH"(2) star_inv_step [OF inv one(1-3)] one by simp
  next
    case retreat
    then have no: "\<not> glob (drop pi p) (drop ti t)"
      using le Cons_nth_drop_Suc [OF retreat(1)] by (cases "pi < length p") (auto simp: glob_drop split: list.splits)
    show ?thesis
    proof (cases "star_p = None \<or> star_t = None")
      case True
      then show ?thesis unfolding unfold using retreat no by (auto simp: star_retry_def split: option.splits)
    next
      case False
      then obtain sp st where s: "star_p = Some sp" "star_t = Some st" by auto
      then have g: "glob_inv t p ti pi st sp" using inv by (simp add: star_inv_def)
      then have "star_inv t p (st + 1) (sp + 1) (Some (st + 1)) (Some sp)" and lt: "st < length t"
        using retreat(1) by (auto simp: star_inv_def glob_inv_def)
      then have "glob_loop t p ti pi star_t star_p \<longleftrightarrow> glob (drop (sp + 1) p) (drop (st + 1) t) \<or> retry t p (st + 1) sp"
        unfolding unfold using "1.IH"(3) retreat s by (auto simp: star_retry_def)
      then show ?thesis using no s retry_next [OF lt] by (simp add: star_retry_def)
    qed
  qed
qed

section \<open>Comparators and match types\<close>

datatype Comparator = AsciiCasemap | Octet

datatype MatchType = Is | Contains | Matches

definition string_matches :: "Comparator \<Rightarrow> MatchType \<Rightarrow> string \<Rightarrow> string \<Rightarrow> bool" where
  "string_matches comparator mt val key =
     (case comparator of
        AsciiCasemap \<Rightarrow>
          let v = to_ascii_lowercase val; k = to_ascii_lowercase key
          in (case mt of Is \<Rightarrow> v = k | Contains \<Rightarrow> contains v k | Matches \<Rightarrow> glob_match v k)
      | Octet \<Rightarrow> (case mt of Is \<Rightarrow> val = key | Contains \<Rightarrow> contains val key | Matches \<Rightarrow> glob_match val key))"

definition any_match :: "string list \<Rightarrow> string list \<Rightarrow> Comparator \<Rightarrow> MatchType \<Rightarrow> bool" where
  "any_match sources keys comparator mt =
     list_ex (\<lambda>v. list_ex (\<lambda>k. string_matches comparator mt v k) keys) sources"

lemma contains_iff: "contains s k \<longleftrightarrow> (\<exists>a b. s = a @ k @ b)"
proof (induction s)
  case Nil
  then show ?case by (auto simp: contains.simps [of "[]"])
next
  case (Cons x s)
  have "take (length k) (x # s) = k \<longleftrightarrow> (\<exists>b. x # s = k @ b)"
    by (metis append_eq_conv_conj append_take_drop_id)
  then show ?case using Cons by (auto simp: contains.simps [of "x # s"] Cons_eq_append_conv)
qed

lemma glob_match_iff: "glob_match t p \<longleftrightarrow> glob p t"
  using glob_loop_correct [of t p 0 0 None None] by (simp add: glob_match_def star_inv_def star_retry_def)

text \<open>
  C19: Comparison of a value with a key means what the script says: both are lower-cased first unless the comparator is
  \<open>i;octet\<close>, then \<open>:is\<close> is equality, \<open>:contains\<close> is occurrence as a substring, and \<open>:matches\<close> holds iff the value can be split along the
  pattern, each star taking any number of characters and each question mark exactly one. In particular the matcher
  with its single backtrack point misses no way to match.
\<close>

theorem sieve_string_matches:
  "string_matches comparator mt val key \<longleftrightarrow>
    (let f = (case comparator of AsciiCasemap \<Rightarrow> map ascii_lower | Octet \<Rightarrow> (\<lambda>s. s))
     in case mt of
          Is \<Rightarrow> f val = f key
        | Contains \<Rightarrow> \<exists>a b. f val = a @ f key @ b
        | Matches \<Rightarrow> glob (f key) (f val))"
  by (cases comparator; cases mt) (simp_all add: string_matches_def contains_iff glob_match_iff Let_def)

section \<open>Mail addresses\<close>

lemma split_at_length: "split_at c s = Some (a, b) \<Longrightarrow> length b < length s"
proof -
  assume s: "split_at c s = Some (a, b)"
  then have "c \<in> set s" "b = tl (dropWhile (\<lambda>x. x \<noteq> c) s)" by (auto simp: split_at_def split: if_splits)
  moreover from this have "dropWhile (\<lambda>x. x \<noteq> c) s \<noteq> []" by (auto simp: dropWhile_eq_Nil_conv)
  ultimately show ?thesis using length_dropWhile_le [of "\<lambda>x. x \<noteq> c" s] by (cases "dropWhile (\<lambda>x. x \<noteq> c) s") auto
qed

text \<open>The parts of a header value between angle brackets.\<close>

function angle_parts :: "string \<Rightarrow> string list" where
  "angle_parts rest =
     (case split_at (CHR ''<'') rest of
        None \<Rightarrow> []
      | Some (_, after) \<Rightarrow>
          (case split_at (CHR ''>'') after of
             None \<Rightarrow> []
           | Some (cand, rest') \<Rightarrow> cand # angle_parts rest'))"
  by pat_completeness auto

termination
  by (relation "measure length") (auto dest!: split_at_length)

declare angle_parts.simps [simp del]

definition unquote :: "string \<Rightarrow> string" where
  "unquote local =
     (if take 1 local = [CHR 0x22] \<and> local \<noteq> [] \<and> last local = CHR 0x22 \<and> 2 \<le> length local then butlast (tl local) else local)"

definition normalize_addr :: "string \<Rightarrow> string \<Rightarrow> (string \<times> string) option" where
  "normalize_addr local domain =
     (let local = unquote (trim local); domain = trim domain
      in if local = [] \<or> domain = [] \<or> CHR ''.'' \<notin> set domain then None else Some (local, domain))"

definition extract_addresses :: "string \<Rightarrow> (string \<times> string) list" where
  "extract_addresses val =
     (let candidates = angle_parts val;
          candidates = (if candidates = [] then filter (\<lambda>part. part \<noteq> []) (map trim (split_on (CHR '','') val)) else candidates)
      in concat (map (\<lambda>cand.
           case split_at (CHR ''@'') cand of
             Some (local, domain) \<Rightarrow> (case normalize_addr local domain of Some parsed \<Rightarrow> [parsed] | None \<Rightarrow> [])
           | None \<Rightarrow> []) candidates))"

text \<open>A plain address, alone or in angle brackets after a display name, is extracted as it is.\<close>

definition plain :: "string \<Rightarrow> bool" where
  "plain s \<longleftrightarrow> s \<noteq> [] \<and> list_all (\<lambda>c. \<not> is_whitespace c \<and> c \<notin> set ''<>@,'' \<and> c \<noteq> CHR 0x22) s"

lemma split_at_first: "c \<notin> set a \<Longrightarrow> split_at c (a @ c # b) = Some (a, b)"
proof -
  assume "c \<notin> set a"
  then have "takeWhile (\<lambda>x. x \<noteq> c) (a @ c # b) = a" "dropWhile (\<lambda>x. x \<noteq> c) (a @ c # b) = c # b" by (induction a) auto
  then show ?thesis by (simp add: split_at_def)
qed

lemma trim_plain: "plain s \<Longrightarrow> trim s = s"
proof -
  assume "plain s"
  then have "\<not> is_whitespace (hd s)" "\<not> is_whitespace (last s)" "s \<noteq> []"
    by (auto simp: plain_def list_all_iff)
  moreover from this have "dropWhile is_whitespace s = s" by (cases s) simp_all
  ultimately show ?thesis by (cases "rev s") (simp_all add: trim_def hd_rev [symmetric])
qed

lemma normalize_plain: "plain local \<Longrightarrow> plain domain \<Longrightarrow> CHR ''.'' \<in> set domain \<Longrightarrow> normalize_addr local domain = Some (local, domain)"
  by (cases local) (auto simp: normalize_addr_def trim_plain unquote_def plain_def)

lemma extract_angle:
  assumes "plain local" and "plain domain" and "CHR ''.'' \<in> set domain" and "CHR ''<'' \<notin> set name"
  shows "extract_addresses (name @ CHR ''<'' # local @ CHR ''@'' # domain @ ''>'') = [(local, domain)]"
proof -
  have no: "CHR ''>'' \<notin> set (local @ CHR ''@'' # domain)" "CHR ''@'' \<notin> set local" using assms by (auto simp: plain_def list_all_iff)
  have "angle_parts [] = []" by (simp add: angle_parts.simps [of "[]"] split_at_def)
  moreover have "split_at (CHR ''>'') ((local @ CHR ''@'' # domain) @ CHR ''>'' # []) = Some (local @ CHR ''@'' # domain, [])"
    using no(1) by (rule split_at_first)
  ultimately have "angle_parts (name @ CHR ''<'' # local @ CHR ''@'' # domain @ ''>'') = [local @ CHR ''@'' # domain]"
    by (subst angle_parts.simps) (simp add: split_at_first [OF assms(4)])
  then show ?thesis using assms no(2) by (simp add: extract_addresses_def split_at_first normalize_plain)
qed

end
