(* ===== verification/Sieve_Lexer.thy ===== *)
theory Sieve_Lexer
  imports Sieve_Match
begin

text \<open>
  The lexer of \<^verbatim>\<open>tpt-sieve/src/lexer.rs\<close>. Its position in the source is given by the characters that are left; \<open>n\<close> is the
  length of the whole source, so that the offset of an error is \<open>n\<close> minus what is left. Main result: the tokens of
  a text that was printed from tokens are those tokens.
\<close>

datatype SieveError =
    Lex nat string
  | Parse nat string
  | MissingCapability string
  | Eval string

datatype Token =
    Ident string
  | Tag string
  | StringT string
  | Number u64
  | LBracket
  | RBracket
  | LBrace
  | RBrace
  | Comma
  | Semicolon
  | LParen
  | RParen

abbreviation TAB :: char where "TAB \<equiv> CHR 0x09"
abbreviation LF :: char where "LF \<equiv> CHR 0x0A"
abbreviation CR :: char where "CR \<equiv> CHR 0x0D"
abbreviation QUOTE :: char where "QUOTE \<equiv> CHR 0x22"
abbreviation BACKSLASH :: char where "BACKSLASH \<equiv> CHR 0x5C"

definition lex_err :: "nat \<Rightarrow> string \<Rightarrow> string \<Rightarrow> SieveError + 'a" where
  "lex_err n rest msg = Inl (Lex (n - length rest) msg)"

text \<open>Character classes; \<open>is_ascii_digit\<close> and the like are those of the standard library.\<close>

definition is_ascii_digit :: "char \<Rightarrow> bool" where
  "is_ascii_digit c \<longleftrightarrow> 48 \<le> (of_char c :: nat) \<and> (of_char c :: nat) \<le> 57"

definition is_ascii_alphabetic :: "char \<Rightarrow> bool" where
  "is_ascii_alphabetic c \<longleftrightarrow> 65 \<le> (of_char c :: nat) \<and> (of_char c :: nat) \<le> 90 \<or> 97 \<le> (of_char c :: nat) \<and> (of_char c :: nat) \<le> 122"

definition is_ident_start :: "char \<Rightarrow> bool" where
  "is_ident_start c \<longleftrightarrow> is_ascii_alphabetic c \<or> c = CHR ''_''"

definition is_ident_char :: "char \<Rightarrow> bool" where
  "is_ident_char c \<longleftrightarrow> is_ascii_alphabetic c \<or> is_ascii_digit c \<or> c \<in> set ''_-./?''"

text \<open>White space and comments. A block comment that is not closed runs to the end of the source.\<close>

fun skip_block :: "string \<Rightarrow> string" where
  "skip_block [] = []"
| "skip_block (c # cs) = (if c = CHR ''*'' \<and> take 1 cs = ''/'' then tl cs else skip_block cs)"

lemma length_skip_block: "length (skip_block cs) \<le> length cs"
  by (induction cs) auto

function skip_ws_and_comments :: "string \<Rightarrow> string" where
  "skip_ws_and_comments cs =
     (case cs of
        [] \<Rightarrow> []
      | c # cs' \<Rightarrow>
          if c \<in> {CHR '' '', TAB, CR, LF} then skip_ws_and_comments cs'
          else if c = CHR ''#'' then skip_ws_and_comments (dropWhile (\<lambda>x. x \<noteq> LF) cs')
          else if c = CHR ''/'' \<and> take 1 cs' = ''*'' then skip_ws_and_comments (skip_block (tl cs'))
          else cs)"
  by pat_completeness auto
termination
proof (relation "measure length", goal_cases)
  case (3 cs c cs')
  then show ?case using length_dropWhile_le [of "\<lambda>x. x \<noteq> LF" cs'] by (simp add: le_imp_less_Suc)
next
  case (4 cs c cs')
  then show ?case using length_skip_block [of "tl cs'"] by (simp add: le_imp_less_Suc)
qed auto

declare skip_ws_and_comments.simps [simp del]

definition starts_with_ci :: "string \<Rightarrow> string \<Rightarrow> bool" where
  "starts_with_ci needle rest \<longleftrightarrow> eq_ignore_ascii_case (take (length needle) rest) needle"

text \<open>A quoted string, after its opening quote; \<open>s\<close> is the text so far.\<close>

definition drop_char :: "char \<Rightarrow> string \<Rightarrow> string" where
  "drop_char c cs = (if take 1 cs = [c] then tl cs else cs)"

function quoted :: "nat \<Rightarrow> string \<Rightarrow> string \<Rightarrow> SieveError + string \<times> string" where
  "quoted n s cs =
     (case cs of
        [] \<Rightarrow> lex_err n [] ''unterminated quoted string''
      | c # cs' \<Rightarrow>
          if c = QUOTE then Inr (s, cs')
          else if c = BACKSLASH then
            (case cs' of
               [] \<Rightarrow> lex_err n [] ''unterminated escape in quoted string''
             | d # cs'' \<Rightarrow>
                 if d = QUOTE then quoted n (s @ [QUOTE]) cs''
                 else if d = BACKSLASH then quoted n (s @ [BACKSLASH]) cs''
                 else if d \<in> {CHR '' '', TAB, CR, LF} then quoted n s (drop_char LF (drop_char CR cs''))
                 else quoted n (s @ [BACKSLASH, d]) cs'')
          else quoted n (s @ [c]) cs')"
  by pat_completeness auto
termination by (relation "measure (\<lambda>(n, s, cs). length cs)") (auto simp: drop_char_def)

declare quoted.simps [simp del]

definition lex_quoted :: "nat \<Rightarrow> string \<Rightarrow> SieveError + string \<times> string" where
  "lex_quoted n rest = quoted n [] (tl rest)"

text \<open>The lines of a \<open>text:\<close> string up to the line with a single dot.\<close>

definition newline :: "char \<Rightarrow> bool" where
  "newline c \<longleftrightarrow> c = CR \<or> c = LF"

lemma length_drop_char: "length (drop_char c cs) \<le> length cs"
  by (simp add: drop_char_def)

lemma length_drop_newline: "rest \<noteq> [] \<Longrightarrow> newline (hd rest) \<Longrightarrow> length (drop_char LF (drop_char CR rest)) < length rest"
  by (cases rest) (auto simp: drop_char_def newline_def)

function text_lines :: "nat \<Rightarrow> string \<Rightarrow> string \<Rightarrow> SieveError + string \<times> string" where
  "text_lines n out cs =
     (let line = takeWhile (\<lambda>c. \<not> newline c) cs; rest = dropWhile (\<lambda>c. \<not> newline c) cs
      in if rest = [] then lex_err n [] ''unterminated multi-line string''
         else let rest = drop_char LF (drop_char CR rest)
              in if line = ''.'' then Inr (out, rest)
                 else text_lines n (out @ drop_char (CHR ''.'') line @ [LF]) rest)"
  by pat_completeness auto
termination
proof (relation "measure (\<lambda>(n, out, cs). length cs)", goal_cases)
  case (2 n out cs line rest rest')
  then have "rest \<noteq> []" "newline (hd rest)" using hd_dropWhile [of "\<lambda>c. \<not> newline c" cs] by auto
  then have "length rest' < length rest" using length_drop_newline 2(4) by blast
  also have "length rest \<le> length cs" using 2(2) length_dropWhile_le by simp
  finally show ?case by simp
qed simp

declare text_lines.simps [simp del]

definition lex_multiline :: "nat \<Rightarrow> string \<Rightarrow> SieveError + string \<times> string" where
  "lex_multiline n rest =
     (let rest = dropWhile (\<lambda>c. c = CHR '' '' \<or> c = TAB) (drop 5 rest)
      in case rest of
           c # cs \<Rightarrow>
             if c = CR then text_lines n [] (drop_char LF cs)
             else if c = LF then text_lines n [] cs
             else lex_err n rest ''expected newline after `text:`''
         | [] \<Rightarrow> lex_err n [] ''expected newline after `text:`'')"

definition lex_ident :: "string \<Rightarrow> string \<times> string" where
  "lex_ident rest = (takeWhile is_ident_char rest, dropWhile is_ident_char rest)"

definition lex_tag :: "string \<Rightarrow> string \<times> string" where
  "lex_tag rest = (let (ident, rest) = lex_ident (tl rest) in (CHR '':'' # ident, rest))"

fun lex_digits :: "nat \<Rightarrow> nat \<Rightarrow> string \<Rightarrow> SieveError + nat \<times> string" where
  "lex_digits n acc [] = Inr (acc, [])"
| "lex_digits n acc (c # cs) =
     (if is_ascii_digit c then
        let v = acc * 10 + (of_char c - 48)
        in if v < 2 ^ 64 then lex_digits n v cs else lex_err n (c # cs) ''number too large''
      else Inr (acc, c # cs))"

definition quantifier :: "string \<Rightarrow> nat \<times> string" where
  "quantifier rest =
     (case rest of
        c # cs \<Rightarrow>
          if c \<in> set ''Kk'' then (1024, cs)
          else if c \<in> set ''Mm'' then (1024 * 1024, cs)
          else if c \<in> set ''Gg'' then (1024 * 1024 * 1024, cs)
          else (1, rest)
      | [] \<Rightarrow> (1, rest))"

definition lex_number :: "nat \<Rightarrow> string \<Rightarrow> SieveError + u64 \<times> string" where
  "lex_number n rest =
     res_bind (lex_digits n 0 rest) (\<lambda>(v, rest).
       let (mult, rest) = quantifier rest
       in if v * mult < 2 ^ 64 then Inr (word_of_nat (v * mult), rest) else lex_err n rest ''number too large'')"

text \<open>One turn of the loop of \<open>tokenize\<close>, at a character that is not skipped.\<close>

definition lex_token :: "nat \<Rightarrow> string \<Rightarrow> SieveError + Token \<times> string" where
  "lex_token n cs =
     (let c = hd cs in
      if (c = CHR ''t'' \<or> c = CHR ''T'') \<and> starts_with_ci ''text:'' cs then map_sum id (apfst StringT) (lex_multiline n cs)
      else if c = QUOTE then map_sum id (apfst StringT) (lex_quoted n cs)
      else if c = CHR ''['' then Inr (LBracket, tl cs)
      else if c = CHR '']'' then Inr (RBracket, tl cs)
      else if c = CHR ''{'' then Inr (LBrace, tl cs)
      else if c = CHR ''}'' then Inr (RBrace, tl cs)
      else if c = CHR '','' then Inr (Comma, tl cs)
      else if c = CHR '';'' then Inr (Semicolon, tl cs)
      else if c = CHR ''('' then Inr (LParen, tl cs)
      else if c = CHR '')'' then Inr (RParen, tl cs)
      else if c = CHR '':'' then Inr (apfst Tag (lex_tag cs))
      else if is_ascii_digit c then map_sum id (apfst Number) (lex_number n cs)
      else if is_ident_start c then Inr (apfst Ident (lex_ident cs))
      else lex_err n cs (''unexpected character `'' @ [c] @ ''`''))"

lemma quoted_length: "quoted n s cs = Inr (x, r) \<Longrightarrow> length r < length cs"
proof (induction "length cs" arbitrary: s cs rule: less_induct)
  case less
  have IH: "length ds < length cs \<Longrightarrow> quoted n s' ds = Inr (x, r) \<Longrightarrow> length r < length cs" for ds s'
    using less.hyps [of ds s'] by simp
  have nl: "length (drop_char LF (drop_char CR ds)) \<le> length ds" for ds by (meson length_drop_char le_trans)
  show ?case
  proof (cases cs)
    case (Cons c ds)
    show ?thesis
    proof (cases "c = BACKSLASH")
      case True
      show ?thesis
      proof (cases ds)
        case Nil
        then show ?thesis using less.prems [unfolded quoted.simps [of n s cs]] True Cons by (simp add: lex_err_def)
      next
        case (Cons d es)
        then have "length (drop_char LF (drop_char CR es)) < length cs" using nl [of es] \<open>cs = c # ds\<close> by simp
        then show ?thesis using less.prems [unfolded quoted.simps [of n s cs]] True Cons \<open>cs = c # ds\<close>
          by (simp split: if_splits) (drule IH [rotated]; simp)+
      qed
    next
      case False
      then show ?thesis using less.prems [unfolded quoted.simps [of n s cs]] IH unfolding Cons by (auto split: if_splits)
    qed
  qed (use less.prems in \<open>auto simp: quoted.simps [of n s "[]"] lex_err_def\<close>)
qed

lemma text_lines_length: "text_lines n out cs = Inr (x, r) \<Longrightarrow> length r \<le> length cs"
proof (induction "length cs" arbitrary: out cs rule: less_induct)
  case less
  let ?rest = "dropWhile (\<lambda>c. \<not> newline c) cs"
  show ?case
  proof (cases "?rest = []")
    case False
    then have "length (drop_char LF (drop_char CR ?rest)) < length ?rest"
      using length_drop_newline hd_dropWhile [of "\<lambda>c. \<not> newline c" cs] by blast
    then have lt: "length (drop_char LF (drop_char CR ?rest)) < length cs"
      using length_dropWhile_le [of "\<lambda>c. \<not> newline c" cs] by (rule less_le_trans)
    show ?thesis using less.prems less.hyps [OF lt] lt False
      unfolding text_lines.simps [of n out cs] Let_def by (auto split: if_splits dest: less.hyps [OF lt])
  qed (use less.prems in \<open>auto simp: text_lines.simps [of n out cs] lex_err_def\<close>)
qed

lemma lex_digits_length: "lex_digits n acc cs = Inr (v, r) \<Longrightarrow> length r \<le> length cs"
  by (induction n acc cs rule: lex_digits.induct) (fastforce simp: lex_err_def Let_def split: if_splits)+

lemma lex_number_length:
  assumes "lex_number n (c # cs) = Inr (v, r)" and "is_ascii_digit c"
  shows "length r \<le> length cs"
proof -
  obtain w r' where d: "lex_digits n 0 (c # cs) = Inr (w, r')" using assms(1) by (cases "lex_digits n 0 (c # cs)") (auto simp: lex_number_def)
  then have "length r' \<le> length cs" using assms(2) lex_digits_length by (auto simp: lex_err_def Let_def split: if_splits)
  moreover have "length r \<le> length r'"
    using assms(1) d by (auto simp: lex_number_def quantifier_def lex_err_def split: list.splits if_splits prod.splits)
  ultimately show ?thesis by simp
qed

lemma lex_multiline_length: "lex_multiline n cs = Inr (x, r) \<Longrightarrow> 5 \<le> length cs \<Longrightarrow> length r < length cs"
proof -
  let ?rest = "dropWhile (\<lambda>c. c = CHR '' '' \<or> c = TAB) (drop 5 cs)"
  assume m: "lex_multiline n cs = Inr (x, r)" and "5 \<le> length cs"
  then have "length ?rest < length cs" using length_dropWhile_le [of "\<lambda>c. c = CHR '' '' \<or> c = TAB" "drop 5 cs"] by simp
  moreover have "length r \<le> length ?rest"
  proof (cases ?rest)
    case (Cons c ds)
    then show ?thesis using m [unfolded lex_multiline_def Let_def Cons] text_lines_length length_drop_char [of LF ds]
      unfolding Cons by (fastforce simp: lex_err_def split: if_splits)
  next
    case Nil
    then show ?thesis using m [unfolded lex_multiline_def Let_def Nil] by (simp add: lex_err_def)
  qed
  ultimately show ?thesis by simp
qed

lemma starts_with_length: "starts_with_ci needle cs \<Longrightarrow> length needle \<le> length cs"
proof -
  assume "starts_with_ci needle cs"
  then have "length (take (length needle) cs) = length needle"
    unfolding starts_with_ci_def eq_ignore_ascii_case_def by (metis length_map)
  then show ?thesis by simp
qed

lemma lex_token_length:
  assumes "lex_token n cs = Inr (tok, r)" and "cs \<noteq> []"
  shows "length r < length cs"
proof -
  obtain c ds where cs: "cs = c # ds" using assms(2) by (cases cs) simp_all
  have ident: "length (dropWhile is_ident_char ds) \<le> length ds" by (rule length_dropWhile_le)
  have start: "is_ident_start c \<Longrightarrow> is_ident_char c" by (auto simp: is_ident_start_def is_ident_char_def)
  have multi: "lex_multiline n cs = Inr (x, r) \<Longrightarrow> starts_with_ci ''text:'' cs \<Longrightarrow> length r < length cs" for x
    using lex_multiline_length starts_with_length [of "''text:''" cs] by simp
  have quote: "lex_quoted n cs = Inr (x, r) \<Longrightarrow> length r < length cs" for x
    using quoted_length unfolding lex_quoted_def cs by fastforce
  have num: "lex_number n cs = Inr (x, r) \<Longrightarrow> is_ascii_digit c \<Longrightarrow> length r < length cs" for x
    using lex_number_length unfolding cs by fastforce
  have sum: "map_sum id (apfst f) p = Inr (tok, r) \<Longrightarrow> \<exists>x. p = Inr (x, r)" for f :: "'x \<Rightarrow> Token" and p :: "SieveError + 'x \<times> string"
    by (cases p) auto
  show ?thesis
    using assms(1) multi quote num start ident unfolding lex_token_def Let_def cs list.sel
    by (auto simp: lex_err_def lex_tag_def lex_ident_def cs dest!: sum split: if_splits)
qed

lemma length_skip_ws: "length (skip_ws_and_comments cs) \<le> length cs"
proof (induction "length cs" arbitrary: cs rule: less_induct)
  case less
  show ?case
  proof (cases cs)
    case (Cons c ds)
    have "length (dropWhile (\<lambda>x. x \<noteq> LF) ds) < length cs" "length (skip_block (tl ds)) < length cs"
      using length_dropWhile_le [of "\<lambda>x. x \<noteq> LF" ds] length_skip_block [of "tl ds"] Cons by simp_all
    note IH = this [THEN less.hyps]
    show ?thesis using IH \<open>length (dropWhile (\<lambda>x. x \<noteq> LF) ds) < length cs\<close> \<open>length (skip_block (tl ds)) < length cs\<close>
        less.hyps [of ds] unfolding Cons skip_ws_and_comments.simps [of "c # ds"] by simp
  qed (simp add: skip_ws_and_comments.simps [of "[]"])
qed

function tokenize :: "nat \<Rightarrow> string \<Rightarrow> SieveError + Token list" where
  "tokenize n cs =
     (let cs = skip_ws_and_comments cs in
      if cs = [] then Inr []
      else
        case lex_token n cs of
          Inl e \<Rightarrow> Inl e
        | Inr (tok, rest) \<Rightarrow> map_sum id (Cons tok) (tokenize n rest))"
  by pat_completeness auto
termination
proof (relation "measure (\<lambda>(n, cs). length cs)", goal_cases)
  case (2 n cs ds r tok rest)
  then have "length rest < length ds" using lex_token_length [of n ds tok rest] by auto
  then show ?case using 2(1) length_skip_ws [of cs] by simp
qed simp

declare tokenize.simps [simp del]

section \<open>Printing tokens\<close>

definition dec_digit :: "nat \<Rightarrow> char" where
  "dec_digit d = char_of (48 + d)"

fun dec_string :: "nat \<Rightarrow> string" where
  "dec_string v = (if v < 10 then [dec_digit v] else dec_string (v div 10) @ [dec_digit (v mod 10)])"

declare dec_string.simps [simp del]

definition escape :: "string \<Rightarrow> string" where
  "escape s = concat (map (\<lambda>c. if c = QUOTE \<or> c = BACKSLASH then [BACKSLASH, c] else [c]) s)"

fun show_token :: "Token \<Rightarrow> string" where
  "show_token (Ident s) = s"
| "show_token (Tag s) = s"
| "show_token (StringT s) = QUOTE # escape s @ [QUOTE]"
| "show_token (Number v) = dec_string (unat v)"
| "show_token LBracket = ''[''"
| "show_token RBracket = '']''"
| "show_token LBrace = ''{''"
| "show_token RBrace = ''}''"
| "show_token Comma = '',''"
| "show_token Semicolon = '';''"
| "show_token LParen = ''(''"
| "show_token RParen = '')''"

definition show_tokens :: "Token list \<Rightarrow> string" where
  "show_tokens ts = concat (map (\<lambda>t. show_token t @ '' '') ts)"

fun token_wf :: "Token \<Rightarrow> bool" where
  "token_wf (Ident s) \<longleftrightarrow> s \<noteq> [] \<and> is_ident_start (hd s) \<and> list_all is_ident_char s"
| "token_wf (Tag s) \<longleftrightarrow> s \<noteq> [] \<and> hd s = CHR '':'' \<and> list_all is_ident_char (tl s)"
| "token_wf _ \<longleftrightarrow> True"

lemma dec_digit_val: "d < 10 \<Longrightarrow> (of_char (dec_digit d) :: nat) = 48 + d" "d < 10 \<Longrightarrow> is_ascii_digit (dec_digit d)"
  by (simp_all add: dec_digit_def is_ascii_digit_def)

lemma lex_digits_dec: "v < 2 ^ 64 \<Longrightarrow> lex_digits n 0 (dec_string v @ r) = lex_digits n v r"
proof (induction v arbitrary: r rule: dec_string.induct)
  case (1 v)
  show ?case
  proof (cases "v < 10")
    case True
    then show ?thesis using 1 by (subst dec_string.simps) (simp add: dec_digit_val)
  next
    case False
    then show ?thesis using 1 by (subst dec_string.simps) (simp add: dec_digit_val)
  qed
qed

lemma dec_string_digits: "dec_string v \<noteq> [] \<and> list_all is_ascii_digit (dec_string v)"
  by (induction v rule: dec_string.induct) (subst (1 2) dec_string.simps, auto simp: dec_digit_val)

lemma quoted_escape: "quoted n s (escape x @ QUOTE # r) = Inr (s @ x, r)"
proof (induction x arbitrary: s)
  case Nil
  then show ?case by (simp add: escape_def quoted.simps [of n s "QUOTE # r"])
next
  case (Cons c x)
  have "escape (c # x) = (if c = QUOTE \<or> c = BACKSLASH then [BACKSLASH, c] else [c]) @ escape x" by (simp add: escape_def)
  then show ?case using Cons by (simp add: quoted.simps [of n s "_ # _"])
qed

lemma lex_ident_show: "list_all is_ident_char s \<Longrightarrow> lex_ident (s @ CHR '' '' # r) = (s, CHR '' '' # r)"
proof -
  assume "list_all is_ident_char s"
  moreover have "\<not> is_ident_char (CHR '' '')" by (simp add: is_ident_char_def is_ascii_alphabetic_def is_ascii_digit_def)
  ultimately show ?thesis by (simp add: lex_ident_def takeWhile_append dropWhile_append list_all_iff) 
qed

lemma ascii_lower_colon: "ascii_lower c = CHR '':'' \<longleftrightarrow> c = CHR '':''"
proof -
  have "char_of (of_char c + 32 :: nat) \<noteq> CHR '':''" if "65 \<le> (of_char c :: nat)" "(of_char c :: nat) \<le> 90"
  proof
    assume "char_of (of_char c + 32 :: nat) = CHR '':''"
    then have "(of_char (char_of (of_char c + 32 :: nat) :: char) :: nat) = of_char (CHR '':'')" by simp
    then show False using that by simp
  qed
  then show ?thesis by (auto simp: ascii_lower_def)
qed

lemma ident_not_text: "list_all is_ident_char s \<Longrightarrow> \<not> starts_with_ci ''text:'' (s @ CHR '' '' # r)"
proof
  let ?u = "s @ CHR '' '' # r"
  assume s: "list_all is_ident_char s" and t: "starts_with_ci ''text:'' ?u"
  have five: "length ''text:'' = 5" and low: "map ascii_lower ''text:'' = ''text:''" by (simp_all add: ascii_lower_def)
  have eq: "map ascii_lower (take 5 ?u) = ''text:''"
    using t unfolding starts_with_ci_def eq_ignore_ascii_case_def five low .
  have len: "5 \<le> length ?u" using arg_cong [OF eq, of length] by simp
  show False
  proof (cases "length s < 5")
    case True
    then have "CHR '' '' \<in> set (take 5 ?u)" by (simp add: take_Cons')
    then have "ascii_lower (CHR '' '') \<in> set (map ascii_lower (take 5 ?u))" unfolding set_map by (rule imageI)
    then show False unfolding eq by (simp add: ascii_lower_def)
  next
    case False
    then have "map ascii_lower (take 5 ?u) ! 4 = ascii_lower (s ! 4)" by (simp add: nth_append)
    then have "s ! 4 = CHR '':''" unfolding eq by (simp add: ascii_lower_colon eq_commute [of "CHR '':''"])
    moreover have "is_ident_char (s ! 4)" using s False by (simp add: list_all_length)
    ultimately show False by (simp add: is_ident_char_def is_ascii_alphabetic_def is_ascii_digit_def)
  qed
qed

lemma ident_start_class:
  "is_ident_start c \<Longrightarrow> c \<notin> set ''[]{},;():#/ '' \<and> c \<notin> {QUOTE, TAB, CR, LF} \<and> \<not> is_ascii_digit c"
  by (auto simp: is_ident_start_def is_ascii_alphabetic_def is_ascii_digit_def)

lemma digit_class:
  "is_ascii_digit c \<Longrightarrow> c \<notin> set ''[]{},;():#/ tT'' \<and> c \<notin> {QUOTE, TAB, CR, LF}"
  by (auto simp: is_ascii_digit_def)

lemma lex_number_show: "lex_number n (dec_string (unat v) @ CHR '' '' # r) = Inr (v, CHR '' '' # r)"
  using unat_bounds(3) [of v] lex_digits_dec [of "unat v" n "CHR '' '' # r"]
  by (simp add: lex_number_def quantifier_def is_ascii_digit_def)

lemma lex_token_show: "token_wf t \<Longrightarrow> lex_token n (show_token t @ CHR '' '' # r) = Inr (t, CHR '' '' # r)"
proof (cases t)
  case (Ident s)
  assume "token_wf t"
  then have s: "s \<noteq> []" "is_ident_start (hd s)" "list_all is_ident_char s" using Ident by simp_all
  have "hd (s @ CHR '' '' # r) = hd s" using s(1) by simp
  then show ?thesis
    using ident_start_class [OF s(2)] s(2) lex_ident_show [OF s(3)] ident_not_text [OF s(3)] Ident
    unfolding lex_token_def Let_def by simp
next
  case (Tag s)
  assume "token_wf t"
  then obtain i where "s = CHR '':'' # i" "list_all is_ident_char i" using Tag by (cases s) auto
  then show ?thesis using lex_ident_show [of i r] Tag by (simp add: lex_token_def Let_def lex_tag_def is_ascii_digit_def)
next
  case (StringT s)
  then show ?thesis using quoted_escape [of n "[]" s "CHR '' '' # r"] by (simp add: lex_token_def lex_quoted_def Let_def)
next
  case (Number v)
  have d: "is_ascii_digit (hd (dec_string (unat v) @ CHR '' '' # r))" using dec_string_digits [of "unat v"] by (cases "dec_string (unat v)") simp_all
  then show ?thesis using digit_class [OF d] lex_number_show [of n v r] Number
    unfolding lex_token_def Let_def by simp
qed (simp_all add: lex_token_def Let_def)

lemma skip_token:
  assumes "token_wf t"
  shows "show_token t \<noteq> []" and "skip_ws_and_comments (show_token t @ r) = show_token t @ r"
proof -
  have h: "show_token t \<noteq> [] \<and> hd (show_token t) \<notin> {CHR '' '', TAB, CR, LF, CHR ''#'', CHR ''/''}"
  proof (cases t)
    case (Ident s)
    then show ?thesis using assms ident_start_class [of "hd s"] by simp
  next
    case (Number v)
    then show ?thesis using dec_string_digits [of "unat v"] digit_class [of "hd (dec_string (unat v))"]
      by (cases "dec_string (unat v)") simp_all
  qed (use assms in simp_all)
  then show "show_token t \<noteq> []" by simp
  obtain c cs where "show_token t = c # cs" using h by (cases "show_token t") simp_all
  then show "skip_ws_and_comments (show_token t @ r) = show_token t @ r" using h by (simp add: skip_ws_and_comments.simps [of "c # _"])
qed

lemma tokenize_show: "list_all token_wf ts \<Longrightarrow> tokenize n (show_tokens ts) = Inr ts"
proof (induction ts)
  case Nil
  then show ?case by (simp add: show_tokens_def tokenize.simps [of n "[]"] skip_ws_and_comments.simps [of "[]"])
next
  case (Cons t ts)
  have blank: "tokenize n (CHR '' '' # r) = tokenize n r" for r
    by (simp add: tokenize.simps [of n "CHR '' '' # r"] tokenize.simps [of n r] skip_ws_and_comments.simps [of "CHR '' '' # r"])
  have wf: "token_wf t" using Cons.prems by simp
  have "show_tokens (t # ts) = show_token t @ CHR '' '' # show_tokens ts" by (simp add: show_tokens_def)
  then show ?case
    using Cons skip_token [OF wf] lex_token_show [OF wf, of n "show_tokens ts"]
    by (simp add: tokenize.simps [of n "show_token t @ _"] blank)
qed

end
