(* ===== verification/Sieve_Parser.thy ===== *)
theory Sieve_Parser
  imports Sieve_Lexer
begin

text \<open>
  The parser of \<^verbatim>\<open>tpt-sieve/src/parser.rs\<close> and the syntax trees of \<^verbatim>\<open>ast.rs\<close>. As in the lexer, the position is given by the tokens
  that are left and \<open>n\<close> is their number at the start. The recursion runs on fuel, and \<open>Panic\<close> stands for
  running out of it; the fuel given by \<open>parse\<close> is enough for every input, as the theory \<open>Sieve_Syntax\<close> shows.
\<close>

section \<open>Syntax trees\<close>

datatype AddressPart = AllParts | LocalPart | DomainPart

record HeaderTest =
  ht_comparator :: Comparator
  ht_match_type :: MatchType
  ht_names :: "string list"
  ht_keys :: "string list"

record AddressTest =
  at_address_part :: AddressPart
  at_comparator :: Comparator
  at_match_type :: MatchType
  at_headers :: "string list"
  at_keys :: "string list"

record EnvelopeTest =
  et_comparator :: Comparator
  et_match_type :: MatchType
  et_parts :: "string list"
  et_keys :: "string list"

datatype Test =
    AllOf "Test list"
  | AnyOf "Test list"
  | NotT Test
  | Exists "string list"
  | TrueT
  | FalseT
  | Size bool u64
  | Header HeaderTest
  | Address AddressTest
  | Envelope EnvelopeTest

datatype Action = Keep | Discard | Stop | Redirect string | FileInto string

text \<open>The structure \<^verbatim>\<open>IfCommand\<close>, the payload of \<^verbatim>\<open>Command::If\<close>, is the constructor with its four fields.\<close>

datatype Command =
    Require "string list"
  | IfCommand Test "Command list" "(Test \<times> Command list) list" "Command list option"
  | ActionC Action

record Script =
  commands :: "Command list"
  capabilities :: "string set"

section \<open>Leaves of the grammar\<close>

type_synonym 'a sieve_parser = "(Token list, SieveError failure, 'a) parser"

definition peekp :: "Token option sieve_parser" where
  "peekp ts = Inr (case ts of [] \<Rightarrow> None | t # _ \<Rightarrow> Some t, ts)"

definition nextp :: "Token option sieve_parser" where
  "nextp ts = Inr (case ts of [] \<Rightarrow> (None, []) | t # r \<Rightarrow> (Some t, r))"

definition perr :: "nat \<Rightarrow> string \<Rightarrow> 'a sieve_parser" where
  "perr n msg = failp (\<lambda>ts. Err (Parse (n - length ts) msg))"

definition expect :: "nat \<Rightarrow> Token \<Rightarrow> string \<Rightarrow> unit sieve_parser" where
  "expect n tok msg = bindp nextp (\<lambda>t. if t = Some tok then retp () else perr n msg)"

text \<open>The loop over a bracketed list. A token that is not a string is consumed before the closing bracket is looked for.\<close>

fun string_items :: "nat \<Rightarrow> string list \<Rightarrow> string list sieve_parser" where
  "string_items n v (StringT s # ts) =
     (case ts of
        Comma # r \<Rightarrow> string_items n (v @ [s]) r
      | RBracket # r \<Rightarrow> Inr (v @ [s], r)
      | _ \<Rightarrow> perr n ''expected `,` or `]` in string list'' (tl ts))"
| "string_items n v ts =
     (case tl ts of
        RBracket # r \<Rightarrow> Inr (v, r)
      | _ \<Rightarrow> perr n ''expected `]` to close string list'' (tl ts))"

definition parse_string_list :: "nat \<Rightarrow> string list sieve_parser" where
  "parse_string_list n ts =
     (case ts of
        LBracket # r \<Rightarrow> string_items n [] r
      | StringT s # r \<Rightarrow> Inr ([s], r)
      | _ \<Rightarrow> perr n ''expected a string or `[ string-list ]`'' ts)"

definition parse_comparator :: "string list \<Rightarrow> SieveError failure + Comparator" where
  "parse_comparator list =
     (case list of
        [c] \<Rightarrow>
          if c = ''i;ascii-casemap'' then Inr AsciiCasemap
          else if c = ''i;octet'' then Inr Octet
          else Inl (Err (Parse 0 (''unsupported comparator `'' @ c @ ''` (base RFC 5228 supports i;ascii-casemap and i;octet)'')))
      | _ \<Rightarrow> Inl (Err (Parse 0 ''`:comparator` requires exactly one string argument'')))"

definition is_test_name :: "string \<Rightarrow> bool" where
  "is_test_name s \<longleftrightarrow> to_ascii_lowercase s \<in>
     {''allof'', ''anyof'', ''not'', ''exists'', ''true'', ''false'', ''size'', ''header'', ''address'', ''envelope''}"

text \<open>The loops over tags; the fuel is the number of turns.\<close>

primrec parse_common_tags :: "nat \<Rightarrow> nat \<Rightarrow> Comparator \<Rightarrow> MatchType \<Rightarrow> (Comparator \<times> MatchType) sieve_parser" where
  "parse_common_tags n 0 comparator mt = failp (\<lambda>_. Panic)"
| "parse_common_tags n (Suc fuel) comparator mt =
     bindp peekp (\<lambda>t. case t of
         Some (Tag tag) \<Rightarrow>
           if tag = '':comparator'' then
             bindp nextp (\<lambda>_. bindp (parse_string_list n) (\<lambda>c. bindp (liftp (parse_comparator c)) (\<lambda>comparator.
               parse_common_tags n fuel comparator mt)))
           else if tag = '':is'' then bindp nextp (\<lambda>_. parse_common_tags n fuel comparator Is)
           else if tag = '':contains'' then bindp nextp (\<lambda>_. parse_common_tags n fuel comparator Contains)
           else if tag = '':matches'' then bindp nextp (\<lambda>_. parse_common_tags n fuel comparator Matches)
           else perr n (''unknown tag `'' @ tag @ ''`'')
       | _ \<Rightarrow> retp (comparator, mt))"

primrec parse_address_tags ::
    "nat \<Rightarrow> nat \<Rightarrow> AddressPart \<Rightarrow> Comparator \<Rightarrow> MatchType \<Rightarrow> (AddressPart \<times> Comparator \<times> MatchType) sieve_parser" where
  "parse_address_tags n 0 part comparator mt = failp (\<lambda>_. Panic)"
| "parse_address_tags n (Suc fuel) part comparator mt =
     bindp peekp (\<lambda>t. case t of
         Some (Tag tag) \<Rightarrow>
           if tag = '':localpart'' then bindp nextp (\<lambda>_. parse_address_tags n fuel LocalPart comparator mt)
           else if tag = '':domain'' then bindp nextp (\<lambda>_. parse_address_tags n fuel DomainPart comparator mt)
           else if tag = '':all'' then bindp nextp (\<lambda>_. parse_address_tags n fuel AllParts comparator mt)
           else if tag = '':comparator'' then
             bindp nextp (\<lambda>_. bindp (parse_string_list n) (\<lambda>c. bindp (liftp (parse_comparator c)) (\<lambda>comparator.
               parse_address_tags n fuel part comparator mt)))
           else if tag = '':is'' then bindp nextp (\<lambda>_. parse_address_tags n fuel part comparator Is)
           else if tag = '':contains'' then bindp nextp (\<lambda>_. parse_address_tags n fuel part comparator Contains)
           else if tag = '':matches'' then bindp nextp (\<lambda>_. parse_address_tags n fuel part comparator Matches)
           else perr n (''unknown tag `'' @ tag @ ''`'')
       | _ \<Rightarrow> retp (part, comparator, mt))"

definition parse_action :: "nat \<Rightarrow> string \<Rightarrow> Action sieve_parser" where
  "parse_action n lower =
     (if lower = ''keep'' then retp Keep
      else if lower = ''discard'' then retp Discard
      else if lower = ''stop'' then retp Stop
      else if lower = ''redirect'' then
        bindp (parse_string_list n) (\<lambda>list. case list of
          [s] \<Rightarrow> retp (Redirect s) | _ \<Rightarrow> perr n ''`redirect` requires exactly one string argument'')
      else if lower = ''fileinto'' then
        bindp (parse_string_list n) (\<lambda>list. case list of
          [s] \<Rightarrow> retp (FileInto s) | _ \<Rightarrow> perr n ''`fileinto` requires exactly one string argument'')
      else perr n (''unknown action `'' @ lower @ ''`''))"

section \<open>Tests\<close>

definition parse_size :: "nat \<Rightarrow> Test sieve_parser" where
  "parse_size n =
     bindp nextp (\<lambda>t. case t of
         Some (Tag tag) \<Rightarrow>
           bindp (if tag = '':over'' then retp True else if tag = '':under'' then retp False
                  else perr n (''`size` invalid tag `'' @ tag @ ''`''))
             (\<lambda>over. bindp nextp (\<lambda>t. case t of
                 Some (Number amount) \<Rightarrow> retp (Size over amount)
               | _ \<Rightarrow> perr n ''`size` requires a numeric argument''))
       | _ \<Rightarrow> perr n ''`size` requires `:over` or `:under`'')"

definition parse_header :: "nat \<Rightarrow> nat \<Rightarrow> Test sieve_parser" where
  "parse_header n fuel =
     bindp (parse_common_tags n fuel AsciiCasemap Is) (\<lambda>(comparator, mt).
       bindp (parse_string_list n) (\<lambda>names. bindp (parse_string_list n) (\<lambda>keys.
         retp (Header \<lparr>ht_comparator = comparator, ht_match_type = mt, ht_names = names, ht_keys = keys\<rparr>))))"

definition parse_address :: "nat \<Rightarrow> nat \<Rightarrow> Test sieve_parser" where
  "parse_address n fuel =
     bindp (parse_address_tags n fuel AllParts AsciiCasemap Is) (\<lambda>(part, comparator, mt).
       bindp (parse_string_list n) (\<lambda>headers. bindp (parse_string_list n) (\<lambda>keys.
         retp (Address \<lparr>at_address_part = part, at_comparator = comparator, at_match_type = mt, at_headers = headers, at_keys = keys\<rparr>))))"

definition parse_envelope :: "nat \<Rightarrow> nat \<Rightarrow> Test sieve_parser" where
  "parse_envelope n fuel =
     bindp (parse_common_tags n fuel AsciiCasemap Is) (\<lambda>(comparator, mt).
       bindp (parse_string_list n) (\<lambda>parts. bindp (parse_string_list n) (\<lambda>keys.
         retp (Envelope \<lparr>et_comparator = comparator, et_match_type = mt, et_parts = parts, et_keys = keys\<rparr>))))"

text \<open>\<open>test_items\<close> is the loop of \<open>parse_test_list\<close>.\<close>

fun parse_test :: "nat \<Rightarrow> nat \<Rightarrow> Test sieve_parser"
  and parse_test_list :: "nat \<Rightarrow> nat \<Rightarrow> Test list sieve_parser"
  and test_items :: "nat \<Rightarrow> nat \<Rightarrow> bool \<Rightarrow> Test list \<Rightarrow> Test list sieve_parser" where
  "parse_test n 0 = failp (\<lambda>_. Panic)"
| "parse_test n (Suc fuel) =
     bindp nextp (\<lambda>t. case t of
         Some (Ident name) \<Rightarrow>
           let lower = to_ascii_lowercase name in
           if lower = ''allof'' then bindp (parse_test_list n fuel) (\<lambda>l. retp (AllOf l))
           else if lower = ''anyof'' then bindp (parse_test_list n fuel) (\<lambda>l. retp (AnyOf l))
           else if lower = ''not'' then bindp (parse_test n fuel) (\<lambda>t. retp (NotT t))
           else if lower = ''exists'' then bindp (parse_string_list n) (\<lambda>l. retp (Exists l))
           else if lower = ''true'' then retp TrueT
           else if lower = ''false'' then retp FalseT
           else if lower = ''size'' then parse_size n
           else if lower = ''header'' then parse_header n fuel
           else if lower = ''address'' then parse_address n fuel
           else if lower = ''envelope'' then parse_envelope n fuel
           else perr n (''unknown test `'' @ lower @ ''`'')
       | _ \<Rightarrow> perr n ''expected a test identifier'')"
| "parse_test_list n 0 = failp (\<lambda>_. Panic)"
| "parse_test_list n (Suc fuel) =
     bindp peekp (\<lambda>t.
       let paren = (t = Some LParen) in
       bindp (if paren then nextp else peekp) (\<lambda>_. bindp (test_items n fuel paren []) (\<lambda>v.
         if v = [] then perr n ''expected at least one test in `allof`/`anyof`'' else retp v)))"
| "test_items n 0 paren v = failp (\<lambda>_. Panic)"
| "test_items n (Suc fuel) paren v =
     bindp peekp (\<lambda>t. case t of
         Some (Ident name) \<Rightarrow>
           if is_test_name name then
             bindp (parse_test n fuel) (\<lambda>test. bindp peekp (\<lambda>t.
               if t = Some Comma then bindp nextp (\<lambda>_. test_items n fuel paren (v @ [test]))
               else if t = Some RParen then
                 (if paren then bindp nextp (\<lambda>_. retp (v @ [test])) else perr n ''unexpected `)` in test list'')
               else if paren then perr n ''expected `,` or `)` in test list''
               else retp (v @ [test])))
           else retp v
       | _ \<Rightarrow> retp v)"

section \<open>Commands\<close>

fun parse_if :: "nat \<Rightarrow> nat \<Rightarrow> Command sieve_parser"
  and if_branches :: "nat \<Rightarrow> nat \<Rightarrow> (Test \<times> Command list) list \<Rightarrow> Command list option \<Rightarrow>
    ((Test \<times> Command list) list \<times> Command list option) sieve_parser"
  and parse_block :: "nat \<Rightarrow> nat \<Rightarrow> Command list sieve_parser"
  and block_items :: "nat \<Rightarrow> nat \<Rightarrow> Command list \<Rightarrow> Command list sieve_parser" where
  "parse_if n 0 = failp (\<lambda>_. Panic)"
| "parse_if n (Suc fuel) =
     bindp (parse_test n fuel) (\<lambda>test. bindp (parse_block n fuel) (\<lambda>block.
       bindp (if_branches n fuel [] None) (\<lambda>(elsif, else_block). retp (IfCommand test block elsif else_block))))"
| "if_branches n 0 elsif else_block = failp (\<lambda>_. Panic)"
| "if_branches n (Suc fuel) elsif else_block =
     bindp peekp (\<lambda>t. case t of
         Some (Ident name) \<Rightarrow>
           if eq_ignore_ascii_case name ''elsif'' then
             bindp nextp (\<lambda>_. bindp (parse_test n fuel) (\<lambda>t. bindp (parse_block n fuel) (\<lambda>b.
               if_branches n fuel (elsif @ [(t, b)]) else_block)))
           else if eq_ignore_ascii_case name ''else'' then
             bindp nextp (\<lambda>_. bindp (parse_block n fuel) (\<lambda>b. if_branches n fuel elsif (Some b)))
           else retp (elsif, else_block)
       | _ \<Rightarrow> retp (elsif, else_block))"
| "parse_block n 0 = failp (\<lambda>_. Panic)"
| "parse_block n (Suc fuel) =
     bindp (expect n LBrace ''expected `{` to open a block'') (\<lambda>_. block_items n fuel [])"
| "block_items n 0 cmds = failp (\<lambda>_. Panic)"
| "block_items n (Suc fuel) cmds =
     bindp peekp (\<lambda>t. case t of
         Some RBrace \<Rightarrow> bindp nextp (\<lambda>_. retp cmds)
       | Some (Ident name) \<Rightarrow>
           let lower = to_ascii_lowercase name in
           if lower = ''require'' then perr n ''`require` is not allowed inside a block''
           else if lower = ''if'' then
             bindp nextp (\<lambda>_. bindp (parse_if n fuel) (\<lambda>c. block_items n fuel (cmds @ [c])))
           else if lower = ''elsif'' \<or> lower = ''else'' then perr n ''unexpected `elsif`/`else` without matching `if`''
           else
             bindp nextp (\<lambda>_. bindp (parse_action n lower) (\<lambda>action.
               bindp (expect n Semicolon (''action `'' @ lower @ ''` must be terminated with `;`'')) (\<lambda>_.
                 block_items n fuel (cmds @ [ActionC action]))))
       | Some _ \<Rightarrow> perr n ''expected a command or `}`''
       | None \<Rightarrow> perr n ''unterminated block (missing `}`)'')"

definition parse_require :: "nat \<Rightarrow> string list sieve_parser" where
  "parse_require n =
     bindp nextp (\<lambda>_. bindp (parse_string_list n) (\<lambda>list.
       bindp (expect n Semicolon ''`require` must be terminated with `;`'') (\<lambda>_. retp list)))"

definition parse_top_command :: "nat \<Rightarrow> nat \<Rightarrow> Command sieve_parser" where
  "parse_top_command n fuel =
     bindp nextp (\<lambda>t. case t of
         Some (Ident name) \<Rightarrow>
           let lower = to_ascii_lowercase name in
           if lower = ''if'' then parse_if n fuel
           else
             bindp (parse_action n lower) (\<lambda>action.
               bindp (expect n Semicolon (''action `'' @ lower @ ''` must be terminated with `;`'')) (\<lambda>_. retp (ActionC action)))
       | _ \<Rightarrow> perr n ''expected a command identifier'')"

primrec script_items :: "nat \<Rightarrow> nat \<Rightarrow> bool \<Rightarrow> Command list \<Rightarrow> string set \<Rightarrow> Script sieve_parser" where
  "script_items n 0 seen cmds caps = failp (\<lambda>_. Panic)"
| "script_items n (Suc fuel) seen cmds caps =
     bindp peekp (\<lambda>t. case t of
         None \<Rightarrow> retp \<lparr>commands = cmds, capabilities = caps\<rparr>
       | Some (Ident name) \<Rightarrow>
           if to_ascii_lowercase name = ''require'' then
             if seen then perr n ''`require` must precede all other commands''
             else bindp (parse_require n) (\<lambda>req. script_items n fuel seen (cmds @ [Require req]) (caps \<union> set req))
           else bindp (parse_top_command n fuel) (\<lambda>c. script_items n fuel True (cmds @ [c]) caps)
       | Some _ \<Rightarrow> perr n ''expected a command identifier at top level'')"

definition parse_script :: "Token list \<Rightarrow> SieveError failure + Script" where
  "parse_script tokens =
     (let n = length tokens in map_sum id fst (script_items n (3 * n + 4) False [] {} tokens))"

definition parse :: "string \<Rightarrow> SieveError failure + Script" where
  "parse input =
     (case tokenize (length input) input of
        Inl e \<Rightarrow> Inl (Err e)
      | Inr tokens \<Rightarrow> parse_script tokens)"

end
