(* ===== verification/Sieve_Syntax.thy ===== *)
theory Sieve_Syntax
  imports Sieve_Parser
begin

text \<open>
  Properties of the Sieve parser: it comes to an end on every input, and it inverts printing.
\<close>

section \<open>Fuel\<close>

abbreviation ends :: "nat \<Rightarrow> 'a sieve_parser \<Rightarrow> bool" where
  "ends \<equiv> ends_on length Panic"

abbreviation eats_k :: "nat \<Rightarrow> 'a sieve_parser \<Rightarrow> bool" where
  "eats_k \<equiv> consumes length"

named_theorems sieve_fuel \<open>totality and consumption of the parsers of Sieve\<close>

declare total_basic [sieve_fuel]

lemma fuel_leaf [sieve_fuel]:
  "eats_k 0 peekp" "ends l peekp" "eats_k 0 nextp" "ends l nextp" "eats_k k (perr n msg)" "ends l (perr n msg)"
  "eats_k 1 (expect n tok msg)" "eats_k 0 (expect n tok msg)" "ends l (expect n tok msg)" "parse_comparator c \<noteq> Inl Panic"
  by (auto simp: consumes_def ends_on_def peekp_def nextp_def perr_def expect_def bindp_def parse_comparator_def
      split: list.splits if_splits)

lemma string_items_fuel: "eats_k 0 (string_items n v)" "ends l (string_items n v)"
proof -
  have "string_items n v ts \<noteq> Inl Panic \<and> (\<forall>x r. string_items n v ts = Inr (x, r) \<longrightarrow> length r \<le> length ts)" for ts
    by (induction n v ts rule: string_items.induct) (auto simp: perr_def split: list.splits Token.splits)
  then show "eats_k 0 (string_items n v)" "ends l (string_items n v)" by (auto simp: consumes_def ends_on_def)
qed

lemma string_list_fuel [sieve_fuel]: "eats_k 1 (parse_string_list n)" "eats_k 0 (parse_string_list n)" "ends l (parse_string_list n)"
proof -
  have "parse_string_list n ts \<noteq> Inl Panic \<and> (\<forall>x r. parse_string_list n ts = Inr (x, r) \<longrightarrow> length r < length ts)" for ts
    using string_items_fuel by (force simp: consumes_def ends_on_def parse_string_list_def perr_def split: list.splits Token.splits)
  then show "eats_k 1 (parse_string_list n)" "eats_k 0 (parse_string_list n)" "ends l (parse_string_list n)"
    by (auto simp: consumes_def ends_on_def Suc_le_eq less_imp_le)
qed

text \<open>A parser that starts with \<open>nextp\<close> leaves one token less for what follows, unless there is none.\<close>

lemma next_ends:
  assumes "\<And>t m. l = Suc m \<Longrightarrow> ends m (f (Some t))" and "ends 0 (f None)"
  shows "ends l (bindp nextp f)"
  unfolding ends_on_def
proof (intro allI impI)
  fix ts :: "Token list"
  assume "length ts \<le> l"
  then show "bindp nextp f ts \<noteq> Inl Panic"
    using assms by (cases ts; cases l) (auto simp: ends_on_def bindp_def nextp_def)
qed

lemma next_consumes:
  assumes "\<And>t. eats_k 0 (f (Some t))" and "eats_k 1 (f None)"
  shows "eats_k 1 (bindp nextp f)"
  unfolding consumes_def
proof (intro allI impI)
  fix ts x r
  assume "bindp nextp f ts = Inr (x, r)"
  then show "length r + 1 \<le> length ts"
    using assms by (cases ts) (fastforce simp: consumes_def bindp_def nextp_def)+
qed

lemma peek_next [simp]:
  "bindp peekp f (t # ts) = f (Some t) (t # ts)" "bindp peekp f [] = f None []"
  "bindp nextp f (t # ts) = f (Some t) ts" "bindp nextp f [] = f None []"
  by (simp_all add: bindp_def peekp_def nextp_def)

lemma perr_simp [simp]: "perr n msg ts = Inl (Err (Parse (n - length ts) msg))"
  by (simp add: perr_def)

text \<open>After a look at the next token it suffices to know what the parser does from that token on.\<close>

lemma peek_ends:
  assumes "f None [] \<noteq> Inl Panic" and "\<And>t ts. length ts < l \<Longrightarrow> f (Some t) (t # ts) \<noteq> Inl Panic"
  shows "ends l (bindp peekp f)"
  unfolding ends_on_def
proof (intro allI impI)
  fix ts :: "Token list"
  assume "length ts \<le> l"
  then show "bindp peekp f ts \<noteq> Inl Panic" using assms by (cases ts) auto
qed

lemma peek_consumes:
  assumes "\<And>x r. f None [] = Inr (x, r) \<Longrightarrow> r = []" and "\<And>t ts x r. f (Some t) (t # ts) = Inr (x, r) \<Longrightarrow> length r \<le> Suc (length ts)"
  shows "eats_k 0 (bindp peekp f)"
  unfolding consumes_def
proof (intro allI impI)
  fix ts x r
  assume "bindp peekp f ts = Inr (x, r)"
  then show "length r + 0 \<le> length ts" using assms by (cases ts) auto
qed

lemma endsD: "ends l p \<Longrightarrow> length ts \<le> l \<Longrightarrow> p ts \<noteq> Inl Panic"
  by (simp add: ends_on_def)

lemma eatsD: "eats_k 0 p \<Longrightarrow> p ts = Inr (x, r) \<Longrightarrow> length r \<le> length ts"
  by (fastforce simp: consumes_def)

lemma tags_fuel [sieve_fuel]:
  "eats_k 0 (parse_common_tags n f c m)" "l < f \<Longrightarrow> ends l (parse_common_tags n f c m)"
proof -
  show "eats_k 0 (parse_common_tags n f c m)"
  proof (induction f arbitrary: c m)
    case (Suc f)
    have g: "eats_k 0 (bindp (parse_string_list n) (\<lambda>cl. bindp (liftp (parse_comparator cl)) (\<lambda>c. parse_common_tags n f c m)))"
      by (intro consumes_bind sieve_fuel Suc)
    show ?case unfolding parse_common_tags.simps
      by (rule peek_consumes) (auto split: Token.splits if_splits dest: eatsD [OF g] eatsD [OF Suc] intro: le_SucI)
  qed (simp add: sieve_fuel)
  show "ends l (parse_common_tags n f c m)" if "l < f" using that
  proof (induction f arbitrary: c m l)
    case (Suc f)
    have g: "l < f \<Longrightarrow> ends l (bindp (parse_string_list n) (\<lambda>cl. bindp (liftp (parse_comparator cl)) (\<lambda>c. parse_common_tags n f c m)))" for l
      by (intro total_bind sieve_fuel Suc.IH)
    have "parse_common_tags n f c' m' ts \<noteq> Inl Panic" if "length ts < l" for c' m' ts
      using endsD [OF Suc.IH order_refl] that Suc.prems by simp
    moreover have "bindp (parse_string_list n) (\<lambda>cl. bindp (liftp (parse_comparator cl)) (\<lambda>c. parse_common_tags n f c m)) ts \<noteq> Inl Panic"
      if "length ts < l" for ts using endsD [OF g order_refl] that Suc.prems by simp
    ultimately show ?case unfolding parse_common_tags.simps
      by (intro peek_ends) (simp_all split: Token.split)
  qed simp
qed

lemma address_tags_fuel [sieve_fuel]:
  "eats_k 0 (parse_address_tags n f p c m)" "l < f \<Longrightarrow> ends l (parse_address_tags n f p c m)"
proof -
  show "eats_k 0 (parse_address_tags n f p c m)"
  proof (induction f arbitrary: p c m)
    case (Suc f)
    have g: "eats_k 0 (bindp (parse_string_list n) (\<lambda>cl. bindp (liftp (parse_comparator cl)) (\<lambda>c. parse_address_tags n f p c m)))"
      by (intro consumes_bind sieve_fuel Suc)
    show ?case unfolding parse_address_tags.simps
      by (rule peek_consumes) (auto split: Token.splits if_splits dest: eatsD [OF g] eatsD [OF Suc] intro: le_SucI)
  qed (simp add: sieve_fuel)
  show "ends l (parse_address_tags n f p c m)" if "l < f" using that
  proof (induction f arbitrary: p c m l)
    case (Suc f)
    have g: "l < f \<Longrightarrow> ends l (bindp (parse_string_list n) (\<lambda>cl. bindp (liftp (parse_comparator cl)) (\<lambda>c. parse_address_tags n f p c m)))" for l
      by (intro total_bind sieve_fuel Suc.IH)
    have "parse_address_tags n f p' c' m' ts \<noteq> Inl Panic" if "length ts < l" for p' c' m' ts
      using endsD [OF Suc.IH order_refl] that Suc.prems by simp
    moreover have "bindp (parse_string_list n) (\<lambda>cl. bindp (liftp (parse_comparator cl)) (\<lambda>c. parse_address_tags n f p c m)) ts \<noteq> Inl Panic"
      if "length ts < l" for ts using endsD [OF g order_refl] that Suc.prems by simp
    ultimately show ?case unfolding parse_address_tags.simps
      by (intro peek_ends) (simp_all split: Token.split)
  qed simp
qed

lemma leaf_tests_fuel [sieve_fuel]:
  "eats_k 0 (parse_size n)" "ends l (parse_size n)" "eats_k 0 (parse_header n f)" "l < f \<Longrightarrow> ends l (parse_header n f)"
  "eats_k 0 (parse_address n f)" "l < f \<Longrightarrow> ends l (parse_address n f)"
  "eats_k 0 (parse_envelope n f)" "l < f \<Longrightarrow> ends l (parse_envelope n f)"
  unfolding parse_size_def parse_header_def parse_address_def parse_envelope_def
  by (auto intro!: consumes_bind total_bind sieve_fuel split: option.splits Token.splits prod.splits)

lemma action_fuel [sieve_fuel]: "eats_k 0 (parse_action n lower)" "ends l (parse_action n lower)"
  unfolding parse_action_def by (auto intro!: consumes_bind total_bind sieve_fuel split: list.splits)

lemma test_consumes:
  "eats_k 1 (parse_test n f) \<and> eats_k 0 (parse_test_list n f) \<and> (\<forall>paren v. eats_k 0 (test_items n f paren v))"
proof (induction f)
  case (Suc f)
  have t: "eats_k 1 (parse_test n f)" "eats_k 0 (parse_test n f)" "eats_k 0 (parse_test_list n f)" "eats_k 0 (test_items n f paren v)" for paren v
    using Suc consumes_weaken by blast+
  have "eats_k 1 (parse_test n (Suc f))" unfolding parse_test.simps
    by (rule next_consumes) (auto intro!: consumes_bind sieve_fuel t simp: Let_def split: Token.splits)
  moreover have "eats_k 0 (parse_test_list n (Suc f))" unfolding parse_test_list.simps
    by (auto intro!: consumes_bind sieve_fuel t simp: Let_def)
  moreover have "eats_k 0 (test_items n (Suc f) paren v)" for paren v unfolding test_items.simps
    by (auto intro!: consumes_bind sieve_fuel t simp: Let_def split: option.splits Token.splits)
  ultimately show ?case by blast
qed (simp add: consumes_def)

lemma test_ends:
  "(3 * l < f \<longrightarrow> ends l (parse_test n f)) \<and> (3 * l + 2 < f \<longrightarrow> ends l (parse_test_list n f)) \<and>
    (\<forall>paren v. 3 * l + 1 < f \<longrightarrow> ends l (test_items n f paren v))"
proof (induction f arbitrary: l)
  case (Suc f)
  have c: "eats_k 1 (parse_test n f)" "eats_k 0 (parse_test n f)" "eats_k 0 (parse_test_list n f)" "eats_k 0 (test_items n f paren v)" for paren v
    using test_consumes consumes_weaken by blast+
  have e: "3 * l < f \<Longrightarrow> ends l (parse_test n f)" "3 * l + 2 < f \<Longrightarrow> ends l (parse_test_list n f)" "3 * l + 1 < f \<Longrightarrow> ends l (test_items n f paren v)"
    for l paren v using Suc by blast+
  have "ends l (parse_test n (Suc f))" if "3 * l < Suc f" unfolding parse_test.simps using that
    by (intro next_ends) (auto intro!: total_bind sieve_fuel c e simp: Let_def split: Token.splits)
  moreover have "ends l (parse_test_list n (Suc f))" if "3 * l + 2 < Suc f" unfolding parse_test_list.simps using that
    by (auto intro!: total_bind sieve_fuel c e simp: Let_def)
  moreover have "ends l (test_items n (Suc f) paren v)" if lt: "3 * l + 1 < Suc f" for paren v
  proof -
    have "ends l (bindp (parse_test n f) (\<lambda>test. bindp peekp (\<lambda>t.
        if t = Some Comma then bindp nextp (\<lambda>_. test_items n f paren (v @ [test]))
        else if t = Some RParen then (if paren then bindp nextp (\<lambda>_. retp (v @ [test])) else perr n m1)
        else if paren then perr n m2 else retp (v @ [test]))))" for m1 m2
      using lt by (intro total_bind_consume [OF e(1) c(1)]) (auto intro!: total_bind sieve_fuel e)
    then show ?thesis unfolding test_items.simps
      by (intro total_bind sieve_fuel) (auto intro!: sieve_fuel split: option.splits Token.splits)
  qed
  ultimately show ?case by blast
qed simp

lemma command_consumes:
  "eats_k 1 (parse_if n f) \<and> (\<forall>es e. eats_k 0 (if_branches n f es e)) \<and> eats_k 1 (parse_block n f) \<and> (\<forall>cs. eats_k 0 (block_items n f cs))"
proof (induction f)
  case (Suc f)
  have c: "eats_k 0 (parse_if n f)" "eats_k 0 (if_branches n f es e)" "eats_k 0 (parse_block n f)" "eats_k 0 (block_items n f cs)"
      "eats_k 1 (parse_test n f)" "eats_k 0 (parse_test n f)" for es e cs
    using Suc test_consumes consumes_weaken by blast+
  have "eats_k 1 (parse_if n (Suc f))" unfolding parse_if.simps
    by (intro consumes_bind [OF c(5)]) (auto intro!: consumes_bind sieve_fuel c)
  moreover have "eats_k 0 (if_branches n (Suc f) es e)" for es e unfolding if_branches.simps
    by (auto intro!: consumes_bind sieve_fuel c split: option.splits Token.splits)
  moreover have "eats_k 1 (parse_block n (Suc f))" unfolding parse_block.simps
    by (intro consumes_bind sieve_fuel c)
  moreover have "eats_k 0 (block_items n (Suc f) cs)" for cs unfolding block_items.simps
    by (auto intro!: consumes_bind sieve_fuel c simp: Let_def split: option.splits Token.splits)
  ultimately show ?case by blast
qed (simp add: consumes_def)

lemma command_ends:
  "(3 * l + 1 < f \<longrightarrow> ends l (parse_if n f)) \<and> (\<forall>es e. 3 * l + 1 < f \<longrightarrow> ends l (if_branches n f es e)) \<and>
    (3 * l < f \<longrightarrow> ends l (parse_block n f)) \<and> (\<forall>cs. 3 * l + 2 < f \<longrightarrow> ends l (block_items n f cs))"
proof (induction f arbitrary: l)
  case (Suc f)
  have c: "eats_k 1 (parse_if n f)" "eats_k 1 (parse_test n f)" "eats_k 1 (parse_block n f)" "eats_k 0 (parse_test n f)" "eats_k 0 (parse_block n f)"
      "eats_k 0 (if_branches n f es e)" for es e
    using command_consumes test_consumes consumes_weaken by blast+
  have e: "3 * l + 1 < f \<Longrightarrow> ends l (parse_if n f)" "3 * l + 1 < f \<Longrightarrow> ends l (if_branches n f es e)"
      "3 * l < f \<Longrightarrow> ends l (parse_block n f)" "3 * l + 2 < f \<Longrightarrow> ends l (block_items n f cs)" "3 * l < f \<Longrightarrow> ends l (parse_test n f)"
    for l es e cs using Suc test_ends by blast+
  have "ends l (parse_if n (Suc f))" if "3 * l + 1 < Suc f" unfolding parse_if.simps using that
    by (intro total_bind_consume [OF e(5) c(2)]) (auto intro!: total_bind sieve_fuel c e)
  moreover have "ends l (if_branches n (Suc f) es e0)" if lt: "3 * l + 1 < Suc f" for es e0
  proof -
    have "ends l (bindp (parse_test n f) (\<lambda>t. bindp (parse_block n f) (\<lambda>b. if_branches n f (es @ [(t, b)]) e0)))"
      using lt by (intro total_bind_consume [OF e(5) c(2)]) (auto intro!: total_bind sieve_fuel c e)
    moreover have "ends l (bindp (parse_block n f) (\<lambda>b. if_branches n f es (Some b)))"
      using lt by (intro total_bind_consume [OF e(3) c(3)]) (auto intro!: e)
    ultimately show ?thesis unfolding if_branches.simps
      by (auto intro!: total_bind [of _ _ _ peekp] total_bind [of _ _ _ nextp] sieve_fuel split: option.splits Token.splits)
  qed
  moreover have "ends l (parse_block n (Suc f))" if "3 * l < Suc f" unfolding parse_block.simps using that
    by (intro total_bind_consume [OF _ fuel_leaf(7)]) (auto intro!: sieve_fuel e)
  moreover have "ends l (block_items n (Suc f) cs)" if lt: "3 * l + 2 < Suc f" for cs
  proof -
    have "ends l (bindp (parse_if n f) (\<lambda>c. block_items n f (cs @ [c])))"
      using lt by (intro total_bind_consume [OF e(1) c(1)]) (auto intro!: e)
    moreover have "ends l (bindp (expect n tok msg) (\<lambda>_. block_items n f (cs @ [ActionC a])))" for tok msg a
      using lt by (intro total_bind_consume [OF _ fuel_leaf(7)]) (auto intro!: sieve_fuel e)
    ultimately show ?thesis unfolding block_items.simps
      by (auto intro!: total_bind [of _ _ _ peekp] total_bind [of _ _ _ nextp] total_bind [of _ _ _ "parse_action n msg" for msg] sieve_fuel
          simp: Let_def split: option.splits Token.splits)
  qed
  ultimately show ?case by blast
qed simp

lemma script_items_ends: "3 * l < f \<Longrightarrow> ends l (script_items n f seen cmds caps)"
proof (induction f arbitrary: l seen cmds caps)
  case (Suc f)
  have req: "eats_k 1 (parse_require n)" "ends l (parse_require n)" unfolding parse_require_def
    by (rule next_consumes; intro consumes_bind sieve_fuel) (intro total_bind sieve_fuel)
  have "eats_k 0 (parse_if n f)" using command_consumes consumes_weaken by blast
  then have top: "eats_k 1 (parse_top_command n f)" unfolding parse_top_command_def
    by (intro next_consumes) (auto intro!: consumes_bind sieve_fuel simp: Let_def split: Token.splits)
  have "ends m (parse_if n f)" if "l = Suc m" for m using that Suc.prems command_ends [of m f n] by simp
  then have top': "ends l (parse_top_command n f)" unfolding parse_top_command_def
    by (intro next_ends) (auto intro!: total_bind sieve_fuel simp: Let_def split: Token.splits)
  have "ends l (bindp (parse_require n) (\<lambda>req. script_items n f seen (cmds @ [Require req]) (caps \<union> set req)))"
      "ends l (bindp (parse_top_command n f) (\<lambda>c. script_items n f True (cmds @ [c]) caps))"
    using Suc by (auto intro!: total_bind_consume [OF req(2) req(1)] total_bind_consume [OF top' top])
  then show ?case unfolding script_items.simps
    by (auto intro!: total_bind [of _ _ _ peekp] sieve_fuel simp: Let_def split: option.splits Token.splits)
qed simp

text \<open>
  C35: Parsing comes to an end on every text: the recursion of the parser never uses up the fuel it starts with, three units for each
  token and four more. The result is a script or one of the crate's errors.
\<close>

theorem sieve_parse_total: "parse input \<noteq> Inl Panic"
proof -
  have "script_items n (3 * n + 4) False [] {} ts \<noteq> Inl Panic" if "length ts = n" for n ts
    using script_items_ends [of n "3 * n + 4" n False "[]" "{}"] that by (simp add: ends_on_def)
  then have "parse_script ts \<noteq> Inl Panic" for ts
    by (cases "script_items (length ts) (3 * length ts + 4) False [] {} ts") (auto simp: parse_script_def Let_def)
  then show ?thesis by (auto simp: parse_def split: sum.split)
qed

section \<open>Printing\<close>

fun sep :: "Token list list \<Rightarrow> Token list" where
  "sep [] = []"
| "sep [x] = x"
| "sep (x # xs) = x @ Comma # sep xs"

definition string_toks :: "string list \<Rightarrow> Token list" where
  "string_toks ss = LBracket # sep (map (\<lambda>s. [StringT s]) ss) @ [RBracket]"

definition comparator_toks :: "Comparator \<Rightarrow> Token list" where
  "comparator_toks c = [Tag '':comparator'', StringT (case c of AsciiCasemap \<Rightarrow> ''i;ascii-casemap'' | Octet \<Rightarrow> ''i;octet'')]"

definition match_toks :: "MatchType \<Rightarrow> Token list" where
  "match_toks m = [Tag (case m of Is \<Rightarrow> '':is'' | Contains \<Rightarrow> '':contains'' | Matches \<Rightarrow> '':matches'')]"

definition part_toks :: "AddressPart \<Rightarrow> Token list" where
  "part_toks p = [Tag (case p of AllParts \<Rightarrow> '':all'' | LocalPart \<Rightarrow> '':localpart'' | DomainPart \<Rightarrow> '':domain'')]"

fun test_toks :: "Test \<Rightarrow> Token list" where
  "test_toks (AllOf ts) = Ident ''allof'' # LParen # sep (map test_toks ts) @ [RParen]"
| "test_toks (AnyOf ts) = Ident ''anyof'' # LParen # sep (map test_toks ts) @ [RParen]"
| "test_toks (NotT t) = Ident ''not'' # test_toks t"
| "test_toks (Exists l) = Ident ''exists'' # string_toks l"
| "test_toks TrueT = [Ident ''true'']"
| "test_toks FalseT = [Ident ''false'']"
| "test_toks (Size over amount) = [Ident ''size'', Tag (if over then '':over'' else '':under''), Number amount]"
| "test_toks (Header h) = Ident ''header'' # comparator_toks (ht_comparator h) @ match_toks (ht_match_type h) @
     string_toks (ht_names h) @ string_toks (ht_keys h)"
| "test_toks (Address a) = Ident ''address'' # part_toks (at_address_part a) @ comparator_toks (at_comparator a) @
     match_toks (at_match_type a) @ string_toks (at_headers a) @ string_toks (at_keys a)"
| "test_toks (Envelope e) = Ident ''envelope'' # comparator_toks (et_comparator e) @ match_toks (et_match_type e) @
     string_toks (et_parts e) @ string_toks (et_keys e)"

text \<open>Lists have at least one element; the grammar has no empty lists.\<close>

fun test_wf :: "Test \<Rightarrow> bool" where
  "test_wf (AllOf ts) \<longleftrightarrow> ts \<noteq> [] \<and> list_all test_wf ts"
| "test_wf (AnyOf ts) \<longleftrightarrow> ts \<noteq> [] \<and> list_all test_wf ts"
| "test_wf (NotT t) \<longleftrightarrow> test_wf t"
| "test_wf (Exists l) \<longleftrightarrow> l \<noteq> []"
| "test_wf (Header h) \<longleftrightarrow> ht_names h \<noteq> [] \<and> ht_keys h \<noteq> []"
| "test_wf (Address a) \<longleftrightarrow> at_headers a \<noteq> [] \<and> at_keys a \<noteq> []"
| "test_wf (Envelope e) \<longleftrightarrow> et_parts e \<noteq> [] \<and> et_keys e \<noteq> []"
| "test_wf _ \<longleftrightarrow> True"

lemma parse_string_toks:
  assumes "ss \<noteq> []"
  shows "parse_string_list n (string_toks ss @ r) = Inr (ss, r)"
proof -
  have "string_items n v (sep (map (\<lambda>s. [StringT s]) ss) @ RBracket # r) = Inr (v @ ss, r)" for v using assms
  proof (induction ss arbitrary: v)
    case (Cons s ss)
    then show ?case by (cases ss) simp_all
  qed simp
  then show ?thesis by (simp add: parse_string_list_def string_toks_def)
qed

lemma bind_string_toks: "ss \<noteq> [] \<Longrightarrow> bindp (parse_string_list n) f (string_toks ss @ r) = f ss r"
  by (simp add: bindp_def parse_string_toks)

lemma bind_expect [simp]: "bindp (expect n tok msg) g (tok # ts) = g () ts"
proof -
  have "expect n tok msg (tok # ts) = Inr ((), ts)" by (simp add: expect_def)
  then show ?thesis by (simp add: bindp_def)
qed

lemma bind_simps [simp]:
  "bindp (parse_string_list n) g (StringT s # ts) = g [s] ts" "bindp (liftp (Inr x)) h us = h x us" "bindp (retp y) k vs = k y vs"
  by (simp_all add: bindp_def parse_string_list_def)

lemma comparator_toks_read [simp]: "parse_comparator [case c of AsciiCasemap \<Rightarrow> ''i;ascii-casemap'' | Octet \<Rightarrow> ''i;octet''] = Inr c"
  by (cases c) (simp_all add: parse_comparator_def)

lemma tags_end:
  "parse_common_tags n (Suc f) c m (string_toks ss @ r) = Inr ((c, m), string_toks ss @ r)"
  "parse_address_tags n (Suc f) p c m (string_toks ss @ r) = Inr ((p, c, m), string_toks ss @ r)"
  by (simp_all add: string_toks_def)

lemma common_tags_toks:
  "parse_common_tags n (Suc (Suc (Suc f))) c0 m0 (comparator_toks c @ match_toks m @ string_toks ss @ r) = Inr ((c, m), string_toks ss @ r)"
  using tags_end(1) by (cases m) (simp_all add: comparator_toks_def match_toks_def)

lemma address_tags_toks:
  "parse_address_tags n (Suc (Suc (Suc (Suc f)))) p0 c0 m0 (part_toks p @ comparator_toks c @ match_toks m @ string_toks ss @ r) =
    Inr ((p, c, m), string_toks ss @ r)"
  using tags_end(2) by (cases p; cases m) (simp_all add: part_toks_def comparator_toks_def match_toks_def)

definition reads :: "nat \<Rightarrow> Test \<Rightarrow> bool" where
  "reads n t \<longleftrightarrow> (\<forall>f r. 3 * length (test_toks t) < f \<longrightarrow> parse_test n f (test_toks t @ r) = Inr (t, r))"

lemma test_toks_head: "\<exists>name tk. test_toks t = Ident name # tk \<and> is_test_name name"
  by (cases t) (simp_all add: is_test_name_def ascii_lower_def)

lemma bind_reads: "reads n t \<Longrightarrow> 3 * length (test_toks t) < f \<Longrightarrow> bindp (parse_test n f) g (test_toks t @ r) = g t r"
  by (simp add: reads_def bindp_def)

lemma test_items_toks:
  assumes "ts \<noteq> []" and "\<forall>t\<in>set ts. reads n t" and "3 * length (sep (map test_toks ts)) + 1 < f"
  shows "test_items n f True v (sep (map test_toks ts) @ RParen # r) = Inr (v @ ts, r)"
  using assms
proof (induction ts arbitrary: f v)
  case (Cons t ts)
  obtain f' where f: "f = Suc f'" using Cons.prems(3) by (cases f) simp_all
  obtain name tk where tk: "test_toks t = Ident name # tk" "is_test_name name" using test_toks_head by blast
  have "3 * length (test_toks t) < f'" using Cons.prems(3) f by (cases ts) simp_all
  then have t: "bindp (parse_test n f') g (Ident name # tk @ r) = g t r" for g :: "Test \<Rightarrow> Test list sieve_parser" and r
    using bind_reads [of n t f' g r] Cons.prems(2) tk(1) by simp
  show ?case
  proof (cases ts)
    case Nil
    then show ?thesis using t tk f by simp
  next
    case (Cons u us)
    then have "test_items n f' True (v @ [t]) (sep (map test_toks ts) @ RParen # r) = Inr ((v @ [t]) @ ts, r)"
      using Cons.IH [of f' "v @ [t]"] Cons.prems f by simp
    then show ?thesis using t tk f Cons by simp
  qed
qed simp

lemma test_list_toks:
  assumes "ts \<noteq> []" and "\<forall>t\<in>set ts. reads n t" and "3 * length (sep (map test_toks ts)) + 3 < f"
  shows "parse_test_list n f (LParen # sep (map test_toks ts) @ RParen # r) = Inr (ts, r)"
proof -
  obtain f' where f: "f = Suc f'" using assms(3) by (cases f) simp_all
  have "test_items n f' True [] (sep (map test_toks ts) @ RParen # r) = Inr (ts, r)"
    using test_items_toks [OF assms(1, 2), of f' "[]" r] assms(3) f by simp
  then show ?thesis using assms(1) f by (simp add: bindp_def [of "test_items n f' True []"])
qed

lemma fuel_five: "5 \<le> f \<Longrightarrow> \<exists>g. f = Suc (Suc (Suc (Suc (Suc g))))"
  by (rule exI [of _ "f - 5"]) simp

lemma reads_header:
  assumes "ht_names h \<noteq> []" and "ht_keys h \<noteq> []"
  shows "reads n (Header h)"
  unfolding reads_def
proof (intro allI impI)
  fix f r
  assume "3 * length (test_toks (Header h)) < f"
  then obtain g where g: "f = Suc (Suc (Suc (Suc (Suc g))))" using fuel_five [of f] by (auto simp: comparator_toks_def)
  let ?f = "Suc (Suc (Suc (Suc g)))"
  have "parse_header n ?f (comparator_toks (ht_comparator h) @ match_toks (ht_match_type h) @
      string_toks (ht_names h) @ string_toks (ht_keys h) @ r) = Inr (Header h, r)"
    using assms by (simp add: parse_header_def bindp_def [of "parse_common_tags n ?f AsciiCasemap Is"]
        common_tags_toks bind_string_toks del: parse_common_tags.simps)
  then show "parse_test n f (test_toks (Header h) @ r) = Inr (Header h, r)" unfolding g by (simp add: ascii_lower_def)
qed

lemma reads_address:
  assumes "at_headers a \<noteq> []" and "at_keys a \<noteq> []"
  shows "reads n (Address a)"
  unfolding reads_def
proof (intro allI impI)
  fix f r
  assume "3 * length (test_toks (Address a)) < f"
  then obtain g where g: "f = Suc (Suc (Suc (Suc (Suc g))))" using fuel_five [of f] by (auto simp: comparator_toks_def)
  let ?f = "Suc (Suc (Suc (Suc g)))"
  have "parse_address n ?f (part_toks (at_address_part a) @ comparator_toks (at_comparator a) @ match_toks (at_match_type a) @
      string_toks (at_headers a) @ string_toks (at_keys a) @ r) = Inr (Address a, r)"
    using assms by (simp add: parse_address_def bindp_def [of "parse_address_tags n ?f AllParts AsciiCasemap Is"]
        address_tags_toks bind_string_toks del: parse_address_tags.simps)
  then show "parse_test n f (test_toks (Address a) @ r) = Inr (Address a, r)" unfolding g by (simp add: ascii_lower_def)
qed

lemma reads_envelope:
  assumes "et_parts e \<noteq> []" and "et_keys e \<noteq> []"
  shows "reads n (Envelope e)"
  unfolding reads_def
proof (intro allI impI)
  fix f r
  assume "3 * length (test_toks (Envelope e)) < f"
  then obtain g where g: "f = Suc (Suc (Suc (Suc (Suc g))))" using fuel_five [of f] by (auto simp: comparator_toks_def)
  let ?f = "Suc (Suc (Suc (Suc g)))"
  have "parse_envelope n ?f (comparator_toks (et_comparator e) @ match_toks (et_match_type e) @
      string_toks (et_parts e) @ string_toks (et_keys e) @ r) = Inr (Envelope e, r)"
    using assms by (simp add: parse_envelope_def bindp_def [of "parse_common_tags n ?f AsciiCasemap Is"]
        common_tags_toks bind_string_toks del: parse_common_tags.simps)
  then show "parse_test n f (test_toks (Envelope e) @ r) = Inr (Envelope e, r)" unfolding g by (simp add: ascii_lower_def)
qed

lemma reads_list:
  assumes "ts \<noteq> []" and "\<forall>t\<in>set ts. reads n t"
  shows "reads n (AllOf ts)" and "reads n (AnyOf ts)"
proof -
  have l: "parse_test_list n f (LParen # sep (map test_toks ts) @ RParen # r) = Inr (ts, r)"
    if "3 * length (sep (map test_toks ts)) + 8 < f" for f r
    using test_list_toks [OF assms, of f r] that by simp
  have all: "parse_test n (Suc f) (test_toks (AllOf ts) @ r) = Inr (AllOf ts, r)"
      and any: "parse_test n (Suc f) (test_toks (AnyOf ts) @ r) = Inr (AnyOf ts, r)"
    if "3 * length (sep (map test_toks ts)) + 8 < f" for f r
    using l [OF that, of r] by (simp_all add: ascii_lower_def bindp_def [of "parse_test_list n f"])
  have pos: "3 * length (test_toks (AllOf ts)) < f \<Longrightarrow> \<exists>g. f = Suc g \<and> 3 * length (sep (map test_toks ts)) + 8 < g"
      "3 * length (test_toks (AnyOf ts)) < f \<Longrightarrow> \<exists>g. f = Suc g \<and> 3 * length (sep (map test_toks ts)) + 8 < g" for f
    by (cases f; simp)+
  show "reads n (AllOf ts)" unfolding reads_def using all pos(1) by blast
  show "reads n (AnyOf ts)" unfolding reads_def using any pos(2) by blast
qed

lemma reads_leaf: "(\<And>f r. parse_test n (Suc f) (test_toks t @ r) = Inr (t, r)) \<Longrightarrow> reads n t"
  unfolding reads_def by (metis not_less_zero not0_implies_Suc)

lemma reads_wf: "test_wf t \<Longrightarrow> reads n t"
proof (induction t)
  case (NotT t)
  then have t: "reads n t" by simp
  show ?case unfolding reads_def
  proof (intro allI impI)
    fix f r
    assume "3 * length (test_toks (NotT t)) < f"
    then obtain g where "f = Suc g" "3 * length (test_toks t) < g" by (cases f) auto
    then show "parse_test n f (test_toks (NotT t) @ r) = Inr (NotT t, r)" by (simp add: ascii_lower_def bind_reads [OF t])
  qed
next
  case (Exists l)
  then show ?case by (intro reads_leaf) (simp add: ascii_lower_def bind_string_toks)
next
  case (Size over amount)
  show ?case by (rule reads_leaf) (simp add: ascii_lower_def parse_size_def)
next
  case TrueT
  show ?case by (rule reads_leaf) (simp add: ascii_lower_def)
next
  case FalseT
  show ?case by (rule reads_leaf) (simp add: ascii_lower_def)
qed (auto intro!: reads_list reads_header reads_address reads_envelope simp: list_all_iff)

section \<open>Printing commands\<close>

fun action_toks :: "Action \<Rightarrow> Token list" where
  "action_toks Keep = [Ident ''keep'']"
| "action_toks Discard = [Ident ''discard'']"
| "action_toks Stop = [Ident ''stop'']"
| "action_toks (Redirect a) = Ident ''redirect'' # string_toks [a]"
| "action_toks (FileInto a) = Ident ''fileinto'' # string_toks [a]"

fun cmd_toks :: "Command \<Rightarrow> Token list" where
  "cmd_toks (Require ss) = Ident ''require'' # string_toks ss @ [Semicolon]"
| "cmd_toks (IfCommand t b es e) =
     Ident ''if'' # test_toks t @ (LBrace # concat (map cmd_toks b) @ [RBrace]) @
     concat (map (\<lambda>(t, b). Ident ''elsif'' # test_toks t @ (LBrace # concat (map cmd_toks b) @ [RBrace])) es) @
     (case e of None \<Rightarrow> [] | Some b \<Rightarrow> Ident ''else'' # (LBrace # concat (map cmd_toks b) @ [RBrace]))"
| "cmd_toks (ActionC a) = action_toks a @ [Semicolon]"

abbreviation block_toks :: "Command list \<Rightarrow> Token list" where
  "block_toks b \<equiv> LBrace # concat (map cmd_toks b) @ [RBrace]"

abbreviation branch_toks :: "(Test \<times> Command list) list \<Rightarrow> Command list option \<Rightarrow> Token list" where
  "branch_toks es e \<equiv> concat (map (\<lambda>(t, b). Ident ''elsif'' # test_toks t @ block_toks b) es) @
     (case e of None \<Rightarrow> [] | Some b \<Rightarrow> Ident ''else'' # block_toks b)"

text \<open>Commands of a block: no \<open>require\<close>, and the tests can be printed.\<close>

fun cmd_wf :: "Command \<Rightarrow> bool" where
  "cmd_wf (Require ss) \<longleftrightarrow> False"
| "cmd_wf (IfCommand t b es e) \<longleftrightarrow> test_wf t \<and> list_all cmd_wf b \<and> list_all (\<lambda>(t, b). test_wf t \<and> list_all cmd_wf b) es \<and>
     (case e of None \<Rightarrow> True | Some b \<Rightarrow> list_all cmd_wf b)"
| "cmd_wf (ActionC a) \<longleftrightarrow> True"

definition no_else :: "Token list \<Rightarrow> bool" where
  "no_else ts \<longleftrightarrow> (case ts of Ident name # _ \<Rightarrow> to_ascii_lowercase name \<notin> {''elsif'', ''else''} | _ \<Rightarrow> True)"

text \<open>What it takes to read a command: an \<open>if\<close> after its keyword, an action with its name.\<close>

definition reads_if :: "nat \<Rightarrow> Command \<Rightarrow> bool" where
  "reads_if n c \<longleftrightarrow> (\<forall>f r. 3 * length (cmd_toks c) \<le> f + 1 \<longrightarrow> no_else r \<longrightarrow> parse_if n f (tl (cmd_toks c) @ r) = Inr (c, r))"

lemma action_read:
  obtains name tk where "action_toks a = Ident name # tk" "to_ascii_lowercase name = name"
    "name \<notin> {''require'', ''if'', ''elsif'', ''else''}" "\<And>n r. parse_action n name (tk @ r) = Inr (a, r)"
proof (cases a)
  case (Redirect s)
  then show ?thesis using that [of "''redirect''" "string_toks [s]"] bind_string_toks [of "[s]"]
    by (simp add: ascii_lower_def parse_action_def bindp_def parse_string_toks)
next
  case (FileInto s)
  then show ?thesis using that [of "''fileinto''" "string_toks [s]"]
    by (simp add: ascii_lower_def parse_action_def bindp_def parse_string_toks)
qed (use that in \<open>simp_all add: ascii_lower_def parse_action_def\<close>)

lemma cmd_no_else: "cmd_wf c \<Longrightarrow> no_else (cmd_toks c @ r)"
proof (cases c)
  case (ActionC a)
  obtain name tk where "action_toks a = Ident name # tk" "to_ascii_lowercase name = name" "name \<notin> {''require'', ''if'', ''elsif'', ''else''}"
    by (rule action_read)
  then show ?thesis using ActionC by (simp add: no_else_def)
qed (simp_all add: no_else_def ascii_lower_def)

lemma block_items_toks:
  assumes "\<forall>c\<in>set cs. cmd_wf c \<and> ((\<exists>t b es e. c = IfCommand t b es e) \<longrightarrow> reads_if n c)"
    and "3 * length (concat (map cmd_toks cs)) + 2 < f"
  shows "block_items n f acc (concat (map cmd_toks cs) @ RBrace # r) = Inr (acc @ cs, r)"
  using assms
proof (induction cs arbitrary: f acc)
  case Nil
  then show ?case by (cases f) simp_all
next
  case (Cons c cs)
  obtain g where f: "f = Suc g" using Cons.prems(2) by (cases f) simp_all
  let ?rest = "concat (map cmd_toks cs) @ RBrace # r"
  have ne: "no_else ?rest" using Cons.prems(1) cmd_no_else by (cases cs) (simp_all add: no_else_def)
  have pos: "1 \<le> length (cmd_toks c)" by (cases c) simp_all
  have IH: "block_items n g (acc @ [c]) ?rest = Inr ((acc @ [c]) @ cs, r)"
    using Cons.IH [of g "acc @ [c]"] Cons.prems f pos by simp
  show ?case
  proof (cases c)
    case (ActionC a)
    obtain name tk where a: "action_toks a = Ident name # tk" "to_ascii_lowercase name = name"
        "name \<notin> {''require'', ''if'', ''elsif'', ''else''}" "\<And>n r. parse_action n name (tk @ r) = Inr (a, r)"
      by (rule action_read) blast
    then show ?thesis using IH f ActionC by (simp add: bindp_def [of "parse_action n name"])
  next
    case (IfCommand t b es e)
    then have "parse_if n g (tl (cmd_toks c) @ ?rest) = Inr (c, ?rest)"
      using Cons.prems f ne by (auto simp: reads_if_def)
    then show ?thesis using IH f IfCommand by (simp add: bindp_def [of "parse_if n g"] ascii_lower_def)
  qed (use Cons.prems in simp)
qed

definition reads_block :: "nat \<Rightarrow> Command list \<Rightarrow> bool" where
  "reads_block n b \<longleftrightarrow> (\<forall>f r. 3 * length (block_toks b) < f \<longrightarrow> parse_block n f (block_toks b @ r) = Inr (b, r))"

lemma reads_blockI:
  assumes "\<forall>c\<in>set cs. cmd_wf c \<and> ((\<exists>t b es e. c = IfCommand t b es e) \<longrightarrow> reads_if n c)"
  shows "reads_block n cs"
  unfolding reads_block_def
proof (intro allI impI)
  fix f r
  assume "3 * length (block_toks cs) < f"
  then obtain g where "f = Suc g" "3 * length (concat (map cmd_toks cs)) + 2 < g" by (cases f) auto
  then show "parse_block n f (block_toks cs @ r) = Inr (cs, r)" using block_items_toks [OF assms, of g "[]" r] by simp
qed

lemma bind_block: "reads_block n b \<Longrightarrow> 3 * length (block_toks b) < f \<Longrightarrow> bindp (parse_block n f) g (block_toks b @ r) = g b r"
  unfolding reads_block_def bindp_def by simp

lemma branches_toks:
  assumes "\<forall>(t, b)\<in>set es. test_wf t \<and> reads_block n b" and "\<forall>b. e = Some b \<longrightarrow> reads_block n b" and "no_else r"
    and "3 * length (branch_toks es e) + 1 < f"
  shows "if_branches n f es0 None (branch_toks es e @ r) = Inr ((es0 @ es, e), r)"
  using assms(1, 4)
proof (induction es arbitrary: f es0)
  case Nil
  obtain g where f: "f = Suc g" using Nil.prems(2) by (cases f) simp_all
  have stop: "if_branches n (Suc h) es0 x r = Inr ((es0, x), r)" for h x
    using assms(3) by (cases r; cases "hd r") (auto simp: no_else_def eq_ignore_ascii_case_def ascii_lower_def)
  show ?case
  proof (cases e)
    case None
    then show ?thesis using stop f by simp
  next
    case (Some b)
    then have b: "reads_block n b" "3 * length (block_toks b) < g" using assms(2) Nil.prems(2) f by simp_all
    obtain h where "g = Suc h" using b(2) by (cases g) simp_all
    then show ?thesis using stop [of h "Some b"] f Some bind_block [OF b, of "\<lambda>b. if_branches n g es0 (Some b)" r]
      by (simp add: eq_ignore_ascii_case_def ascii_lower_def del: if_branches.simps(2)) (simp add: eq_ignore_ascii_case_def ascii_lower_def)
  qed
next
  case (Cons te es)
  obtain t b where te: "te = (t, b)" by force
  obtain g where f: "f = Suc g" using Cons.prems(2) by (cases f) simp_all
  have t: "reads n t" "3 * length (test_toks t) < g" and b: "reads_block n b" "3 * length (block_toks b) < g"
    using Cons.prems te f reads_wf by auto
  have "if_branches n g (es0 @ [(t, b)]) None (branch_toks es e @ r) = Inr ((es0 @ te # es, e), r)"
    using Cons.IH [of g "es0 @ [(t, b)]"] Cons.prems te f by simp
  then have "bindp (parse_test n g) (\<lambda>t. bindp (parse_block n g) (\<lambda>b. if_branches n g (es0 @ [(t, b)]) None))
      (test_toks t @ block_toks b @ branch_toks es e @ r) = Inr ((es0 @ te # es, e), r)"
    by (simp only: bind_reads [OF t] bind_block [OF b])
  then show ?case unfolding f te by (simp add: eq_ignore_ascii_case_def ascii_lower_def)
qed

lemma reads_ifI:
  assumes "test_wf t" and "reads_block n b" and "\<forall>(t, b)\<in>set es. test_wf t \<and> reads_block n b" and "\<forall>b. e = Some b \<longrightarrow> reads_block n b"
  shows "reads_if n (IfCommand t b es e)"
  unfolding reads_if_def
proof (intro allI impI)
  fix f r
  assume f: "3 * length (cmd_toks (IfCommand t b es e)) \<le> f + 1" and r: "no_else r"
  have "1 \<le> length (test_toks t)" using test_toks_head [of t] by auto
  then obtain g where g: "f = Suc g" "3 * length (test_toks t) < g" "3 * length (block_toks b) < g" "3 * length (branch_toks es e) + 1 < g"
    using f by (cases f) auto
  have t: "reads n t" using assms(1) reads_wf by blast
  have "if_branches n g [] None (branch_toks es e @ r) = Inr ((es, e), r)" using branches_toks [OF assms(3, 4) r g(4), of "[]"] by simp
  then have "bindp (parse_test n g) (\<lambda>test. bindp (parse_block n g) (\<lambda>block. bindp (if_branches n g [] None)
      (\<lambda>(elsif, else_block). retp (IfCommand test block elsif else_block))))
      (test_toks t @ block_toks b @ branch_toks es e @ r) = Inr (IfCommand t b es e, r)"
    by (simp only: bind_reads [OF t g(2)] bind_block [OF assms(2) g(3)]) (simp add: bindp_def)
  then show "parse_if n f (tl (cmd_toks (IfCommand t b es e)) @ r) = Inr (IfCommand t b es e, r)" unfolding g(1) by simp
qed

lemma reads_if_wf: "cmd_wf c \<Longrightarrow> (\<exists>t b es e. c = IfCommand t b es e) \<longrightarrow> reads_if n c"
proof (induction c rule: cmd_wf.induct)
  case (2 t b es e)
  have b: "reads_block n b" using 2 by (intro reads_blockI) (auto simp: list_all_iff)
  have es: "\<forall>(t, b)\<in>set es. test_wf t \<and> reads_block n b" using 2 by (fastforce intro!: reads_blockI simp: list_all_iff)
  have "\<forall>b. e = Some b \<longrightarrow> reads_block n b" using 2 by (auto intro!: reads_blockI simp: list_all_iff)
  with b es show ?case using 2 by (auto intro: reads_ifI)
qed simp_all

section \<open>Printing scripts\<close>

fun is_require :: "Command \<Rightarrow> bool" where
  "is_require (Require _) = True"
| "is_require _ = False"

fun required :: "Command \<Rightarrow> string list" where
  "required (Require ss) = ss"
| "required _ = []"

definition script_wf :: "Script \<Rightarrow> bool" where
  "script_wf s \<longleftrightarrow> list_all (\<lambda>c. required c \<noteq> []) (takeWhile is_require (commands s)) \<and>
     list_all cmd_wf (dropWhile is_require (commands s)) \<and> capabilities s = set (concat (map required (commands s)))"

definition print_script :: "Script \<Rightarrow> string" where
  "print_script s = show_tokens (concat (map cmd_toks (commands s)))"

lemma script_items_commands:
  assumes "list_all cmd_wf cs" and "3 * length (concat (map cmd_toks cs)) < f"
  shows "script_items n f seen acc caps (concat (map cmd_toks cs)) = Inr (\<lparr>commands = acc @ cs, capabilities = caps\<rparr>, [])"
  using assms
proof (induction cs arbitrary: f seen acc)
  case Nil
  then show ?case by (cases f) simp_all
next
  case (Cons c cs)
  obtain g where f: "f = Suc g" using Cons.prems(2) by (cases f) simp_all
  let ?rest = "concat (map cmd_toks cs)"
  have ne: "no_else ?rest" using Cons.prems(1) cmd_no_else by (cases cs) (simp_all add: no_else_def)
  have pos: "1 \<le> length (cmd_toks c)" by (cases c) simp_all
  have IH: "script_items n g True (acc @ [c]) caps ?rest = Inr (\<lparr>commands = (acc @ [c]) @ cs, capabilities = caps\<rparr>, [])"
    using Cons.IH [of g True "acc @ [c]"] Cons.prems f pos by simp
  have step: "parse_top_command n g (cmd_toks c @ ?rest) = Inr (c, ?rest)"
  proof (cases c)
    case (ActionC a)
    obtain name tk where "action_toks a = Ident name # tk" "to_ascii_lowercase name = name"
        "name \<notin> {''require'', ''if'', ''elsif'', ''else''}" "\<And>n r. parse_action n name (tk @ r) = Inr (a, r)"
      by (rule action_read) blast
    then show ?thesis using ActionC by (simp add: parse_top_command_def bindp_def [of "parse_action n name"])
  next
    case (IfCommand t b es e)
    then have "parse_if n g (tl (cmd_toks c) @ ?rest) = Inr (c, ?rest)"
      using Cons.prems f ne reads_if_wf [of c n] by (auto simp: reads_if_def)
    then show ?thesis using IfCommand by (simp add: parse_top_command_def ascii_lower_def)
  qed (use Cons.prems in simp)
  obtain name tk where "cmd_toks c = Ident name # tk" "to_ascii_lowercase name \<noteq> ''require''"
  proof (cases c)
    case (ActionC a)
    then show ?thesis using that by (rule_tac a = a in action_read) auto
  qed (use that Cons.prems in \<open>auto simp: ascii_lower_def\<close>)
  then show ?case using IH step f by (simp add: bindp_def [of "parse_top_command n g"])
qed

lemma script_items_script:
  assumes "list_all (\<lambda>ss. ss \<noteq> []) reqs" and "list_all cmd_wf cs" and "3 * length (concat (map cmd_toks (map Require reqs @ cs))) < f"
  shows "script_items n f False acc caps (concat (map cmd_toks (map Require reqs @ cs))) =
    Inr (\<lparr>commands = acc @ map Require reqs @ cs, capabilities = caps \<union> set (concat reqs)\<rparr>, [])"
  using assms(1, 3)
proof (induction reqs arbitrary: f acc caps)
  case Nil
  then show ?case using script_items_commands [OF assms(2), of f n False acc caps] by simp
next
  case (Cons ss reqs)
  obtain g where f: "f = Suc g" using Cons.prems(2) by (cases f) simp_all
  let ?rest = "concat (map cmd_toks (map Require reqs @ cs))"
  have "script_items n g False (acc @ [Require ss]) (caps \<union> set ss) ?rest =
      Inr (\<lparr>commands = (acc @ [Require ss]) @ map Require reqs @ cs, capabilities = (caps \<union> set ss) \<union> set (concat reqs)\<rparr>, [])"
    using Cons.IH [of g "acc @ [Require ss]" "caps \<union> set ss"] Cons.prems f by simp
  moreover have "bindp (parse_require n) h (cmd_toks (Require ss) @ ?rest) = h ss ?rest" for h :: "string list \<Rightarrow> Script sieve_parser"
    using Cons.prems(1) by (simp add: bindp_def [of "parse_require n"]) (simp add: parse_require_def bind_string_toks)
  ultimately show ?case using f by (simp add: ascii_lower_def Un_assoc)
qed

lemma sep_wf: "list_all (list_all P) xs \<Longrightarrow> list_all P (sep xs) \<or> \<not> P Comma"
  by (induction xs rule: sep.induct) auto

lemma toks_wf:
  "list_all token_wf (string_toks ss)" "list_all token_wf (comparator_toks c)" "list_all token_wf (match_toks m)" "list_all token_wf (part_toks p)"
proof -
  have "list_all token_wf (sep (map (\<lambda>s. [StringT s]) ss))" using sep_wf [of token_wf "map (\<lambda>s. [StringT s]) ss"] by (simp add: list_all_iff)
  then show "list_all token_wf (string_toks ss)" by (simp add: string_toks_def)
qed (simp_all add: comparator_toks_def match_toks_def part_toks_def is_ident_char_def is_ascii_alphabetic_def split: MatchType.split AddressPart.split)

lemma test_toks_wf: "list_all token_wf (test_toks t)"
proof (induction t rule: test_toks.induct)
  case (1 ts)
  then show ?case using sep_wf [of token_wf "map test_toks ts"]
    by (simp add: list_all_iff is_ident_char_def is_ident_start_def is_ascii_alphabetic_def)
next
  case (2 ts)
  then show ?case using sep_wf [of token_wf "map test_toks ts"]
    by (simp add: list_all_iff is_ident_char_def is_ident_start_def is_ascii_alphabetic_def)
qed (simp_all add: toks_wf is_ident_char_def is_ident_start_def is_ascii_alphabetic_def)

lemma cmd_toks_wf: "list_all token_wf (cmd_toks c)"
proof (induction c rule: cmd_toks.induct)
  case (2 t b es e)
  have kw: "token_wf (Ident ''if'')" "token_wf (Ident ''elsif'')" "token_wf (Ident ''else'')"
    by (simp_all add: is_ident_char_def is_ident_start_def is_ascii_alphabetic_def)
  show ?case using 2 kw test_toks_wf by (cases e) (fastforce simp: list_all_iff)+
next
  case (3 a)
  show ?case by (cases a) (simp_all add: toks_wf is_ident_char_def is_ident_start_def is_ascii_alphabetic_def)
qed (simp_all add: toks_wf is_ident_char_def is_ident_start_def is_ascii_alphabetic_def)

lemma cmds_toks_wf: "list_all token_wf (concat (map cmd_toks cs))"
  by (induction cs) (simp_all add: cmd_toks_wf)

lemma script_wf_parts:
  assumes "script_wf s"
  shows "\<exists>reqs cs. commands s = map Require reqs @ cs \<and> list_all (\<lambda>ss. ss \<noteq> []) reqs \<and> list_all cmd_wf cs \<and> capabilities s = set (concat reqs)"
proof -
  define cs reqs where "cs = dropWhile is_require (commands s)" and "reqs = map required (takeWhile is_require (commands s))"
  have "map Require (map required xs) = xs" if "list_all is_require xs" for xs using that
    by (induction xs) (auto elim: is_require.elims)
  moreover have "list_all is_require (takeWhile is_require (commands s))" by (auto simp: list_all_iff dest: set_takeWhileD)
  ultimately have "map Require reqs = takeWhile is_require (commands s)" unfolding reqs_def .
  then have split: "commands s = map Require reqs @ cs" unfolding cs_def by (simp only: takeWhile_dropWhile_id)
  have "required c = []" if "cmd_wf c" for c using that by (cases c) simp_all
  then have "concat (map required cs) = []" using assms by (auto simp: script_wf_def list_all_iff cs_def)
  then have "concat (map required (commands s)) = concat reqs" unfolding split by (simp add: comp_def)
  then have "capabilities s = set (concat reqs)" using assms by (simp only: script_wf_def)
  moreover have "list_all (\<lambda>ss. ss \<noteq> []) reqs" "list_all cmd_wf cs" using assms by (simp_all add: script_wf_def reqs_def cs_def list_all_iff)
  ultimately show ?thesis using split by blast
qed

text \<open>
  C14: Printing and parsing are inverse: every script whose \<open>require\<close> commands come first, whose capabilities are those
  it requires and whose string and test lists are not empty is the result of lexing and parsing its printed text.
  The strings may contain any characters, quotes and backslashes are escaped.
\<close>

theorem sieve_parse_print:
  assumes "script_wf s"
  shows "parse (print_script s) = Inr s"
proof -
  obtain reqs cs where s: "commands s = map Require reqs @ cs" "list_all (\<lambda>ss. ss \<noteq> []) reqs" "list_all cmd_wf cs"
      "capabilities s = set (concat reqs)"
    using script_wf_parts [OF assms] by blast
  let ?ts = "concat (map cmd_toks (map Require reqs @ cs))"
  have "script_items n (3 * n + 4) False [] {} ?ts = Inr (s, [])" if "n = length ?ts" for n
    using script_items_script [OF s(2, 3), of "3 * n + 4" n "[]" "{}"] that s(1, 4) by simp
  moreover have "tokenize k (print_script s) = Inr ?ts" for k
    unfolding print_script_def s(1) by (intro tokenize_show cmds_toks_wf)
  ultimately show ?thesis by (simp add: parse_def parse_script_def Let_def)
qed

definition sample_script :: Script where
  "sample_script = \<lparr>commands =
     [Require [''fileinto''],
      IfCommand (AllOf [Header \<lparr>ht_comparator = Octet, ht_match_type = Contains, ht_names = [''Subject''], ht_keys = [''make '' @ [QUOTE] @ '' money'']\<rparr>,
          NotT (Size True 1024)])
        [ActionC Discard, ActionC Stop]
        [(Exists [''X-Spam'', ''X-Virus''], [ActionC (FileInto ''Junk'')])]
        (Some [ActionC Keep])],
     capabilities = {''fileinto''}\<rparr>"

theorem sieve_parse_print_witness: "script_wf sample_script \<and> parse (print_script sample_script) = Inr sample_script"
proof -
  have "script_wf sample_script" by (simp add: sample_script_def script_wf_def)
  then show ?thesis using sieve_parse_print [of sample_script] by simp
qed

end
