(* ===== verification/Sieve_Eval.thy ===== *)
theory Sieve_Eval
  imports Sieve_Syntax
begin

text \<open>
  The evaluation engine of \<^verbatim>\<open>tpt-sieve/src/evaluator.rs\<close>, the message contexts of \<^verbatim>\<open>context.rs\<close> and the resolution of
  actions of \<^verbatim>\<open>actions.rs\<close>. The interface \<open>message_context\<close> is what the trait asks of a context; the in-memory message
  interprets it. Main results: the engine computes the big-step semantics of the language, and what becomes of a message
  follows from the actions executed.
\<close>

section \<open>Contexts\<close>

text \<open>The trait \<^verbatim>\<open>MessageContext\<close> as a record of its operations.\<close>

record MessageContext =
  header_values :: "string \<Rightarrow> string list"
  envelope_values :: "string \<Rightarrow> string list"
  msg_size :: nat

record InMemoryMessage =
  im_headers :: "string \<rightharpoonup> string list"
  im_envelope :: "string \<rightharpoonup> string list"
  im_size :: nat

definition InMemoryMessage_new :: "nat \<Rightarrow> InMemoryMessage" where
  "InMemoryMessage_new sz = \<lparr>im_headers = (\<lambda>_. None), im_envelope = (\<lambda>_. None), im_size = sz\<rparr>"

definition with_size :: "nat \<Rightarrow> InMemoryMessage \<Rightarrow> InMemoryMessage" where
  "with_size sz m = m\<lparr>im_size := sz\<rparr>"

text \<open>\<open>unwrap_or_default\<close> of a lookup.\<close>

definition values_of :: "(string \<rightharpoonup> string list) \<Rightarrow> string \<Rightarrow> string list" where
  "values_of m name = (case m name of Some vs \<Rightarrow> vs | None \<Rightarrow> [])"

definition add_header :: "string \<Rightarrow> string \<Rightarrow> InMemoryMessage \<Rightarrow> InMemoryMessage" where
  "add_header name val m =
     (let key = to_ascii_lowercase name in m\<lparr>im_headers := (im_headers m)(key \<mapsto> values_of (im_headers m) key @ [val])\<rparr>)"

definition add_envelope :: "string \<Rightarrow> string \<Rightarrow> InMemoryMessage \<Rightarrow> InMemoryMessage" where
  "add_envelope part val m =
     (let key = to_ascii_lowercase part in m\<lparr>im_envelope := (im_envelope m)(key \<mapsto> values_of (im_envelope m) key @ [val])\<rparr>)"

definition memory_context :: "InMemoryMessage \<Rightarrow> MessageContext" where
  "memory_context m =
     \<lparr>header_values = (\<lambda>name. values_of (im_headers m) (to_ascii_lowercase name)),
      envelope_values = (\<lambda>part. values_of (im_envelope m) (to_ascii_lowercase part)),
      msg_size = im_size m\<rparr>"

section \<open>Actions\<close>

record ActionSet =
  keep_explicit :: bool
  fileinto :: "string list"
  redirect :: "string list"
  discard :: bool

record DeliverActions =
  da_keep :: bool
  da_fileinto :: "string list"
  da_redirect :: "string list"

datatype FinalActions = FinalKeep | FinalDiscard | Deliver DeliverActions

definition ActionSet_default :: ActionSet where
  "ActionSet_default = \<lparr>keep_explicit = False, fileinto = [], redirect = [], discard = False\<rparr>"

definition finalize :: "ActionSet \<Rightarrow> FinalActions" where
  "finalize a =
     (let has_delivery = (fileinto a \<noteq> [] \<or> redirect a \<noteq> []) in
      if keep_explicit a \<and> \<not> has_delivery then FinalKeep
      else if keep_explicit a \<or> has_delivery then
        Deliver \<lparr>da_keep = keep_explicit a, da_fileinto = fileinto a, da_redirect = redirect a\<rparr>
      else if discard a then FinalDiscard
      else FinalKeep)"

section \<open>Evaluation\<close>

record EvalState =
  es_actions :: ActionSet
  es_stopped :: bool

definition eval_header :: "MessageContext \<Rightarrow> HeaderTest \<Rightarrow> bool" where
  "eval_header ctx h =
     any_match (concat (map (header_values ctx) (ht_names h))) (ht_keys h) (ht_comparator h) (ht_match_type h)"

definition address_text :: "AddressPart \<Rightarrow> string \<times> string \<Rightarrow> string" where
  "address_text part addr =
     (case addr of (local, domain) \<Rightarrow>
        (case part of AllParts \<Rightarrow> local @ ''@'' @ domain | LocalPart \<Rightarrow> local | DomainPart \<Rightarrow> domain))"

definition eval_address :: "MessageContext \<Rightarrow> AddressTest \<Rightarrow> bool" where
  "eval_address ctx a =
     any_match
       (concat (map (\<lambda>name. concat (map (\<lambda>v. map (address_text (at_address_part a)) (extract_addresses v)) (header_values ctx name)))
          (at_headers a)))
       (at_keys a) (at_comparator a) (at_match_type a)"

definition eval_envelope :: "MessageContext \<Rightarrow> EnvelopeTest \<Rightarrow> bool" where
  "eval_envelope ctx e =
     any_match (concat (map (envelope_values ctx) (et_parts e))) (et_keys e) (et_comparator e) (et_match_type e)"

text \<open>\<open>*amount as usize\<close> is the identity on 64-bit targets.\<close>

fun eval_test :: "string set \<Rightarrow> MessageContext \<Rightarrow> Test \<Rightarrow> SieveError + bool"
  and eval_all :: "string set \<Rightarrow> MessageContext \<Rightarrow> Test list \<Rightarrow> SieveError + bool"
  and eval_any :: "string set \<Rightarrow> MessageContext \<Rightarrow> Test list \<Rightarrow> SieveError + bool" where
  "eval_test caps ctx (AllOf subs) = eval_all caps ctx subs"
| "eval_test caps ctx (AnyOf subs) = eval_any caps ctx subs"
| "eval_test caps ctx (NotT s) = map_sum id Not (eval_test caps ctx s)"
| "eval_test caps ctx (Exists names) = Inr (list_all (\<lambda>name. header_values ctx name \<noteq> []) names)"
| "eval_test caps ctx TrueT = Inr True"
| "eval_test caps ctx FalseT = Inr False"
| "eval_test caps ctx (Size over amount) = Inr (if over then unat amount < msg_size ctx else msg_size ctx < unat amount)"
| "eval_test caps ctx (Header h) = Inr (eval_header ctx h)"
| "eval_test caps ctx (Address a) = Inr (eval_address ctx a)"
| "eval_test caps ctx (Envelope e) =
     (if ''envelope'' \<notin> caps then Inl (MissingCapability ''envelope'') else Inr (eval_envelope ctx e))"
| "eval_all caps ctx [] = Inr True"
| "eval_all caps ctx (s # subs) = res_bind (eval_test caps ctx s) (\<lambda>b. if \<not> b then Inr False else eval_all caps ctx subs)"
| "eval_any caps ctx [] = Inr False"
| "eval_any caps ctx (s # subs) = res_bind (eval_test caps ctx s) (\<lambda>b. if b then Inr True else eval_any caps ctx subs)"

definition exec_action :: "string set \<Rightarrow> Action \<Rightarrow> EvalState \<Rightarrow> SieveError + EvalState" where
  "exec_action caps a st =
     (case a of
        Keep \<Rightarrow> Inr (st\<lparr>es_actions := (es_actions st)\<lparr>keep_explicit := True\<rparr>\<rparr>)
      | Discard \<Rightarrow> Inr (st\<lparr>es_actions := (es_actions st)\<lparr>discard := True\<rparr>\<rparr>)
      | Stop \<Rightarrow> Inr (st\<lparr>es_stopped := True\<rparr>)
      | Redirect addr \<Rightarrow> Inr (st\<lparr>es_actions := (es_actions st)\<lparr>redirect := redirect (es_actions st) @ [addr]\<rparr>\<rparr>)
      | FileInto folder \<Rightarrow>
          if ''fileinto'' \<notin> caps then Inl (MissingCapability ''fileinto'')
          else Inr (st\<lparr>es_actions := (es_actions st)\<lparr>fileinto := fileinto (es_actions st) @ [folder]\<rparr>\<rparr>))"

text \<open>\<open>run_elsif\<close> is the loop over the branches with the \<open>else\<close> block after it.\<close>

function (sequential) run_block :: "string set \<Rightarrow> MessageContext \<Rightarrow> Command list \<Rightarrow> EvalState \<Rightarrow> SieveError + EvalState"
  and run_command :: "string set \<Rightarrow> MessageContext \<Rightarrow> Command \<Rightarrow> EvalState \<Rightarrow> SieveError + EvalState"
  and run_elsif :: "string set \<Rightarrow> MessageContext \<Rightarrow> (Test \<times> Command list) list \<Rightarrow> Command list option \<Rightarrow> EvalState \<Rightarrow> SieveError + EvalState" where
  "run_block caps ctx [] st = Inr st"
| "run_block caps ctx (cmd # cmds) st =
     (if es_stopped st then Inr st
      else res_bind (run_command caps ctx cmd st) (run_block caps ctx cmds))"
| "run_command caps ctx (Require _) st = Inr st"
| "run_command caps ctx (ActionC a) st = exec_action caps a st"
| "run_command caps ctx (IfCommand test block elsif else_block) st =
     res_bind (eval_test caps ctx test) (\<lambda>b.
       if b then run_block caps ctx block st else run_elsif caps ctx elsif else_block st)"
| "run_elsif caps ctx [] else_block st =
     (case else_block of Some b \<Rightarrow> run_block caps ctx b st | None \<Rightarrow> Inr st)"
| "run_elsif caps ctx ((t, b) # elsif) else_block st =
     (if es_stopped st then (case else_block of Some b \<Rightarrow> run_block caps ctx b st | None \<Rightarrow> Inr st)
      else res_bind (eval_test caps ctx t) (\<lambda>matched.
        if matched then run_block caps ctx b st else run_elsif caps ctx elsif else_block st))"
  by pat_completeness auto
termination
  by (relation "measure (case_sum (\<lambda>(caps, ctx, cs, st). size_list size cs) (case_sum (\<lambda>(caps, ctx, c, st). size c)
    (\<lambda>(caps, ctx, es, e, st). size_list (size_prod (\<lambda>x. 0) (size_list size)) es + size_option (size_list size) e)))") auto

definition evaluate :: "Script \<Rightarrow> MessageContext \<Rightarrow> SieveError + ActionSet" where
  "evaluate script ctx =
     map_sum id es_actions (run_block (capabilities script) ctx (commands script) \<lparr>es_actions = ActionSet_default, es_stopped = False\<rparr>)"

definition run :: "string \<Rightarrow> MessageContext \<Rightarrow> SieveError failure + ActionSet" where
  "run input ctx = res_bind (parse input) (\<lambda>script. map_sum Err id (evaluate script ctx))"

section \<open>The interface of a context\<close>

text \<open>The documentation of the trait asks for lookups that ignore the case of header names and envelope parts.\<close>

locale message_context =
  fixes ctx :: MessageContext
  assumes header_case: "to_ascii_lowercase a = to_ascii_lowercase b \<Longrightarrow> header_values ctx a = header_values ctx b"
    and envelope_case: "to_ascii_lowercase a = to_ascii_lowercase b \<Longrightarrow> envelope_values ctx a = envelope_values ctx b"

text \<open>A test with all names in lower case.\<close>

fun lower_names :: "Test \<Rightarrow> Test" where
  "lower_names (AllOf ts) = AllOf (map lower_names ts)"
| "lower_names (AnyOf ts) = AnyOf (map lower_names ts)"
| "lower_names (NotT t) = NotT (lower_names t)"
| "lower_names (Exists names) = Exists (map (map ascii_lower) names)"
| "lower_names (Header h) = Header (h\<lparr>ht_names := map (map ascii_lower) (ht_names h)\<rparr>)"
| "lower_names (Address a) = Address (a\<lparr>at_headers := map (map ascii_lower) (at_headers a)\<rparr>)"
| "lower_names (Envelope e) = Envelope (e\<lparr>et_parts := map (map ascii_lower) (et_parts e)\<rparr>)"
| "lower_names t = t"

lemma ascii_lower_twice: "ascii_lower (ascii_lower c) = ascii_lower c"
  by (auto simp: ascii_lower_def)

context message_context
begin

lemma values_lower [simp]:
  "header_values ctx (map ascii_lower name) = header_values ctx name" "envelope_values ctx (map ascii_lower name) = envelope_values ctx name"
  by (rule header_case envelope_case, simp add: ascii_lower_twice)+

lemma names_ignore_case:
  "eval_test caps ctx (lower_names t) = eval_test caps ctx t"
  "eval_all caps ctx (map lower_names ts) = eval_all caps ctx ts"
  "eval_any caps ctx (map lower_names ts) = eval_any caps ctx ts"
proof -
  have "eval_test caps ctx (lower_names t) = eval_test caps ctx t \<and> True" for t
  proof (induction t)
    case (AllOf ts)
    then have "eval_all caps ctx (map lower_names ts) = eval_all caps ctx ts" by (induction ts) (simp_all cong: if_cong)
    then show ?case by simp
  next
    case (AnyOf ts)
    then have "eval_any caps ctx (map lower_names ts) = eval_any caps ctx ts" by (induction ts) (simp_all cong: if_cong)
    then show ?case by simp
  qed (simp_all add: eval_header_def eval_address_def eval_envelope_def comp_def list_all_iff)
  then show one: "eval_test caps ctx (lower_names t) = eval_test caps ctx t" for t by simp
  show "eval_all caps ctx (map lower_names ts) = eval_all caps ctx ts" "eval_any caps ctx (map lower_names ts) = eval_any caps ctx ts"
    by (induction ts) (simp_all add: one cong: if_cong)
qed

end

interpretation im: message_context "memory_context m" for m
  by unfold_locales (simp_all add: memory_context_def)

lemma add_header_lookup:
  "header_values (memory_context (add_header name val m)) name' =
    header_values (memory_context m) name' @ (if to_ascii_lowercase name = to_ascii_lowercase name' then [val] else [])"
  by (simp add: memory_context_def add_header_def values_of_def Let_def)

section \<open>Big-step semantics\<close>

text \<open>The block that an \<open>if\<close> with its branches selects.\<close>

inductive selects :: "string set \<Rightarrow> MessageContext \<Rightarrow> (Test \<times> Command list) list \<Rightarrow> Command list option \<Rightarrow> Command list \<Rightarrow> bool"
  for caps ctx where
  here: "eval_test caps ctx t = Inr True \<Longrightarrow> selects caps ctx ((t, b) # es) e b"
| further: "eval_test caps ctx t = Inr False \<Longrightarrow> selects caps ctx es e blk \<Longrightarrow> selects caps ctx ((t, b) # es) e blk"
| otherwise: "selects caps ctx [] (Some b) b"
| nothing: "selects caps ctx [] None []"

text \<open>\<open>executes caps ctx cmds tr s\<close>: the commands execute the actions \<open>tr\<close>, and \<open>s\<close> says whether they ended with \<open>stop\<close>.\<close>

inductive executes :: "string set \<Rightarrow> MessageContext \<Rightarrow> Command list \<Rightarrow> Action list \<Rightarrow> bool \<Rightarrow> bool" for caps ctx where
  finish: "executes caps ctx [] [] False"
| require: "executes caps ctx cs tr s \<Longrightarrow> executes caps ctx (Require ss # cs) tr s"
| stop: "executes caps ctx (ActionC Stop # cs) [] True"
| action: "a \<noteq> Stop \<Longrightarrow> (\<And>f. a = FileInto f \<Longrightarrow> ''fileinto'' \<in> caps) \<Longrightarrow> executes caps ctx cs tr s \<Longrightarrow>
    executes caps ctx (ActionC a # cs) (a # tr) s"
| if_stop: "selects caps ctx ((t, b) # es) e blk \<Longrightarrow> executes caps ctx blk tr True \<Longrightarrow> executes caps ctx (IfCommand t b es e # cs) tr True"
| if_next: "selects caps ctx ((t, b) # es) e blk \<Longrightarrow> executes caps ctx blk tr False \<Longrightarrow> executes caps ctx cs tr' s \<Longrightarrow>
    executes caps ctx (IfCommand t b es e # cs) (tr @ tr') s"

text \<open>The actions as a set of effects, added to those so far.\<close>

definition collect :: "ActionSet \<Rightarrow> Action list \<Rightarrow> ActionSet" where
  "collect a tr =
     \<lparr>keep_explicit = (keep_explicit a \<or> Keep \<in> set tr),
      fileinto = fileinto a @ concat (map (\<lambda>x. case x of FileInto f \<Rightarrow> [f] | _ \<Rightarrow> []) tr),
      redirect = redirect a @ concat (map (\<lambda>x. case x of Redirect r \<Rightarrow> [r] | _ \<Rightarrow> []) tr),
      discard = (discard a \<or> Discard \<in> set tr)\<rparr>"

lemma collect_simps: "collect a [] = a" "collect (collect a tr) tr' = collect a (tr @ tr')"
  by (auto simp: collect_def)

lemma exec_action_collect:
  "exec_action caps a st = Inr st' \<longleftrightarrow>
    (a = Stop \<and> st' = st\<lparr>es_stopped := True\<rparr> \<or>
     a \<noteq> Stop \<and> (\<forall>f. a = FileInto f \<longrightarrow> ''fileinto'' \<in> caps) \<and> st' = st\<lparr>es_actions := collect (es_actions st) [a]\<rparr>)"
  by (cases a) (auto simp: exec_action_def collect_def)

lemma selects_run:
  "selects caps ctx es e blk \<Longrightarrow> \<not> es_stopped st \<Longrightarrow> run_elsif caps ctx es e st = run_block caps ctx blk st"
  by (induction es e blk rule: selects.induct) simp_all

lemma run_selects:
  "run_elsif caps ctx es e st = Inr st' \<Longrightarrow> \<not> es_stopped st \<Longrightarrow> \<exists>blk. selects caps ctx es e blk \<and> run_block caps ctx blk st = Inr st'"
proof (induction es)
  case Nil
  then show ?case by (cases e) (auto intro: selects.intros)
next
  case (Cons tb es)
  obtain t b where tb: "tb = (t, b)" by force
  then obtain v where "eval_test caps ctx t = Inr v" using Cons.prems by (auto simp: res_bind_Inr_iff)
  then show ?case using Cons tb by (cases v) (auto intro: selects.intros)
qed

lemma if_elsif:
  "\<not> es_stopped st \<Longrightarrow> run_command caps ctx (IfCommand t b es e) st = run_elsif caps ctx ((t, b) # es) e st"
  by simp

lemma executes_run:
  "executes caps ctx cs tr s \<Longrightarrow> \<not> es_stopped st \<Longrightarrow>
    run_block caps ctx cs st = Inr \<lparr>es_actions = collect (es_actions st) tr, es_stopped = s\<rparr>"
proof (induction cs tr s arbitrary: st rule: executes.induct)
  case finish
  then show ?case by (cases st) (simp add: collect_simps)
next
  case (stop cs)
  then show ?case by (cases st) (cases cs; simp add: exec_action_def collect_simps)
next
  case (action a cs tr s)
  let ?st = "st\<lparr>es_actions := collect (es_actions st) [a]\<rparr>"
  have "exec_action caps a st = Inr ?st" using action exec_action_collect by blast
  then show ?case using action.IH [of ?st] action.prems by (simp add: collect_simps)
next
  case (if_stop t b es e blk tr cs)
  then show ?case using selects_run [OF if_stop(1)] by (cases cs) (simp_all add: if_elsif del: run_command.simps)
next
  case (if_next t b es e blk tr cs tr' s)
  then show ?case using selects_run [OF if_next(1)] by (simp add: if_elsif collect_simps del: run_command.simps)
qed simp

lemma selects_size:
  "selects caps ctx es e blk \<Longrightarrow>
    size_list size blk \<le> size_list (size_prod (\<lambda>x. 0) (size_list size)) es + size_option (size_list size) e"
  by (induction es e blk rule: selects.induct) simp_all

lemma run_executes:
  "run_block caps ctx cs st = Inr st' \<Longrightarrow> \<not> es_stopped st \<Longrightarrow>
    \<exists>tr s. executes caps ctx cs tr s \<and> st' = \<lparr>es_actions = collect (es_actions st) tr, es_stopped = s\<rparr>"
proof (induction "size_list size cs" arbitrary: cs st st' rule: less_induct)
  case less
  show ?case
  proof (cases cs)
    case Nil
    then show ?thesis using less.prems by (cases st) (auto intro!: exI [of _ "[]"] executes.intros simp: collect_simps)
  next
    case (Cons c ds)
    obtain st1 where st1: "run_command caps ctx c st = Inr st1" "run_block caps ctx ds st1 = Inr st'"
      using less.prems Cons by (auto simp: res_bind_Inr_iff)
    have rest: "\<exists>tr s. executes caps ctx ds tr s \<and> st' = \<lparr>es_actions = collect (es_actions st1) tr, es_stopped = s\<rparr>" if "\<not> es_stopped st1"
      using less.hyps [of ds st1 st'] Cons st1(2) that by simp
    show ?thesis
    proof (cases c)
      case (Require ss)
      then show ?thesis using rest less.prems(2) st1(1) Cons by (auto intro: executes.intros)
    next
      case (ActionC a)
      then have a: "exec_action caps a st = Inr st1" using st1(1) by simp
      show ?thesis
      proof (cases "a = Stop")
        case True
        then have "st1 = st\<lparr>es_stopped := True\<rparr>" using a exec_action_collect by blast
        then have "st' = st\<lparr>es_stopped := True\<rparr>" using st1(2) by (cases ds) simp_all
        then show ?thesis unfolding Cons ActionC True
          by (cases st) (auto intro!: exI [of _ "[]"] exI [of _ True] executes.intros simp: collect_simps)
      next
        case False
        then have a': "\<And>f. a = FileInto f \<Longrightarrow> ''fileinto'' \<in> caps" "st1 = st\<lparr>es_actions := collect (es_actions st) [a]\<rparr>"
          using a exec_action_collect by blast+
        then obtain tr s where "executes caps ctx ds tr s" "st' = \<lparr>es_actions = collect (collect (es_actions st) [a]) tr, es_stopped = s\<rparr>"
          using rest less.prems(2) by auto
        then show ?thesis unfolding Cons ActionC using False a'(1)
          by (auto intro!: exI [of _ "a # tr"] executes.action simp: collect_simps)
      qed
    next
      case (IfCommand t b es e)
      then obtain blk where blk: "selects caps ctx ((t, b) # es) e blk" "run_block caps ctx blk st = Inr st1"
        using run_selects [of caps ctx "(t, b) # es" e st st1] st1(1) less.prems(2) if_elsif by metis
      have "size_list size blk < size_list size cs" using blk(1) Cons IfCommand
        by (cases rule: selects.cases) (auto dest!: selects_size)
      then obtain tr s where tr: "executes caps ctx blk tr s" "st1 = \<lparr>es_actions = collect (es_actions st) tr, es_stopped = s\<rparr>"
        using less.hyps blk(2) less.prems(2) by blast
      show ?thesis
      proof (cases s)
        case True
        then have "st' = st1" using st1(2) tr(2) by (cases ds) simp_all
        then show ?thesis unfolding Cons IfCommand using tr True executes.if_stop [OF blk(1)] by auto
      next
        case False
        then show ?thesis unfolding Cons IfCommand using rest tr executes.if_next [OF blk(1)] by (fastforce simp: collect_simps)
      qed
    qed
  qed
qed


lemma executes_no_stop: "executes caps ctx cs tr s \<Longrightarrow> Stop \<notin> set tr"
  by (induction rule: executes.induct) auto

lemma concat_empty:
  "concat (map (\<lambda>x. case x of FileInto f \<Rightarrow> [f] | _ \<Rightarrow> []) tr) = [] \<longleftrightarrow> (\<forall>f. FileInto f \<notin> set tr)"
  "concat (map (\<lambda>x. case x of Redirect f \<Rightarrow> [f] | _ \<Rightarrow> []) tr) = [] \<longleftrightarrow> (\<forall>f. Redirect f \<notin> set tr)"
  by (induction tr) (auto split: Action.splits)

text \<open>
  C36: What becomes of a message is decided by the actions executed: it is discarded iff \<open>discard\<close> was executed and nothing
  else, it goes to the main mailbox alone iff nothing was executed or \<open>keep\<close> with at most \<open>discard\<close> beside it, and otherwise it is
  delivered to all folders and addresses named, and to the mailbox iff \<open>keep\<close> was executed. So a
  script loses a message only if it executes \<open>discard\<close>.
\<close>

theorem sieve_outcome:
  assumes "executes (capabilities script) ctx (commands script) tr s"
  shows "\<exists>a. evaluate script ctx = Inr a \<and>
    (finalize a = FinalDiscard \<longleftrightarrow> tr \<noteq> [] \<and> set tr \<subseteq> {Discard}) \<and>
    (finalize a = FinalKeep \<longleftrightarrow> tr = [] \<or> Keep \<in> set tr \<and> set tr \<subseteq> {Keep, Discard}) \<and>
    (\<forall>d. finalize a = Deliver d \<longrightarrow> (da_keep d \<longleftrightarrow> Keep \<in> set tr) \<and>
      set (da_fileinto d) = {f. FileInto f \<in> set tr} \<and> set (da_redirect d) = {r. Redirect r \<in> set tr})"
proof -
  let ?a = "collect ActionSet_default tr"
  have ev: "evaluate script ctx = Inr ?a"
    using executes_run [OF assms, of "\<lparr>es_actions = ActionSet_default, es_stopped = False\<rparr>"] by (simp add: evaluate_def)
  have acts: "x = Keep \<or> x = Discard \<or> (\<exists>f. x = FileInto f) \<or> (\<exists>r. x = Redirect r)" if "x \<in> set tr" for x
    using executes_no_stop [OF assms] that by (cases x) auto
  have a: "keep_explicit ?a \<longleftrightarrow> Keep \<in> set tr" "discard ?a \<longleftrightarrow> Discard \<in> set tr"
      "fileinto ?a = [] \<longleftrightarrow> (\<forall>f. FileInto f \<notin> set tr)" "redirect ?a = [] \<longleftrightarrow> (\<forall>r. Redirect r \<notin> set tr)"
      "set (fileinto ?a) = {f. FileInto f \<in> set tr}" "set (redirect ?a) = {r. Redirect r \<in> set tr}"
    by (auto simp: collect_def ActionSet_default_def concat_empty split: Action.splits)
  have only: "set tr \<subseteq> {Keep, Discard} \<longleftrightarrow> fileinto ?a = [] \<and> redirect ?a = []" unfolding a using acts by blast
  have empty: "tr = [] \<longleftrightarrow> \<not> keep_explicit ?a \<and> \<not> discard ?a \<and> fileinto ?a = [] \<and> redirect ?a = []"
    unfolding a using acts by (metis list.set_intros(1) neq_Nil_conv empty_iff list.set(1))
  have sole: "set tr \<subseteq> {Discard} \<longleftrightarrow> \<not> keep_explicit ?a \<and> fileinto ?a = [] \<and> redirect ?a = []" unfolding a using acts by blast
  have "finalize ?a = FinalDiscard \<longleftrightarrow> tr \<noteq> [] \<and> set tr \<subseteq> {Discard}" unfolding sole empty by (auto simp: finalize_def Let_def)
  moreover have "finalize ?a = FinalKeep \<longleftrightarrow> tr = [] \<or> Keep \<in> set tr \<and> set tr \<subseteq> {Keep, Discard}"
    unfolding only empty a(1) [symmetric] by (auto simp: finalize_def Let_def)
  moreover have "(da_keep d \<longleftrightarrow> Keep \<in> set tr) \<and> set (da_fileinto d) = {f. FileInto f \<in> set tr} \<and> set (da_redirect d) = {r. Redirect r \<in> set tr}"
    if "finalize ?a = Deliver d" for d using that a(1, 5, 6) by (auto simp: finalize_def Let_def split: if_splits)
  ultimately show ?thesis using ev by blast
qed

text \<open>Running the printed text of a script is evaluating the script.\<close>

lemma run_printed: "parse (print_script s) = Inr s \<Longrightarrow> run (print_script s) ctx = map_sum Err id (evaluate s ctx)"
  by (simp add: run_def)

definition sample_mail :: MessageContext where
  "sample_mail = memory_context (add_header ''X-Spam'' ''yes'' (add_header ''X-VIRUS'' ''no'' (InMemoryMessage_new 10)))"

lemma sample_executes: "executes {''fileinto''} sample_mail (commands sample_script) [FileInto ''Junk''] False"
proof -
  have h: "header_values sample_mail ''Subject'' = []" "header_values sample_mail ''X-Spam'' \<noteq> []" "header_values sample_mail ''X-Virus'' \<noteq> []"
    by code_simp+
  have "executes {''fileinto''} sample_mail [ActionC (FileInto ''Junk'')] ([FileInto ''Junk'']) False"
    by (intro executes.intros) simp_all
  moreover have "selects {''fileinto''} sample_mail
      [(AllOf [Header \<lparr>ht_comparator = Octet, ht_match_type = Contains, ht_names = [''Subject''], ht_keys = [''make '' @ [QUOTE] @ '' money'']\<rparr>,
          NotT (Size True 1024)], [ActionC Discard, ActionC Stop]),
       (Exists [''X-Spam'', ''X-Virus''], [ActionC (FileInto ''Junk'')])] (Some [ActionC Keep]) [ActionC (FileInto ''Junk'')]"
    using h by (intro selects.further selects.here) (simp_all add: eval_header_def any_match_def)
  ultimately show ?thesis
    using executes.require [OF executes.if_next [OF _ _ executes.finish]] by (fastforce simp: sample_script_def)
qed

theorem sieve_outcome_witness:
  "\<exists>a. evaluate sample_script sample_mail = Inr a \<and> finalize a \<noteq> FinalKeep \<and> finalize a \<noteq> FinalDiscard"
  using sieve_outcome [of sample_script sample_mail "[FileInto ''Junk'']" False] sample_executes
  by (auto simp: sample_script_def)

end
