(* ===== verification/Spec2Isabelle.thy ===== *)
theory Spec2Isabelle
  imports Dtls_Connection Cbor_Laws Bfd_Session Bgp_Wire Bgp_Fsm Bgp_Rib Ospf_Checksum Ospf_Database Ospf_Neighbor Ospf_Spf_Correct
    X25519 X448 Hotp Dhcp_Client Sieve_Eval
begin

text \<open>
  A verification library for the protocol crates of \<^verbatim>\<open>tpt-rfc\<close>, a Rust workspace in which every crate
  implements one Internet protocol from its RFC, without I/O: bytes and events go in, bytes, events and
  errors come out. The crates do not call each other; inside a crate a wire codec serves a
  state machine or a data store. The library models each of the crates below in that order:
  codec first, then the stateful part, then the properties of their composition.

  \<^bold>\<open>Conventions.\<close> A fallible function returns a sum type, errors on the left; where the source can also
  panic, the left side is \<open>'e failure\<close> with the constructors \<open>Err\<close> and \<open>Panic\<close>, or the result is an
  option with \<open>None\<close> for the panic. Machine integers are words of their width, so arithmetic wraps as
  in the release profile; \<open>usize\<close> lengths are natural numbers. Fixed arrays are byte lists, with their length
  as a hypothesis where it matters. \<open>Instant\<close> and \<open>Duration\<close> are numbers of nanoseconds given by the caller.
  Mutable state is passed and returned. Cryptographic primitives of other crates (AEAD ciphers, SHA-1, HMAC) are
  parameters; what is assumed of them is a named predicate (\<open>aead_correct\<close>, \<open>hash20\<close>) or the length of their output.

  \<^bold>\<open>Shared theories.\<close> \<open>Prelude\<close> holds bytes, big-endian integers, the parser monad with its loops, and the
  interfaces \<open>byte_reader\<close> and \<open>sized_reader\<close>: what a cursor over a byte slice promises, and from that the
  composition lemmas for round trips (\<open>parses\<close>) and for totality (\<open>safe_p\<close>, \<open>eats\<close>). The readers of
  DTLS, CBOR, BGP and OSPF interpret them. \<open>Anti_Replay\<close> holds the interface \<open>replay_filter\<close>.
  \<open>Limbs\<close> holds numbers in a radix \<open>2 ^ k\<close> with the carry, borrow, selection and bit-buffer loops over them; \<open>Residue\<close> holds
  the interfaces \<open>residue_arith\<close>, a modular arithmetic on canonical elements, and \<open>ladder_arith\<close>, the same with a
  conditional swap, and proves exponentiation and the Montgomery ladder for every provider.

  \<^bold>\<open>tpt-dtls.\<close> \<open>Dtls_Wire\<close> (\<^verbatim>\<open>wire.rs\<close>): writer and reader. \<open>Dtls_Record\<close> (\<^verbatim>\<open>record.rs\<close>, \<^verbatim>\<open>crypto.rs\<close>): records,
  nonces, protection; round trip and nonce uniqueness. \<open>Dtls_Replay\<close> (\<^verbatim>\<open>replay.rs\<close>): the bitmap window refines a
  set of numbers and accepts each number at most once. \<open>Dtls_Retransmit\<close> (\<^verbatim>\<open>retransmit.rs\<close>): back-off and giving up.
  \<open>Dtls_Connection\<close> (\<^verbatim>\<open>connection.rs\<close>): the record loop and application data between two connected endpoints.

  \<^bold>\<open>tpt-cbor.\<close> \<open>Cbor_Float\<close>: the conversions between float widths on bit patterns. \<open>Cbor_Value\<close> (\<^verbatim>\<open>value.rs\<close>,
  \<^verbatim>\<open>encoder.rs\<close>): values and both encodings. \<open>Cbor_Decoder\<close> (\<^verbatim>\<open>decoder.rs\<close>): the decoder with fuel for its recursion;
  one unit more than the input length is enough, since every nested item consumes its first byte.
  \<open>Cbor_Roundtrip\<close> and \<open>Cbor_Laws\<close>: round trips, canonical form, duplicate keys, termination.

  \<^bold>\<open>tpt-bfd.\<close> \<open>Bfd_Packet\<close> (\<^verbatim>\<open>packet.rs\<close>) and \<open>Bfd_Session\<close> (\<^verbatim>\<open>session.rs\<close>, \<^verbatim>\<open>transport.rs\<close>): control packets,
  sessions with authentication, polling and detection timers, and the receive loop; sessions come up, come up only
  after authentic packets, and always have their detection timer armed.

  \<^bold>\<open>tpt-bgp.\<close> \<open>Bgp_Reader\<close>, \<open>Bgp_Attributes\<close>, \<open>Bgp_Wire\<close> (\<^verbatim>\<open>wire.rs\<close>, \<^verbatim>\<open>attributes.rs\<close>): messages, total decoding and
  round trip. \<open>Bgp_Fsm\<close> (\<^verbatim>\<open>fsm.rs\<close>): the peer state machine. \<open>Bgp_Rib\<close> (\<^verbatim>\<open>rib.rs\<close>): the RIB refines a map from sources
  to routes; the interface \<open>decision_order\<close> says when the selection loop finds an optimal route.

  \<^bold>\<open>tpt-ospf.\<close> \<open>Ospf_Lsa\<close>, \<open>Ospf_Wire\<close>, \<open>Ospf_Checksum\<close> (\<^verbatim>\<open>lsa.rs\<close>, \<^verbatim>\<open>wire.rs\<close>): LSAs, packets and the Internet
  checksum. \<open>Ospf_Database\<close> (\<^verbatim>\<open>database.rs\<close>): flooding converges, by the interface \<open>newest_wins\<close>. \<open>Ospf_Neighbor\<close>
  (\<^verbatim>\<open>neighbor.rs\<close>): the neighbor machines. \<open>Ospf_Spf\<close>, \<open>Ospf_Spf_Correct\<close> (\<^verbatim>\<open>spf.rs\<close>): Dijkstra's
  algorithm computes least path costs; its loop ends since every node is expanded once, and at most
  65536 Router-LSAs keep the \<open>u32\<close> costs from wrapping.

  \<^bold>\<open>tpt-x25519.\<close> \<open>X25519_Field\<close>, \<open>X448_Field\<close> (\<^verbatim>\<open>field255.rs\<close>, \<^verbatim>\<open>field448.rs\<close>): field elements in 64-bit limbs are
  the integers modulo the two primes; the fixed numbers of folds in the reductions are enough, and no sum overflows.
  \<open>X25519\<close>, \<open>X448\<close> (\<^verbatim>\<open>x25519.rs\<close>, \<^verbatim>\<open>x448.rs\<close>, \<^verbatim>\<open>util.rs\<close>): the constant-time ladders compute the ladder of RFC 7748,
  X448 with a scalar and a point decoding that differ from the RFC. That the primes are prime and that the ladder is
  scalar multiplication of the curve is not part of the library: the reference is the RFC's formula.

  \<^bold>\<open>tpt-hotp.\<close> \<open>Hotp\<close> (\<^verbatim>\<open>lib.rs\<close>): truncation, decimal codes, and the look-ahead search, with the number of
  counters left as its recursion argument.

  \<^bold>\<open>tpt-dhcp.\<close> \<open>Dhcp_Message\<close> (\<^verbatim>\<open>message.rs\<close>, \<^verbatim>\<open>options.rs\<close>): messages and options, lenient decoding, round trip.
  \<open>Dhcp_Lease\<close> (\<^verbatim>\<open>lease.rs\<close>, \<^verbatim>\<open>memory.rs\<close>): the memory store and the interface \<open>lease_store\<close> by which a server relies
  on any store. \<open>Dhcp_Server\<close> (\<^verbatim>\<open>server.rs\<close>): every message type, and that a granted address has one holder until
  its lease ends. \<open>Dhcp_Client\<close> (\<^verbatim>\<open>client.rs\<close>): the client, and client and server together over encoded messages: the
  exchange binds the client, but the two may disagree about the end of the lease. The search of the
  pool recurses on the number of addresses left. \<open>Duration::mul_f64\<close>, the only floating-point operation, is a
  parameter about which nothing is assumed.

  \<^bold>\<open>tpt-sieve.\<close> \<open>Sieve_Match\<close> (\<^verbatim>\<open>evaluator.rs\<close>): comparators, the wildcard matcher, which decides the declarative
  matching relation, and address extraction. \<open>Sieve_Lexer\<close> (\<^verbatim>\<open>lexer.rs\<close>) and \<open>Sieve_Parser\<close> (\<^verbatim>\<open>parser.rs\<close>, \<^verbatim>\<open>ast.rs\<close>): the texts
  of scripts, with the messages and positions of errors. The lexer recurses on the text left; the parser has three
  units of fuel for each token and four more, which \<open>Sieve_Syntax\<close> shows to be enough for every text, together with
  the round trip from scripts to text and back. \<open>Sieve_Eval\<close> (\<^verbatim>\<open>evaluator.rs\<close>, \<^verbatim>\<open>actions.rs\<close>, \<^verbatim>\<open>context.rs\<close>): the evaluator computes the
  big-step semantics of the language, and the fate of a message follows from the actions executed; a message is
  seen through the interface \<open>message_context\<close>, interpreted by the in-memory message. Characters are those up to U+00FF, the type
  \<open>char\<close> of HOL; the depth of the machine stack is not bounded.

  \<^bold>\<open>Not modelled.\<close> The DTLS handshake and key schedule, whose states are built around key exchange and signature
  crates, and the serde bridge of CBOR, whose behaviour is that of the derived implementations. Sockets and clocks: one
  turn of a receive loop is modelled, the loop around the socket is not. The other crates of the workspace are not
  modelled; many of them are asynchronous sessions over caller-supplied transports and stores, or ASN.1
  structures derived by other crates around signatures and ciphers.
\<close>

end
